(* ===== verification/Prelude.thy ===== *)
theory Prelude
  imports
    Main
    "HOL-Library.Word"
    "HOL-Library.AList"
    "HOL-Library.Char_ord"
    "HOL-Library.List_Lexorder"
    "HOL-Library.Product_Lexorder"
    "HOL-Library.Multiset"
begin

text \<open>
  The shared base of the development.

  \<^item> The widths of the Rust integers that are computed with (\<open>u8\<close>, \<open>u32\<close>, \<open>u64\<close>) and
    the standard-library operations the source uses on them (\<open>checked_add\<close>,
    \<open>saturating_add\<close>, \<open>saturating_sub\<close>, \<open>clamp\<close>, \<open>len() as u64\<close>).
    An \<open>i64\<close> that is only stored and compared is an \<open>int\<close>; a \<open>usize\<close> is a \<open>nat\<close>.
  \<^item> \<open>HashMap\<close> as an association list with distinct keys.  The order of the list is the
    iteration order, which Rust leaves unspecified and which differs between replicas; a
    result that must not depend on it is proved not to.
  \<^item> \<open>BTreeMap\<close> and \<open>BTreeSet\<close> as lists in strictly ascending key order.
  \<^item> \<open>key_store\<close>, the interface both maps provide, with the facts about bulk removal that
    the sweeps of the components use.
\<close>

section \<open>Machine integers\<close>

type_synonym u8 = "8 word"
type_synonym u32 = "32 word"
type_synonym u64 = "64 word"
type_synonym i64 = int
type_synonym usize = nat
type_synonym NodeId = u64

text \<open>\<open>checked_add\<close>: \<open>None\<close> where the sum does not fit.\<close>

definition checked_add :: "'a::len word \<Rightarrow> 'a word \<Rightarrow> 'a word option" where
  "checked_add a b = (if a \<le> a + b then Some (a + b) else None)"

definition saturating_add :: "'a::len word \<Rightarrow> 'a word \<Rightarrow> 'a word" where
  "saturating_add a b = (if a \<le> a + b then a + b else - 1)"

definition saturating_sub :: "'a::len word \<Rightarrow> 'a word \<Rightarrow> 'a word" where
  "saturating_sub a b = (if b \<le> a then a - b else 0)"

text \<open>\<open>Ord::clamp\<close>, for \<open>lo \<le> hi\<close>.\<close>

definition clamp :: "'a::linorder \<Rightarrow> 'a \<Rightarrow> 'a \<Rightarrow> 'a" where
  "clamp x lo hi = (if x < lo then lo else if hi < x then hi else x)"

text \<open>\<open>xs.len() as u64\<close>.\<close>

definition len_u64 :: "'a list \<Rightarrow> u64" where
  "len_u64 xs = of_nat (length xs)"

lemma checked_add_Some_iff:
  "checked_add a b = Some c \<longleftrightarrow> c = a + b \<and> a \<le> a + b"
  by (auto simp: checked_add_def)

lemma checked_add_unat:
  "checked_add a b = Some c \<Longrightarrow> unat c = unat a + unat b"
  by (simp add: checked_add_Some_iff unat_plus_simple)

lemma checked_add_None_iff:
  "checked_add a b = None \<longleftrightarrow> \<not> a \<le> a + b"
  by (simp add: checked_add_def)

lemma unat_u32_less: "unat (w :: u32) < 2 ^ 32"
  using unsigned_less [where ?'a = nat and ?'b = 32] by simp

lemma unat_u64_less: "unat (w :: u64) < 2 ^ 64"
  using unsigned_less [where ?'a = nat and ?'b = 64] by simp

lemma unat_of_nat_u64: "n < 2 ^ 64 \<Longrightarrow> unat (of_nat n :: u64) = n"
  by (simp add: unat_of_nat)

lemma unat_len_u64: "length xs < 2 ^ 64 \<Longrightarrow> unat (len_u64 xs) = length xs"
  by (simp add: len_u64_def unat_of_nat)

lemma clamp_bounds: "lo \<le> hi \<Longrightarrow> lo \<le> clamp x lo hi \<and> clamp x lo hi \<le> hi"
  by (auto simp: clamp_def)

lemma max_later: "a \<le> b \<Longrightarrow> max (max n b) a = max n (b :: 'a::linorder)"
  by (simp add: max.absorb1 max.coboundedI2)

lemma word_of_nat_pos_iff: "n < 2 ^ LENGTH('a) \<Longrightarrow> 0 < (of_nat n :: 'a::len word) \<longleftrightarrow> 0 < n"
proof -
  assume "n < 2 ^ LENGTH('a)"
  then have "2 ^ LENGTH('a) dvd n \<longleftrightarrow> n = 0" by (auto dest: dvd_imp_le)
  then show ?thesis by (simp only: word_greater_zero_iff word_of_nat_eq_0_iff) auto
qed

section \<open>The keyed-store interface\<close>

text \<open>
  What a client of a map relies on: the value read back after an insert or a removal, and
  that both keep the representation invariant.
\<close>

locale key_store =
  fixes get :: "'m \<Rightarrow> 'k \<Rightarrow> 'v option"
    and ins :: "'k \<Rightarrow> 'v \<Rightarrow> 'm \<Rightarrow> 'm"
    and del :: "'k \<Rightarrow> 'm \<Rightarrow> 'm"
    and ok :: "'m \<Rightarrow> bool"
  assumes get_ins: "ok m \<Longrightarrow> get (ins k v m) j = (if j = k then Some v else get m j)"
    and get_del: "ok m \<Longrightarrow> get (del k m) j = (if j = k then None else get m j)"
    and ok_ins: "ok m \<Longrightarrow> ok (ins k v m)"
    and ok_del: "ok m \<Longrightarrow> ok (del k m)"
begin

text \<open>Removing a list of keys one after another, as every sweep does.\<close>

lemma ok_fold_del: "ok m \<Longrightarrow> ok (fold del ks m)"
  by (induction ks arbitrary: m) (auto intro: ok_del)

lemma get_fold_del:
  "ok m \<Longrightarrow> get (fold del ks m) j = (if j \<in> set ks then None else get m j)"
proof (induction ks arbitrary: m)
  case (Cons k ks)
  then show ?case by (simp add: ok_del get_del)
qed simp

end

section \<open>HashMap: association lists with distinct keys\<close>

type_synonym ('k, 'v) hmap = "('k \<times> 'v) list"

abbreviation hm_get :: "('k, 'v) hmap \<Rightarrow> 'k \<Rightarrow> 'v option" where
  "hm_get \<equiv> map_of"

abbreviation hm_insert :: "'k \<Rightarrow> 'v \<Rightarrow> ('k, 'v) hmap \<Rightarrow> ('k, 'v) hmap" where
  "hm_insert \<equiv> AList.update"

abbreviation hm_remove :: "'k \<Rightarrow> ('k, 'v) hmap \<Rightarrow> ('k, 'v) hmap" where
  "hm_remove \<equiv> AList.delete"

definition hm_ok :: "('k, 'v) hmap \<Rightarrow> bool" where
  "hm_ok m = distinct (map fst m)"

lemma hm_ok_Nil [simp]: "hm_ok []"
  by (simp add: hm_ok_def)

lemma hm_ok_insert [simp]: "hm_ok m \<Longrightarrow> hm_ok (hm_insert k v m)"
  by (simp add: hm_ok_def distinct_update)

lemma hm_ok_remove [simp]: "hm_ok m \<Longrightarrow> hm_ok (hm_remove k m)"
  by (simp add: hm_ok_def distinct_delete)

lemma hm_get_insert [simp]: "hm_get (hm_insert k v m) j = (if j = k then Some v else hm_get m j)"
  by (simp add: update_conv)

lemma hm_get_remove [simp]: "hm_get (hm_remove k m) j = (if j = k then None else hm_get m j)"
  by (simp add: delete_conv)

interpretation hm: key_store hm_get hm_insert hm_remove hm_ok
  by unfold_locales auto

text \<open>Values a map holds, and how an update moves them.\<close>

lemma hm_get_in: "hm_get m k = Some v \<Longrightarrow> (k, v) \<in> set m"
  by (rule map_of_SomeD)

lemma hm_in_get: "hm_ok m \<Longrightarrow> (k, v) \<in> set m \<Longrightarrow> hm_get m k = Some v"
  by (simp add: hm_ok_def)

lemma hm_remove_absent: "hm_get m k = None \<Longrightarrow> hm_remove k m = m"
  by (simp add: map_of_eq_None_iff delete_idem)

lemma hm_insert_absent: "hm_get m k = None \<Longrightarrow> hm_insert k v m = m @ [(k, v)]"
  by (induction m) (auto split: if_splits)

lemma hm_remove_insert_same: "hm_remove k (hm_insert k v m) = hm_remove k m"
  by (induction m) auto

lemma hm_insert_same: "hm_get m k = Some v \<Longrightarrow> hm_insert k v m = m"
  by (induction m) auto

lemma hm_ok_filter: "hm_ok m \<Longrightarrow> hm_ok (filter P m)"
  by (simp add: hm_ok_def distinct_map_filter)

lemma hm_get_filter:
  assumes "hm_ok m"
  shows "hm_get (filter (\<lambda>(k, v). P v) m) k =
    (case hm_get m k of Some v \<Rightarrow> if P v then Some v else None | None \<Rightarrow> None)"
  using assms by (induction m) (auto simp: hm_ok_def map_of_eq_None_iff split: option.splits)

lemma hm_insert_split:
  assumes "hm_get m k = Some w"
  obtains xs ys where "m = xs @ (k, w) # ys" "hm_insert k v m = xs @ (k, v) # ys"
    "k \<notin> fst ` set xs"
  using assms
proof (induction m arbitrary: thesis)
  case (Cons p m)
  obtain a b where p: "p = (a, b)" by (cases p)
  show ?case
  proof (cases "a = k")
    case True
    with Cons.prems(2) p show ?thesis by (intro Cons.prems(1) [of "[]" m]) auto
  next
    case False
    with Cons.prems(2) p have "hm_get m k = Some w" by simp
    then obtain xs ys where "m = xs @ (k, w) # ys" "hm_insert k v m = xs @ (k, v) # ys"
      "k \<notin> fst ` set xs"
      using Cons.IH by blast
    with False p show ?thesis by (intro Cons.prems(1) [of "p # xs" ys]) auto
  qed
qed simp

lemma hm_remove_split:
  assumes "hm_ok m" and "hm_get m k = Some w"
  obtains xs ys where "m = xs @ (k, w) # ys" "hm_remove k m = xs @ ys"
proof -
  obtain xs ys where m: "m = xs @ (k, w) # ys" and xs: "k \<notin> fst ` set xs"
    using hm_insert_split [OF assms(2)] by metis
  have ys: "k \<notin> fst ` set ys" using assms(1) m by (simp add: hm_ok_def)
  have "hm_remove k m = hm_remove k xs @ hm_remove k ys"
    by (simp add: m AList.delete_eq)
  also have "\<dots> = xs @ ys"
    using xs ys by (simp add: delete_idem)
  finally have "hm_remove k m = xs @ ys" .
  with m show ?thesis by (rule that)
qed

text \<open>Sums over the values of a map: a count, or a multiset collected from all of them.\<close>

definition hm_sum :: "('v \<Rightarrow> 'a::comm_monoid_add) \<Rightarrow> ('k, 'v) hmap \<Rightarrow> 'a" where
  "hm_sum f m = sum_list (map (f \<circ> snd) m)"

definition hm_at :: "('v \<Rightarrow> 'a::comm_monoid_add) \<Rightarrow> ('k, 'v) hmap \<Rightarrow> 'k \<Rightarrow> 'a" where
  "hm_at f m k = (case hm_get m k of Some v \<Rightarrow> f v | None \<Rightarrow> 0)"

lemma hm_sum_simps [simp]:
  "hm_sum f [] = 0"
  "hm_sum f (p # m) = f (snd p) + hm_sum f m"
  "hm_sum f (m @ m') = hm_sum f m + hm_sum f m'"
  by (simp_all add: hm_sum_def)

lemma hm_sum_insert: "hm_sum f (hm_insert k v m) + hm_at f m k = hm_sum f m + f v"
proof (cases "hm_get m k")
  case None
  then show ?thesis by (simp add: hm_insert_absent hm_at_def)
next
  case (Some w)
  then obtain xs ys where "m = xs @ (k, w) # ys" "hm_insert k v m = xs @ (k, v) # ys"
    using hm_insert_split by metis
  with Some show ?thesis by (simp add: hm_at_def ac_simps)
qed

lemma hm_sum_remove: "hm_ok m \<Longrightarrow> hm_sum f (hm_remove k m) + hm_at f m k = hm_sum f m"
proof (cases "hm_get m k")
  case None
  then show ?thesis by (simp add: hm_remove_absent hm_at_def)
next
  assume "hm_ok m"
  case (Some w)
  with \<open>hm_ok m\<close> obtain xs ys where "m = xs @ (k, w) # ys" "hm_remove k m = xs @ ys"
    by (rule hm_remove_split)
  with Some show ?thesis by (simp add: hm_at_def ac_simps)
qed

lemma hm_at_absent: "k \<notin> fst ` set m \<Longrightarrow> hm_at f m k = 0"
  by (simp add: hm_at_def map_of_eq_None_iff [THEN iffD2])

lemma hm_sum_keys:
  assumes "hm_ok m" "finite K" "fst ` set m \<subseteq> K"
  shows "hm_sum f m = (\<Sum>k \<in> K. hm_at f m k)"
proof -
  have d: "distinct m" "inj_on fst (set m)" using assms(1) by (auto simp: hm_ok_def distinct_map)
  have "hm_sum f m = (\<Sum>p \<in> set m. f (snd p))"
    using d(1) by (simp add: hm_sum_def sum_list_distinct_conv_sum_set)
  also have "\<dots> = (\<Sum>p \<in> set m. hm_at f m (fst p))"
    using assms(1) by (intro sum.cong) (auto simp: hm_at_def hm_in_get)
  also have "\<dots> = (\<Sum>k \<in> fst ` set m. hm_at f m k)"
    using d(2) by (simp add: sum.reindex)
  also have "\<dots> = (\<Sum>k \<in> K. hm_at f m k)"
    using assms(2,3) by (intro sum.mono_neutral_left) (auto simp: hm_at_absent)
  finally show ?thesis .
qed

section \<open>BTreeMap and BTreeSet: strictly ascending lists\<close>

type_synonym ('k, 'v) bmap = "('k \<times> 'v) list"

definition bs_ok :: "'a::linorder list \<Rightarrow> bool" where
  "bs_ok xs = sorted_wrt (<) xs"

definition bm_ok :: "('k::linorder, 'v) bmap \<Rightarrow> bool" where
  "bm_ok m = bs_ok (map fst m)"

fun bm_insert :: "'k::linorder \<Rightarrow> 'v \<Rightarrow> ('k, 'v) bmap \<Rightarrow> ('k, 'v) bmap" where
  "bm_insert k v [] = [(k, v)]"
| "bm_insert k v (p # m) =
     (if k < fst p then (k, v) # p # m
      else if k = fst p then (k, v) # m
      else p # bm_insert k v m)"

definition bm_remove :: "'k::linorder \<Rightarrow> ('k, 'v) bmap \<Rightarrow> ('k, 'v) bmap" where
  "bm_remove k m = filter (\<lambda>p. fst p \<noteq> k) m"

fun bs_insert :: "'a::linorder \<Rightarrow> 'a list \<Rightarrow> 'a list" where
  "bs_insert x [] = [x]"
| "bs_insert x (y # ys) = (if x < y then x # y # ys else if x = y then y # ys else y # bs_insert x ys)"

definition bs_remove :: "'a::linorder \<Rightarrow> 'a list \<Rightarrow> 'a list" where
  "bs_remove x xs = filter (\<lambda>y. y \<noteq> x) xs"

lemma bs_ok_simps [simp]:
  "bs_ok []"
  "bs_ok (x # xs) \<longleftrightarrow> (\<forall>y \<in> set xs. x < y) \<and> bs_ok xs"
  by (auto simp: bs_ok_def)

lemma bs_ok_distinct: "bs_ok xs \<Longrightarrow> distinct xs"
  by (induction xs) auto

lemma bm_ok_simps [simp]:
  "bm_ok []"
  "bm_ok (p # m) \<longleftrightarrow> (\<forall>q \<in> set m. fst p < fst q) \<and> bm_ok m"
  by (auto simp: bm_ok_def)

lemma bm_ok_distinct: "bm_ok m \<Longrightarrow> distinct (map fst m)"
  by (simp add: bm_ok_def bs_ok_distinct)

lemma fst_bm_insert: "fst ` set (bm_insert k v m) = insert k (fst ` set m)"
  by (induction k v m rule: bm_insert.induct) auto

lemma bm_ok_insert [simp]: "bm_ok m \<Longrightarrow> bm_ok (bm_insert k v m)"
proof (induction k v m rule: bm_insert.induct)
  case (2 k v p m)
  have "fst p < fst q" if "q \<in> set (bm_insert k v m)" "fst p < k" for q
  proof -
    from that(1) have "fst q \<in> insert k (fst ` set m)"
      by (metis fst_bm_insert imageI)
    with that(2) 2(2) show ?thesis by auto
  qed
  with 2 show ?case by (auto simp: not_less_iff_gr_or_eq)
qed simp

lemma bm_ok_remove [simp]: "bm_ok m \<Longrightarrow> bm_ok (bm_remove k m)"
  by (induction m) (auto simp: bm_remove_def)

lemma bm_get_insert [simp]:
  "map_of (bm_insert k v m) j = (if j = k then Some v else map_of m j)"
  by (induction k v m rule: bm_insert.induct) auto

lemma bm_get_remove [simp]: "map_of (bm_remove k m) j = (if j = k then None else map_of m j)"
  by (induction m) (auto simp: bm_remove_def)

interpretation bm: key_store map_of bm_insert bm_remove bm_ok
  by unfold_locales auto

lemma set_bs_insert [simp]: "set (bs_insert x xs) = insert x (set xs)"
  by (induction x xs rule: bs_insert.induct) auto

lemma set_bs_remove [simp]: "set (bs_remove x xs) = set xs - {x}"
  by (auto simp: bs_remove_def)

lemma bs_ok_insert [simp]: "bs_ok xs \<Longrightarrow> bs_ok (bs_insert x xs)"
  by (induction x xs rule: bs_insert.induct) auto

lemma bs_ok_remove [simp]: "bs_ok xs \<Longrightarrow> bs_ok (bs_remove x xs)"
  by (induction xs) (auto simp: bs_remove_def)

text \<open>Two ascending lists with the same elements are the same list.\<close>

lemma bs_eqI: "bs_ok xs \<Longrightarrow> bs_ok ys \<Longrightarrow> set xs = set ys \<Longrightarrow> xs = ys"
  by (metis bs_ok_def strict_sorted_equal)

lemma map_of_expand: "distinct (map fst m) \<Longrightarrow> m = map (\<lambda>k. (k, the (map_of m k))) (map fst m)"
proof (induction m)
  case (Cons p m)
  then have "map (\<lambda>k. (k, the (map_of (p # m) k))) (map fst m) = m"
    by (metis (mono_tags, lifting) distinct.simps(2) list.map(2) map_cong
        fun_upd_other map_of.simps(2))
  then show ?case by (cases p) simp
qed simp

lemma bm_eqI:
  assumes "bm_ok m" "bm_ok m'" "map_of m = map_of m'"
  shows "m = m'"
proof -
  have "map fst m = map fst m'"
  proof (rule bs_eqI)
    show "bs_ok (map fst m)" "bs_ok (map fst m')" using assms by (simp_all add: bm_ok_def)
    show "set (map fst m) = set (map fst m')"
      using assms(3) by (metis dom_map_of_conv_image_fst list.set_map)
  qed
  then show ?thesis
    by (metis assms bm_ok_distinct map_of_expand)
qed

end
