(* ===== verification/Kv.thy ===== *)
theory Kv
  imports Prelude
begin

text \<open>
  The replicated key/value fragment of \<^verbatim>\<open>fluree-raft-core/src/kv.rs\<close>: a piece of
  application state, reduced by a pure function of the fragment, the command, the policy and
  the Raft log index of the entry that carried the command.

  A record's version is the log index of the write that created it (the fence of a lease);
  an entry is expired when \<open>expires_at_ms \<le> now_ms\<close>, and an expired entry is logically absent
  whether or not a sweep has removed it.

  A Rust string is the list of its bytes, so \<open>key.len()\<close> is the length of the list and the
  key order of the \<open>BTreeMap\<close> is the lexicographic byte order.
\<close>

section \<open>Commands and responses\<close>

definition HARD_MAX_EVICT_LIMIT :: u32 where
  "HARD_MAX_EVICT_LIMIT = 1024"

definition DEFAULT_EVICT_LIMIT :: u32 where
  "DEFAULT_EVICT_LIMIT = 256"

definition DEFAULT_MAX_KEY_BYTES :: u64 where
  "DEFAULT_MAX_KEY_BYTES = 1024"

definition DEFAULT_MAX_VALUE_BYTES :: u64 where
  "DEFAULT_MAX_VALUE_BYTES = 1024 * 1024"

datatype Expect = Any | Absent | Version u64

datatype KvCommand =
    Put string "u8 list" Expect "u64 option" u64
  | Delete string Expect u64
  | TakeOnce string u64
  | Evict u64 u32

text \<open>A record as an observer sees it (\<open>KvRecord\<close>, and \<open>KvRecordRef\<close>, its borrowed form).\<close>

record KvRecord =
  k_value :: "u8 list"
  k_version :: u64
  k_expires_at_ms :: "u64 option"

datatype KvRejection =
    KeyTooLarge u64 u64
  | ValueTooLarge u64 u64
  | TtlZero
  | TtlAboveMax u64 u64
  | TtlOverflow u64 u64
  | ImmortalNotAllowed
  | EntryQuotaExceeded u64 u64
  | ByteQuotaExceeded u64 u64

datatype KvResponse =
    Written u64 "u64 option"
  | Deleted bool
  | Taken "KvRecord option"
  | Evicted u32 bool
  | Conflict "KvRecord option"
  | Rejected KvRejection

section \<open>Policy\<close>

record KvPolicy =
  max_key_bytes :: u64
  max_value_bytes :: u64
  max_ttl_ms :: u64
  allow_immortal :: bool
  max_entries :: u64
  max_bytes :: u64
  max_evict_per_apply :: u32

definition default_policy :: KvPolicy where
  "default_policy =
     \<lparr>max_key_bytes = DEFAULT_MAX_KEY_BYTES,
      max_value_bytes = DEFAULT_MAX_VALUE_BYTES,
      max_ttl_ms = 24 * 60 * 60 * 1000,
      allow_immortal = False,
      max_entries = 100000,
      max_bytes = 64 * 1024 * 1024,
      max_evict_per_apply = DEFAULT_EVICT_LIMIT\<rparr>"

definition check_key :: "KvPolicy \<Rightarrow> string \<Rightarrow> KvRejection + unit" where
  "check_key p key =
     (let n = len_u64 key in
      if max_key_bytes p < n then Inl (KeyTooLarge n (max_key_bytes p)) else Inr ())"

definition check_put ::
  "KvPolicy \<Rightarrow> string \<Rightarrow> u8 list \<Rightarrow> u64 option \<Rightarrow> u64 \<Rightarrow> KvRejection + u64 option" where
  "check_put p key v ttl_ms now_ms =
     (case check_key p key of
        Inl e \<Rightarrow> Inl e
      | Inr _ \<Rightarrow>
          (let value_bytes = len_u64 v in
           if max_value_bytes p < value_bytes then Inl (ValueTooLarge value_bytes (max_value_bytes p))
           else case ttl_ms of
                  None \<Rightarrow> (if \<not> allow_immortal p then Inl ImmortalNotAllowed else Inr None)
                | Some ttl \<Rightarrow>
                    (if ttl = 0 then Inl TtlZero
                     else if max_ttl_ms p < ttl then Inl (TtlAboveMax ttl (max_ttl_ms p))
                     else case checked_add now_ms ttl of
                            None \<Rightarrow> Inl (TtlOverflow now_ms ttl)
                          | Some at \<Rightarrow> Inr (Some at))))"

definition evict_batch :: "KvPolicy \<Rightarrow> u32 \<Rightarrow> u32" where
  "evict_batch p limit = clamp limit 1 (clamp (max_evict_per_apply p) 1 HARD_MAX_EVICT_LIMIT)"

section \<open>State\<close>

record Record =
  r_value :: "u8 list"
  r_version :: u64
  r_expires_at_ms :: "u64 option"

definition expired_at :: "Record \<Rightarrow> u64 \<Rightarrow> bool" where
  "expired_at r now_ms = (case r_expires_at_ms r of None \<Rightarrow> False | Some at \<Rightarrow> at \<le> now_ms)"

definition footprint :: "string \<Rightarrow> Record \<Rightarrow> u64" where
  "footprint key r = len_u64 key + len_u64 (r_value r)"

definition as_ref :: "Record \<Rightarrow> KvRecord" where
  "as_ref r = \<lparr>k_value = r_value r, k_version = r_version r, k_expires_at_ms = r_expires_at_ms r\<rparr>"

type_synonym expiry = "u64 \<times> string \<times> u64"

record KvFragment =
  entries :: "(string, Record) bmap"
  expiring :: "expiry list"
  fbytes :: u64
  time_floor :: u64

definition new_fragment :: KvFragment where
  "new_fragment = \<lparr>entries = [], expiring = [], fbytes = 0, time_floor = 0\<rparr>"

text \<open>The instant a decision is actually made at.\<close>

definition at_time :: "KvFragment \<Rightarrow> u64 \<Rightarrow> u64" where
  "at_time f now_ms = max now_ms (time_floor f)"

definition live :: "KvFragment \<Rightarrow> string \<Rightarrow> u64 \<Rightarrow> Record option" where
  "live f key now_ms =
     (case map_of (entries f) key of
        None \<Rightarrow> None
      | Some r \<Rightarrow> if expired_at r now_ms then None else Some r)"

definition get_at :: "KvFragment \<Rightarrow> string \<Rightarrow> u64 \<Rightarrow> KvRecord option" where
  "get_at f key now_ms =
     (let now_ms = at_time f now_ms in
      case map_of (entries f) key of
        None \<Rightarrow> None
      | Some r \<Rightarrow> if expired_at r now_ms then None else Some (as_ref r))"

definition iter_at :: "KvFragment \<Rightarrow> u64 \<Rightarrow> (string \<times> KvRecord) list" where
  "iter_at f now_ms =
     (let now_ms = at_time f now_ms in
      map (\<lambda>(key, r). (key, as_ref r)) (filter (\<lambda>(key, r). \<not> expired_at r now_ms) (entries f)))"

definition physical_len :: "KvFragment \<Rightarrow> usize" where
  "physical_len f = length (entries f)"

definition physical_bytes :: "KvFragment \<Rightarrow> u64" where
  "physical_bytes f = fbytes f"

text \<open>
  Everything with \<open>expires_at_ms \<le> cutoff_ms\<close>, in index order: the source asks the ordered
  set for the range below \<open>(cutoff_ms + 1, "", 0)\<close>, or for all of it when that overflows.
\<close>

definition expired_range :: "KvFragment \<Rightarrow> u64 \<Rightarrow> expiry list" where
  "expired_range f cutoff_ms =
     (case checked_add cutoff_ms 1 of
        Some nxt \<Rightarrow> filter (\<lambda>x. x < (nxt, '''', 0)) (expiring f)
      | None \<Rightarrow> expiring f)"

definition has_expired_at :: "KvFragment \<Rightarrow> u64 \<Rightarrow> bool" where
  "has_expired_at f cutoff_ms = (expired_range f (at_time f cutoff_ms) \<noteq> [])"

datatype InvariantViolation =
    ByteTotal u64 u64
  | ExpiryIndex "expiry list" "expiry list"

definition index_of :: "(string, Record) bmap \<Rightarrow> expiry list" where
  "index_of es =
     fold (\<lambda>(key, r) acc. case r_expires_at_ms r of
                            None \<Rightarrow> acc
                          | Some at \<Rightarrow> bs_insert (at, key, r_version r) acc) es []"

definition check_invariants :: "KvFragment \<Rightarrow> InvariantViolation + unit" where
  "check_invariants f =
     (let actual_bytes = sum_list (map (\<lambda>(key, r). footprint key r) (entries f)) in
      if actual_bytes \<noteq> fbytes f then Inl (ByteTotal (fbytes f) actual_bytes)
      else let actual = index_of (entries f) in
           if actual \<noteq> expiring f then Inl (ExpiryIndex (expiring f) actual)
           else Inr ())"

text \<open>Drop a record and every trace of it.\<close>

definition take_rec :: "KvFragment \<Rightarrow> string \<Rightarrow> KvFragment \<times> Record option" where
  "take_rec f key =
     (case map_of (entries f) key of
        None \<Rightarrow> (f, None)
      | Some r \<Rightarrow>
          (f\<lparr>entries := bm_remove key (entries f),
             fbytes := fbytes f - footprint key r,
             expiring := (case r_expires_at_ms r of
                            None \<Rightarrow> expiring f
                          | Some at \<Rightarrow> bs_remove (at, key, r_version r) (expiring f))\<rparr>,
           Some r))"

definition insert_rec :: "KvFragment \<Rightarrow> string \<Rightarrow> Record \<Rightarrow> KvFragment" where
  "insert_rec f key r =
     f\<lparr>fbytes := fbytes f + footprint key r,
       expiring := (case r_expires_at_ms r of
                      None \<Rightarrow> expiring f
                    | Some at \<Rightarrow> bs_insert (at, key, r_version r) (expiring f)),
       entries := bm_insert key r (entries f)\<rparr>"

definition note_reclaimed_at :: "KvFragment \<Rightarrow> u64 \<Rightarrow> KvFragment" where
  "note_reclaimed_at f now_ms = f\<lparr>time_floor := max (time_floor f) now_ms\<rparr>"

definition reclaim_if_expired :: "KvFragment \<Rightarrow> string \<Rightarrow> u64 \<Rightarrow> KvFragment" where
  "reclaim_if_expired f key now_ms =
     (case map_of (entries f) key of
        Some r \<Rightarrow> if expired_at r now_ms then note_reclaimed_at (fst (take_rec f key)) now_ms else f
      | None \<Rightarrow> f)"

definition conflict :: "KvFragment \<Rightarrow> string \<Rightarrow> u64 \<Rightarrow> KvResponse" where
  "conflict f key now_ms = Conflict (map_option as_ref (live f key now_ms))"

section \<open>The snapshot form\<close>

record KvFragmentWire =
  w_entries :: "(string, Record) bmap"
  w_time_floor :: u64

definition into_wire :: "KvFragment \<Rightarrow> KvFragmentWire" where
  "into_wire f = \<lparr>w_entries = entries f, w_time_floor = time_floor f\<rparr>"

definition from_wire :: "KvFragmentWire \<Rightarrow> KvFragment" where
  "from_wire w =
     fold (\<lambda>(key, r) f. insert_rec f key r) (w_entries w)
       \<lparr>entries = [], expiring = [], fbytes = 0, time_floor = w_time_floor w\<rparr>"

section \<open>Apply\<close>

definition expect_holds :: "Expect \<Rightarrow> u64 option \<Rightarrow> bool" where
  "expect_holds e live_version =
     (case e of Any \<Rightarrow> True | Absent \<Rightarrow> live_version = None | Version want \<Rightarrow> live_version = Some want)"

definition put ::
  "KvFragment \<Rightarrow> string \<Rightarrow> u8 list \<Rightarrow> Expect \<Rightarrow> u64 option \<Rightarrow> u64 \<Rightarrow> KvPolicy \<Rightarrow> u64
     \<Rightarrow> KvFragment \<times> KvResponse" where
  "put f key v ex ttl_ms now_ms p log_index =
     (let now_ms = at_time f now_ms in
      case check_put p key v ttl_ms now_ms of
        Inl rejection \<Rightarrow> (f, Rejected rejection)
      | Inr expires_at_ms \<Rightarrow>
          if \<not> expect_holds ex (map_option r_version (live f key now_ms)) then (f, conflict f key now_ms)
          else
            (let f = reclaim_if_expired f key now_ms;
                 displaced = (case map_of (entries f) key of None \<Rightarrow> 0 | Some r \<Rightarrow> footprint key r);
                 r = \<lparr>r_value = v, r_version = log_index, r_expires_at_ms = expires_at_ms\<rparr>;
                 after_bytes = fbytes f - displaced + footprint key r in
             if max_bytes p < after_bytes then (f, Rejected (ByteQuotaExceeded after_bytes (max_bytes p)))
             else
               (let after_entries =
                      len_u64 (entries f) + (if map_of (entries f) key = None then 1 else 0) in
                if max_entries p < after_entries
                then (f, Rejected (EntryQuotaExceeded after_entries (max_entries p)))
                else (insert_rec (fst (take_rec f key)) key r, Written log_index expires_at_ms))))"

definition delete ::
  "KvFragment \<Rightarrow> string \<Rightarrow> Expect \<Rightarrow> u64 \<Rightarrow> KvPolicy \<Rightarrow> KvFragment \<times> KvResponse" where
  "delete f key ex now_ms p =
     (case check_key p key of
        Inl rejection \<Rightarrow> (f, Rejected rejection)
      | Inr _ \<Rightarrow>
          (let now_ms = at_time f now_ms;
               live_version = map_option r_version (live f key now_ms) in
           if \<not> expect_holds ex live_version then (f, conflict f key now_ms)
           else
             (let f = reclaim_if_expired f key now_ms in
              if live_version \<noteq> None
              then (let (f', taken) = take_rec f key in (f', Deleted (taken \<noteq> None)))
              else (f, Deleted False))))"

definition take_once ::
  "KvFragment \<Rightarrow> string \<Rightarrow> u64 \<Rightarrow> KvPolicy \<Rightarrow> KvFragment \<times> KvResponse" where
  "take_once f key now_ms p =
     (case check_key p key of
        Inl rejection \<Rightarrow> (f, Rejected rejection)
      | Inr _ \<Rightarrow>
          (let now_ms = at_time f now_ms;
               f = reclaim_if_expired f key now_ms in
           if live f key now_ms \<noteq> None
           then (let (f', r) = take_rec f key in (f', Taken (map_option as_ref r)))
           else (f, Taken None)))"

text \<open>The removal loop of \<open>evict\<close>, with its counter.\<close>

fun remove_doomed :: "string list \<Rightarrow> KvFragment \<Rightarrow> u32 \<Rightarrow> KvFragment \<times> u32" where
  "remove_doomed [] f removed = (f, removed)"
| "remove_doomed (key # keys) f removed =
     (let (f', taken) = take_rec f key in
      remove_doomed keys f' (if taken \<noteq> None then removed + 1 else removed))"

definition evict :: "KvFragment \<Rightarrow> u64 \<Rightarrow> u32 \<Rightarrow> KvFragment \<times> KvResponse" where
  "evict f cutoff_ms limit =
     (let cutoff_ms = at_time f cutoff_ms;
          doomed = map (\<lambda>(_, key, _). key) (take (unat limit) (expired_range f cutoff_ms));
          (f, removed) = remove_doomed doomed f 0;
          f = (if 0 < removed then note_reclaimed_at f cutoff_ms else f) in
      (f, Evicted removed (expired_range f cutoff_ms \<noteq> [])))"

fun kv_apply :: "KvFragment \<Rightarrow> KvCommand \<Rightarrow> KvPolicy \<Rightarrow> u64 \<Rightarrow> KvFragment \<times> KvResponse" where
  "kv_apply f (Put key v ex ttl_ms now_ms) p log_index = put f key v ex ttl_ms now_ms p log_index"
| "kv_apply f (Delete key ex now_ms) p log_index = delete f key ex now_ms p"
| "kv_apply f (TakeOnce key now_ms) p log_index = take_once f key now_ms p"
| "kv_apply f (Evict cutoff_ms limit) p log_index = evict f cutoff_ms (evict_batch p limit)"

text \<open>A log of commands, each with the index of its entry, reduced in order.\<close>

fun kv_run :: "KvPolicy \<Rightarrow> KvFragment \<Rightarrow> (u64 \<times> KvCommand) list \<Rightarrow> KvFragment" where
  "kv_run p f [] = f"
| "kv_run p f ((i, c) # log) = kv_run p (fst (kv_apply f c p i)) log"

section \<open>The representation invariant\<close>

text \<open>
  \<open>expiring\<close> and \<open>fbytes\<close> are denormalizations of \<open>entries\<close>: the index holds exactly
  one triple per record with an expiry, and the byte total is the (wrapping) sum of the
  footprints.
\<close>

definition total_bytes :: "(string, Record) bmap \<Rightarrow> u64" where
  "total_bytes es = sum_list (map (\<lambda>(key, r). footprint key r) es)"

definition expiry_set :: "(string, Record) bmap \<Rightarrow> expiry set" where
  "expiry_set es =
     {(at, key, ver). \<exists>r. map_of es key = Some r \<and> ver = r_version r \<and> r_expires_at_ms r = Some at}"

definition kv_ok :: "KvFragment \<Rightarrow> bool" where
  "kv_ok f \<longleftrightarrow>
     bm_ok (entries f) \<and> bs_ok (expiring f) \<and>
     set (expiring f) = expiry_set (entries f) \<and> fbytes f = total_bytes (entries f)"

lemma kv_okD:
  assumes "kv_ok f"
  shows "bm_ok (entries f)" "bs_ok (expiring f)" "set (expiring f) = expiry_set (entries f)"
    "fbytes f = total_bytes (entries f)"
  using assms by (simp_all add: kv_ok_def)

lemma total_bytes_insert:
  "map_of es key = None \<Longrightarrow> total_bytes (bm_insert key r es) = total_bytes es + footprint key r"
  by (induction key r es rule: bm_insert.induct)
    (auto simp: total_bytes_def split: if_splits prod.splits)

lemma total_bytes_remove:
  "bm_ok es \<Longrightarrow> map_of es key = Some r \<Longrightarrow>
   total_bytes (bm_remove key es) = total_bytes es - footprint key r"
proof (induction es)
  case (Cons e es)
  show ?case
  proof (cases "fst e = key")
    case True
    have "bm_remove key es = es"
      using Cons.prems(1) True by (auto simp: bm_remove_def filter_id_conv)
    with True Cons.prems show ?thesis
      by (cases e) (simp add: bm_remove_def total_bytes_def)
  next
    case False
    with Cons show ?thesis
      by (cases e) (auto simp: bm_remove_def total_bytes_def)
  qed
qed simp

lemma expiry_set_insert:
  "map_of es key = None \<Longrightarrow>
   expiry_set (bm_insert key r es) =
     (case r_expires_at_ms r of None \<Rightarrow> {} | Some at \<Rightarrow> {(at, key, r_version r)}) \<union> expiry_set es"
  by (auto simp: expiry_set_def split: option.splits if_splits)

lemma expiry_set_remove:
  "map_of es key = Some r \<Longrightarrow>
   expiry_set (bm_remove key es) =
     expiry_set es - (case r_expires_at_ms r of None \<Rightarrow> {} | Some at \<Rightarrow> {(at, key, r_version r)})"
  by (auto simp: expiry_set_def split: option.splits if_splits)

subsection \<open>What each helper does to the records and the floor\<close>

lemma take_rec_entries [simp]:
  "map_of (entries (fst (take_rec f key))) j = (if j = key then None else map_of (entries f) j)"
  by (auto simp: take_rec_def split: option.splits)

lemma take_rec_snd [simp]: "snd (take_rec f key) = map_of (entries f) key"
  by (auto simp: take_rec_def split: option.splits)

lemma take_rec_floor [simp]: "time_floor (fst (take_rec f key)) = time_floor f"
  by (auto simp: take_rec_def split: option.splits)

lemma insert_rec_entries [simp]:
  "map_of (entries (insert_rec f key r)) j = (if j = key then Some r else map_of (entries f) j)"
  by (simp add: insert_rec_def)

lemma insert_rec_floor [simp]: "time_floor (insert_rec f key r) = time_floor f"
  by (simp add: insert_rec_def)

lemma note_reclaimed_simps [simp]:
  "entries (note_reclaimed_at f n) = entries f"
  "expiring (note_reclaimed_at f n) = expiring f"
  "fbytes (note_reclaimed_at f n) = fbytes f"
  "time_floor (note_reclaimed_at f n) = max (time_floor f) n"
  by (simp_all add: note_reclaimed_at_def)

lemma reclaim_entries:
  "map_of (entries (reclaim_if_expired f key n)) j =
     (if j = key then live f key n else map_of (entries f) j)"
  by (auto simp: reclaim_if_expired_def live_def split: option.splits)

lemma reclaim_floor:
  "time_floor (reclaim_if_expired f key n) =
     (case map_of (entries f) key of
        Some r \<Rightarrow> if expired_at r n then max (time_floor f) n else time_floor f
      | None \<Rightarrow> time_floor f)"
  by (auto simp: reclaim_if_expired_def split: option.splits)

lemma reclaim_floor_ge: "time_floor f \<le> time_floor (reclaim_if_expired f key n)"
  by (auto simp: reclaim_floor split: option.splits)

lemma kv_ok_new [simp]: "kv_ok new_fragment"
  by (auto simp: kv_ok_def new_fragment_def total_bytes_def expiry_set_def)

lemma kv_ok_note [simp]: "kv_ok (note_reclaimed_at f n) = kv_ok f"
  by (simp add: kv_ok_def)

lemma kv_ok_take [simp]: "kv_ok f \<Longrightarrow> kv_ok (fst (take_rec f key))"
  by (auto simp: take_rec_def kv_ok_def total_bytes_remove expiry_set_remove split: option.splits)

lemma kv_ok_insert:
  "kv_ok f \<Longrightarrow> map_of (entries f) key = None \<Longrightarrow> kv_ok (insert_rec f key r)"
  by (auto simp: insert_rec_def kv_ok_def total_bytes_insert expiry_set_insert split: option.splits)

lemma kv_ok_reclaim [simp]: "kv_ok f \<Longrightarrow> kv_ok (reclaim_if_expired f key n)"
  by (auto simp: reclaim_if_expired_def split: option.splits)

lemma kv_ok_put: "kv_ok f \<Longrightarrow> kv_ok (fst (put f key v ex ttl now p i))"
  by (auto simp: put_def Let_def kv_ok_insert split: sum.splits)

lemma kv_ok_delete: "kv_ok f \<Longrightarrow> kv_ok (fst (delete f key ex now p))"
  by (auto simp: delete_def Let_def case_prod_beta split: sum.splits)

lemma kv_ok_take_once: "kv_ok f \<Longrightarrow> kv_ok (fst (take_once f key now p))"
  by (auto simp: take_once_def Let_def case_prod_beta split: sum.splits)

lemma kv_ok_remove_doomed: "kv_ok f \<Longrightarrow> kv_ok (fst (remove_doomed ks f n))"
  by (induction ks arbitrary: f n) (simp_all add: case_prod_beta)

lemma kv_ok_evict: "kv_ok f \<Longrightarrow> kv_ok (fst (evict f cutoff limit))"
  by (simp add: evict_def Let_def case_prod_beta kv_ok_remove_doomed)

lemma kv_ok_apply: "kv_ok f \<Longrightarrow> kv_ok (fst (kv_apply f c p i))"
  by (cases c) (simp_all add: kv_ok_put kv_ok_delete kv_ok_take_once kv_ok_evict)

lemma kv_ok_run: "kv_ok f \<Longrightarrow> kv_ok (kv_run p f log)"
  by (induction p f log rule: kv_run.induct) (auto intro: kv_ok_apply)

lemma index_of_aux:
  "bs_ok acc \<Longrightarrow>
   bs_ok (fold (\<lambda>(key, r) acc. case r_expires_at_ms r of
                 None \<Rightarrow> acc | Some at \<Rightarrow> bs_insert (at, key, r_version r) acc) es acc) \<and>
   set (fold (\<lambda>(key, r) acc. case r_expires_at_ms r of
                 None \<Rightarrow> acc | Some at \<Rightarrow> bs_insert (at, key, r_version r) acc) es acc) =
     set acc \<union> {(at, key, r_version r) | at key r. (key, r) \<in> set es \<and> r_expires_at_ms r = Some at}"
proof (induction es arbitrary: acc)
  case (Cons e es)
  obtain key r where e: "e = (key, r)" by (cases e)
  show ?case
  proof (cases "r_expires_at_ms r")
    case None
    with Cons.IH [OF Cons.prems] e show ?thesis by auto
  next
    case (Some at)
    have "bs_ok (bs_insert (at, key, r_version r) acc)" using Cons.prems by simp
    from Cons.IH [OF this] e Some show ?thesis by auto
  qed
qed simp

lemma index_of_ok: "bm_ok es \<Longrightarrow> bs_ok (index_of es) \<and> set (index_of es) = expiry_set es"
  using index_of_aux [of "[]" es] bm_ok_distinct [of es]
  by (auto simp: index_of_def expiry_set_def)

lemma kv_ok_check: "kv_ok f \<Longrightarrow> check_invariants f = Inr ()"
  using index_of_ok [of "entries f"] bs_eqI [of "index_of (entries f)" "expiring f"]
  by (auto simp: check_invariants_def kv_ok_def total_bytes_def)

end
