(* ===== verification/Kv_Lemmas.thy ===== *)
theory Kv_Lemmas
  imports Kv
begin

text \<open>
  What the operations of the key/value fragment do, over one command and over a log: the complete
  effect of a bounded sweep, the frame of the other keys, how the version of a record moves, that
  an absent key stays absent, the snapshot, and the exact byte count behind the quotas.
\<close>

section \<open>The expiry index and the sweep\<close>

lemma word_less_succ:
  assumes "(c :: u64) \<le> c + 1"
  shows "a < c + 1 \<longleftrightarrow> a \<le> c"
proof -
  have "unat (c + 1) = unat c + 1" using assms unat_plus_simple [of c 1] by simp
  then show ?thesis by (auto simp: word_less_nat_alt word_le_nat_alt)
qed

lemma word_top:
  assumes "\<not> (c :: u64) \<le> c + 1"
  shows "a \<le> c"
proof -
  have "c + 1 = 0"
  proof (rule ccontr)
    assume "c + 1 \<noteq> 0"
    then have "unat (c + 1) = unat c + 1"
      by (metis Suc_eq_plus1 add.commute unatSuc)
    with assms show False by (simp add: word_le_nat_alt)
  qed
  then have "c = - 1" by (simp add: eq_neg_iff_add_eq_0)
  then show ?thesis by simp
qed

lemma in_expired_range:
  "x \<in> set (expired_range f c) \<longleftrightarrow> x \<in> set (expiring f) \<and> fst x \<le> c"
proof (cases "c \<le> c + 1")
  case True
  then show ?thesis
    by (cases x) (auto simp: expired_range_def checked_add_def word_less_succ)
next
  case False
  then show ?thesis
    by (auto simp: expired_range_def checked_add_def word_top)
qed

lemma expired_range_record:
  assumes "kv_ok f" "x \<in> set (expired_range f c)"
  obtains r where "map_of (entries f) (fst (snd x)) = Some r" "r_expires_at_ms r = Some (fst x)"
    "fst x \<le> c"
  using assms(2) kv_okD(3) [OF assms(1)]
  by (auto simp: in_expired_range expiry_set_def case_prod_beta)

lemma expired_range_ok: "kv_ok f \<Longrightarrow> bs_ok (expired_range f c)"
proof -
  assume "kv_ok f"
  then have "bs_ok (expiring f)" by (rule kv_okD)
  then show ?thesis
    by (auto simp: expired_range_def bs_ok_def sorted_wrt_filter split: option.splits)
qed

abbreviation expiry_key :: "expiry \<Rightarrow> string" where
  "expiry_key x \<equiv> fst (snd x)"

lemma distinct_expiry_keys:
  assumes "kv_ok f"
  shows "distinct (map expiry_key (expired_range f c))"
proof -
  have "distinct (expired_range f c)"
    using expired_range_ok [OF assms] by (rule bs_ok_distinct)
  moreover have "inj_on expiry_key (set (expired_range f c))"
    using kv_okD(3) [OF assms] by (fastforce simp: inj_on_def in_expired_range expiry_set_def)
  ultimately show ?thesis by (simp add: distinct_map)
qed

lemma take_rec_entries_eq: "entries (fst (take_rec f k)) = bm_remove k (entries f)"
  by (auto simp: take_rec_def bm_remove_def map_of_eq_None_iff split: option.splits
      intro!: filter_True [symmetric])

lemma remove_doomed_entries: "entries (fst (remove_doomed ks f n)) = fold bm_remove ks (entries f)"
proof (induction ks arbitrary: f n)
  case (Cons k ks)
  then show ?case by (simp add: case_prod_beta take_rec_entries_eq)
qed simp

lemma remove_doomed_floor: "time_floor (fst (remove_doomed ks f n)) = time_floor f"
  by (induction ks arbitrary: f n) (simp_all add: case_prod_beta)

lemma remove_doomed_count:
  "distinct ks \<Longrightarrow> \<forall>k \<in> set ks. map_of (entries f) k \<noteq> None \<Longrightarrow>
   snd (remove_doomed ks f n) = n + of_nat (length ks)"
proof (induction ks arbitrary: f n)
  case (Cons k ks)
  then have "\<forall>j \<in> set ks. map_of (entries (fst (take_rec f k))) j \<noteq> None" by auto
  with Cons show ?case by (simp add: case_prod_beta)
qed simp

text \<open>
  The complete effect of one bounded sweep, as a function of the list \<open>E\<close> of what has
  expired at the effective cutoff.
\<close>

lemma evict_effect:
  assumes ok: "kv_ok f" and c: "c = at_time f cutoff" and E: "E = expired_range f c"
    and f': "f' = fst (evict f cutoff limit)"
  shows "kv_ok f'"
    and "snd (evict f cutoff limit) =
           Evicted (of_nat (min (unat limit) (length E))) (unat limit < length E)"
    and "map_of (entries f') j =
           (if j \<in> expiry_key ` set (take (unat limit) E) then None else map_of (entries f) j)"
    and "time_floor f' = (if take (unat limit) E = [] then time_floor f else c)"
    and "expired_range f' c = drop (unat limit) E"
proof -
  define D where "D = map expiry_key (take (unat limit) E)"
  define g where "g = fst (remove_doomed D f 0)"
  define n where "n = snd (remove_doomed D f 0)"
  have gok: "kv_ok g" using ok by (simp add: g_def kv_ok_remove_doomed)
  have Dkeys: "(\<lambda>(_, key, _). key) = expiry_key" by auto
  have ev: "evict f cutoff limit =
      (let h = (if 0 < n then note_reclaimed_at g c else g) in (h, Evicted n (expired_range h c \<noteq> [])))"
    by (simp add: evict_def Let_def c [symmetric] E [symmetric] Dkeys D_def [symmetric]
        g_def n_def case_prod_beta)
  have dist: "distinct D"
    using distinct_expiry_keys [OF ok, of c]
    by (simp add: D_def E take_map [symmetric] distinct_take)
  have pres: "\<forall>k \<in> set D. map_of (entries f) k \<noteq> None"
    using kv_okD(3) [OF ok] by (auto simp: D_def E in_expired_range expiry_set_def dest!: in_set_takeD)
  have n: "n = of_nat (length D)"
    using remove_doomed_count [OF dist pres, of 0] by (simp add: n_def)
  have lenD: "length D = min (unat limit) (length E)" by (simp add: D_def min.commute)
  have "length D < 2 ^ 32" using lenD unat_u32_less [of limit] by simp
  then have n0: "0 < n \<longleftrightarrow> D \<noteq> []"
    by (simp add: n word_of_nat_pos_iff)
  have gmap: "map_of (entries g) j = (if j \<in> set D then None else map_of (entries f) j)" for j
    using bm.get_fold_del [OF kv_okD(1) [OF ok]] by (simp add: g_def remove_doomed_entries)
  have gfloor: "time_floor g = time_floor f" by (simp add: g_def remove_doomed_floor)
  have er: "expired_range h c = expired_range g c" if "expiring h = expiring g" for h :: KvFragment
    unfolding expired_range_def that ..
  have rest: "expired_range g c = drop (unat limit) E"
  proof (rule bs_eqI)
    show "bs_ok (expired_range g c)" using gok by (rule expired_range_ok)
    have "bs_ok E" using ok by (simp add: E expired_range_ok)
    then show "bs_ok (drop (unat limit) E)" by (simp add: bs_ok_def sorted_wrt_drop)
    have E_split: "set E = set (take (unat limit) E) \<union> set (drop (unat limit) E)"
      by (metis append_take_drop_id set_append)
    have "distinct (map expiry_key E)" using ok by (simp add: E distinct_expiry_keys)
    from set_take_disj_set_drop_if_distinct [OF this order_refl]
    have disj: "expiry_key ` set (take (unat limit) E) \<inter> expiry_key ` set (drop (unat limit) E) = {}"
      by (simp only: take_map drop_map set_map)
    have "x \<in> set (expired_range g c) \<longleftrightarrow> x \<in> set E \<and> expiry_key x \<notin> set D" for x
      using kv_okD(3) [OF ok] kv_okD(3) [OF gok]
      by (cases x) (auto simp: E in_expired_range expiry_set_def gmap split: if_splits)
    moreover have "x \<in> set E \<and> expiry_key x \<notin> set D \<longleftrightarrow> x \<in> set (drop (unat limit) E)" for x
      using E_split disj unfolding D_def set_map by blast
    ultimately show "set (expired_range g c) = set (drop (unat limit) E)" by blast
  qed
  show "kv_ok f'" using gok by (simp add: f' ev Let_def)
  show "snd (evict f cutoff limit) =
      Evicted (of_nat (min (unat limit) (length E))) (unat limit < length E)"
    using er [of "note_reclaimed_at g c"] by (simp add: ev Let_def rest n lenD not_le)
  show "map_of (entries f') j =
      (if j \<in> expiry_key ` set (take (unat limit) E) then None else map_of (entries f) j)"
    using gmap [of j] by (simp add: f' ev Let_def D_def)
  have "time_floor f \<le> c" by (simp add: c at_time_def)
  then show "time_floor f' = (if take (unat limit) E = [] then time_floor f else c)"
    using n0 by (auto simp: f' ev Let_def D_def gfloor max_def)
  show "expired_range f' c = drop (unat limit) E"
    using er [of f'] by (simp add: f' ev Let_def rest)
qed

section \<open>Reads after other commands: eviction is invisible\<close>

fun cmd_key :: "KvCommand \<Rightarrow> string option" where
  "cmd_key (Put key _ _ _ _) = Some key"
| "cmd_key (Delete key _ _) = Some key"
| "cmd_key (TakeOnce key _) = Some key"
| "cmd_key (Evict _ _) = None"

lemma expired_at_mono: "expired_at r m \<Longrightarrow> m \<le> n \<Longrightarrow> expired_at r n"
  by (auto simp: expired_at_def split: option.splits)

lemma get_at_cong:
  "map_of (entries f) k = map_of (entries g) k \<Longrightarrow> at_time f m = at_time g n \<Longrightarrow>
   get_at f k m = get_at g k n"
  by (simp add: get_at_def)

lemma put_frame:
  "k \<noteq> key \<Longrightarrow> map_of (entries (fst (put f key v ex ttl now p i))) k = map_of (entries f) k"
  by (simp add: put_def Let_def reclaim_entries split: sum.splits)

lemma delete_frame:
  "k \<noteq> key \<Longrightarrow> map_of (entries (fst (delete f key ex now p))) k = map_of (entries f) k"
  by (simp add: delete_def Let_def reclaim_entries case_prod_beta split: sum.splits)

lemma take_once_frame:
  "k \<noteq> key \<Longrightarrow> map_of (entries (fst (take_once f key now p))) k = map_of (entries f) k"
  by (simp add: take_once_def Let_def reclaim_entries case_prod_beta split: sum.splits)

lemma put_floor: "time_floor f \<le> time_floor (fst (put f key v ex ttl now p i))"
  using reclaim_floor_ge by (auto simp: put_def Let_def split: sum.splits)

lemma delete_floor: "time_floor f \<le> time_floor (fst (delete f key ex now p))"
  using reclaim_floor_ge by (auto simp: delete_def Let_def case_prod_beta split: sum.splits)

lemma take_once_floor: "time_floor f \<le> time_floor (fst (take_once f key now p))"
  using reclaim_floor_ge by (auto simp: take_once_def Let_def case_prod_beta split: sum.splits)

lemma evict_floor: "kv_ok f \<Longrightarrow> time_floor f \<le> time_floor (fst (evict f cutoff limit))"
  by (simp add: evict_effect(4) [OF _ refl refl refl] at_time_def)

lemma kv_apply_floor: "kv_ok f \<Longrightarrow> time_floor f \<le> time_floor (fst (kv_apply f c p i))"
  by (cases c) (simp_all add: put_floor delete_floor take_once_floor evict_floor)

lemma evict_invisible:
  assumes "kv_ok f"
  shows "get_at (fst (evict f cutoff limit)) k n =
         get_at f k (max n (time_floor (fst (evict f cutoff limit))))"
proof -
  define c where "c = at_time f cutoff"
  define E where "E = expired_range f c"
  define f' where "f' = fst (evict f cutoff limit)"
  note eff = evict_effect [OF assms c_def E_def f'_def]
  have floor: "time_floor f \<le> time_floor f'" using assms by (simp add: f'_def evict_floor)
  show ?thesis
  proof (cases "k \<in> expiry_key ` set (take (unat limit) E)")
    case True
    then obtain x where x: "x \<in> set (take (unat limit) E)" "expiry_key x = k" by auto
    then have "x \<in> set E" by (blast dest: in_set_takeD)
    then obtain r where r: "map_of (entries f) k = Some r" "r_expires_at_ms r = Some (fst x)" "fst x \<le> c"
      using expired_range_record [OF assms, of x c] x(2) by (auto simp: E_def)
    have "time_floor f' = c" using eff(4) x(1) by auto
    then have "expired_at r (at_time f (max n (time_floor f')))"
      using r(2,3) by (auto simp: expired_at_def at_time_def le_max_iff_disj)
    then have "get_at f k (max n (time_floor f')) = None"
      using r(1) by (simp add: get_at_def Let_def)
    moreover have "get_at f' k n = None" using True eff(3) by (simp add: get_at_def Let_def)
    ultimately show ?thesis by (simp add: f'_def)
  next
    case False
    have "at_time f' n = at_time f (max n (time_floor f'))"
      using floor by (simp add: at_time_def max_later)
    with False eff(3) [of k] show ?thesis
      unfolding f'_def [symmetric] by (intro get_at_cong) simp_all
  qed
qed

lemma kv_apply_frame:
  assumes ok: "kv_ok f" and key: "cmd_key c \<noteq> Some k"
  shows "get_at (fst (kv_apply f c p i)) k n =
         get_at f k (max n (time_floor (fst (kv_apply f c p i))))"
proof (cases "\<exists>cutoff limit. c = Evict cutoff limit")
  case True
  then show ?thesis using evict_invisible [OF ok] by auto
next
  case False
  define f' where "f' = fst (kv_apply f c p i)"
  have "map_of (entries f') k = map_of (entries f) k"
    using False key by (cases c) (auto simp: f'_def put_frame delete_frame take_once_frame)
  moreover have "at_time f' n = at_time f (max n (time_floor f'))"
    using kv_apply_floor [OF ok, of c p i] by (simp add: at_time_def f'_def max_later)
  ultimately show ?thesis unfolding f'_def [symmetric] by (rule get_at_cong)
qed

lemma kv_run_floor: "kv_ok f \<Longrightarrow> time_floor f \<le> time_floor (kv_run p f log)"
proof (induction p f log rule: kv_run.induct)
  case (2 p f i c log)
  then show ?case using kv_apply_floor [of f c p i] by (simp add: kv_ok_apply order_trans)
qed simp

lemma kv_run_frame:
  "kv_ok f \<Longrightarrow> \<forall>(i, c) \<in> set log. cmd_key c \<noteq> Some k \<Longrightarrow>
   get_at (kv_run p f log) k n = get_at f k (max n (time_floor (kv_run p f log)))"
proof (induction p f log arbitrary: n rule: kv_run.induct)
  case (1 p f)
  then show ?case by (simp add: get_at_def at_time_def)
next
  case (2 p f i c log)
  define g where "g = fst (kv_apply f c p i)"
  have g: "kv_ok g" using 2(2) by (simp add: g_def kv_ok_apply)
  let ?n = "max n (time_floor (kv_run p g log))"
  have "get_at (kv_run p g log) k n = get_at g k ?n"
    using 2 g by (simp add: g_def)
  also have "\<dots> = get_at f k (max ?n (time_floor g))"
    using kv_apply_frame [OF 2(2), of c k p i ?n] 2(3) by (simp add: g_def)
  also have "max ?n (time_floor g) = ?n"
    using kv_run_floor [OF g, of p log] by (rule max_later)
  finally show ?case by (simp add: g_def)
qed

section \<open>Versions: the fence of a lease\<close>

text \<open>
  One command leaves the record of a key alone, removes it, or replaces it by one stamped with
  the command's own log index.
\<close>

lemma put_record_step:
  assumes "f' = fst (put f k v ex ttl now p i)"
  shows "map_of (entries f') k = map_of (entries f) k \<or> map_of (entries f') k = None \<or>
         (\<exists>r. map_of (entries f') k = Some r \<and> r_version r = i)"
  by (simp add: assms put_def Let_def reclaim_entries live_def split: sum.splits option.splits)

lemma kv_apply_record_step:
  assumes "kv_ok f" and "f' = fst (kv_apply f c p i)"
  shows "map_of (entries f') k = map_of (entries f) k \<or> map_of (entries f') k = None \<or>
         (\<exists>r. map_of (entries f') k = Some r \<and> r_version r = i)"
proof (cases c)
  case (Put key v ex ttl now)
  show ?thesis
  proof (cases "key = k")
    case True
    then show ?thesis using put_record_step [of f' f k v ex ttl now p i] by (simp add: assms(2) Put)
  qed (simp add: assms(2) Put put_frame)
next
  case (Delete key ex now)
  then show ?thesis
    by (auto simp: assms(2) delete_def Let_def case_prod_beta reclaim_entries live_def
        split: sum.splits option.splits)
next
  case (TakeOnce key now)
  then show ?thesis
    by (auto simp: assms(2) take_once_def Let_def case_prod_beta reclaim_entries live_def
        split: sum.splits option.splits)
next
  case (Evict cutoff limit)
  then show ?thesis
    using evict_effect(3) [OF assms(1) refl refl refl, of cutoff "evict_batch p limit" k]
    by (simp add: assms(2))
qed

definition holds_version :: "KvFragment \<Rightarrow> string \<Rightarrow> u64 \<Rightarrow> bool" where
  "holds_version f k ver \<longleftrightarrow> (\<exists>r. map_of (entries f) k = Some r \<and> r_version r = ver)"

lemma kv_run_append: "kv_run p f (a @ b) = kv_run p (kv_run p f a) b"
  by (induction p f a rule: kv_run.induct) simp_all

lemma version_not_reborn:
  "kv_ok f \<Longrightarrow> ver \<notin> fst ` set log \<Longrightarrow> holds_version (kv_run p f log) k ver \<Longrightarrow>
   holds_version f k ver \<and> map_of (entries (kv_run p f log)) k = map_of (entries f) k"
proof (induction p f log rule: kv_run.induct)
  case (2 p f i c log)
  define g where "g = fst (kv_apply f c p i)"
  have g: "kv_ok g" using 2(2) by (simp add: g_def kv_ok_apply)
  have IH: "holds_version g k ver" "map_of (entries (kv_run p g log)) k = map_of (entries g) k"
    using 2 g by (simp_all add: g_def)
  have "ver \<noteq> i" using 2(3) by auto
  with IH(1) kv_apply_record_step [OF 2(2) g_def, of k]
  have "map_of (entries g) k = map_of (entries f) k" by (auto simp: holds_version_def)
  then show ?case using IH by (auto simp: holds_version_def g_def)
qed (simp add: holds_version_def)

lemma put_written:
  assumes "put f key v ex ttl now p i = (f', Written ver ea)"
  shows "ver = i"
    and "check_put p key v ttl (at_time f now) = Inr ea"
    and "expect_holds ex (map_option k_version (get_at f key now))"
    and "map_of (entries f') key = Some \<lparr>r_value = v, r_version = i, r_expires_at_ms = ea\<rparr>"
    and "time_floor f' = time_floor (reclaim_if_expired f key (at_time f now))"
proof -
  have live: "map_option r_version (live f key (at_time f now)) = map_option k_version (get_at f key now)"
    by (simp add: live_def get_at_def Let_def as_ref_def split: option.splits)
  show "ver = i" "check_put p key v ttl (at_time f now) = Inr ea"
    "expect_holds ex (map_option k_version (get_at f key now))"
    "map_of (entries f') key = Some \<lparr>r_value = v, r_version = i, r_expires_at_ms = ea\<rparr>"
    "time_floor f' = time_floor (reclaim_if_expired f key (at_time f now))"
    using assms by (auto simp: put_def Let_def live [symmetric] conflict_def
        split: sum.splits if_splits)
qed

section \<open>Single use\<close>

fun puts_key :: "string \<Rightarrow> KvCommand \<Rightarrow> bool" where
  "puts_key k (Put key _ _ _ _) = (key = k)"
| "puts_key k _ = False"

lemma kv_apply_stays_absent:
  assumes "kv_ok f" "\<not> puts_key k c" "map_of (entries f) k = None"
  shows "map_of (entries (fst (kv_apply f c p i))) k = None"
proof (cases c)
  case (Evict cutoff limit)
  then show ?thesis
    using evict_effect(3) [OF assms(1) refl refl refl, of cutoff "evict_batch p limit" k] assms(3)
    by simp
qed (use assms in \<open>auto simp: put_frame delete_def take_once_def Let_def case_prod_beta
      reclaim_entries live_def split: sum.splits option.splits\<close>)

lemma kv_run_stays_absent:
  "kv_ok f \<Longrightarrow> \<forall>(j, c) \<in> set log. \<not> puts_key k c \<Longrightarrow> map_of (entries f) k = None \<Longrightarrow>
   map_of (entries (kv_run p f log)) k = None"
  by (induction p f log rule: kv_run.induct) (auto simp: kv_apply_stays_absent kv_ok_apply)

lemma take_once_taken:
  assumes "take_once f k now p = (f', Taken r)"
  shows "r = get_at f k now" "map_of (entries f') k = None" "check_key p k = Inr ()"
  using assms
  by (auto simp: take_once_def Let_def case_prod_beta reclaim_entries get_at_def live_def
      split: sum.splits option.splits if_splits)

lemma take_once_absent:
  "check_key p k = Inr () \<Longrightarrow> map_of (entries f) k = None \<Longrightarrow> take_once f k now p = (f, Taken None)"
  by (simp add: take_once_def Let_def live_def reclaim_if_expired_def)

section \<open>The snapshot\<close>

lemma fold_insert_rec_entries:
  "entries (fold (\<lambda>(key, r) f. insert_rec f key r) es f) = fold (\<lambda>(key, r). bm_insert key r) es (entries f)"
  by (induction es arbitrary: f) (auto simp: insert_rec_def)

lemma fold_insert_rec_floor:
  "time_floor (fold (\<lambda>(key, r) f. insert_rec f key r) es f) = time_floor f"
  by (induction es arbitrary: f) auto

lemma fold_insert_rec_ok:
  "kv_ok f \<Longrightarrow> distinct (map fst es) \<Longrightarrow> fst ` set es \<inter> dom (map_of (entries f)) = {} \<Longrightarrow>
   kv_ok (fold (\<lambda>(key, r) f. insert_rec f key r) es f)"
proof (induction es arbitrary: f)
  case (Cons e es)
  obtain key r where e: "e = (key, r)" by (cases e)
  have new: "map_of (entries f) key = None" using Cons.prems(3) e by auto
  have "kv_ok (insert_rec f key r)" using Cons.prems(1) new by (rule kv_ok_insert)
  moreover have "fst ` set es \<inter> dom (map_of (entries (insert_rec f key r))) = {}"
    using Cons.prems(2,3) e by (auto simp: dom_def)
  moreover have "distinct (map fst es)" using Cons.prems(2) by simp
  ultimately have "kv_ok (fold (\<lambda>(key, r) f. insert_rec f key r) es (insert_rec f key r))"
    by (intro Cons.IH)
  then show ?case by (simp add: e)
qed simp

lemma fold_bm_insert_get:
  "distinct (map fst es) \<Longrightarrow>
   map_of (fold (\<lambda>(key, r). bm_insert key r) es m) k =
     (case map_of es k of None \<Rightarrow> map_of m k | Some r \<Rightarrow> Some r)"
proof (induction es arbitrary: m)
  case (Cons e es)
  then show ?case by (cases e) (auto split: option.splits simp: map_of_eq_None_iff image_iff)
qed simp

lemma kv_ok_eqI:
  assumes "kv_ok f" "kv_ok g" "map_of (entries f) = map_of (entries g)" "time_floor f = time_floor g"
  shows "f = g"
proof -
  have e: "entries f = entries g" using assms by (intro bm_eqI) (simp_all add: kv_ok_def)
  have "expiring f = expiring g"
    using assms(1,2) e by (intro bs_eqI) (simp_all add: kv_ok_def)
  with e assms show ?thesis by (simp add: kv_ok_def)
qed

lemma from_wire_into_wire:
  assumes "kv_ok f"
  shows "from_wire (into_wire f) = f"
proof -
  let ?f0 = "\<lparr>entries = [], expiring = [], fbytes = 0, time_floor = time_floor f\<rparr> :: KvFragment"
  have d: "distinct (map fst (entries f))" using assms by (simp add: kv_ok_def bm_ok_distinct)
  have ok: "kv_ok (from_wire (into_wire f))"
    using fold_insert_rec_ok [of ?f0 "entries f"] d
    by (simp add: from_wire_def into_wire_def kv_ok_def total_bytes_def expiry_set_def)
  have "map_of (entries (from_wire (into_wire f))) k = map_of (entries f) k" for k
    using fold_bm_insert_get [OF d, of "[]" k]
    by (simp add: from_wire_def into_wire_def fold_insert_rec_entries split: option.splits)
  then show ?thesis
    using ok assms by (intro kv_ok_eqI) (auto simp: from_wire_def into_wire_def fold_insert_rec_floor)
qed

section \<open>The quotas\<close>

text \<open>
  The exact byte count, as a natural number.  Under a policy whose quotas leave headroom for
  one more entry, the \<open>u64\<close> arithmetic of \<open>put\<close> never wraps and both quotas hold.
\<close>

definition nat_bytes :: "(string, Record) bmap \<Rightarrow> nat" where
  "nat_bytes es = sum_list (map (\<lambda>(key, r). length key + length (r_value r)) es)"

definition sane_policy :: "KvPolicy \<Rightarrow> bool" where
  "sane_policy p \<longleftrightarrow>
     unat (max_bytes p) + unat (max_key_bytes p) + unat (max_value_bytes p) < 2 ^ 64 \<and>
     unat (max_entries p) + 1 < 2 ^ 64"

definition within_quota :: "KvPolicy \<Rightarrow> KvFragment \<Rightarrow> bool" where
  "within_quota p f \<longleftrightarrow>
     length (entries f) \<le> unat (max_entries p) \<and> nat_bytes (entries f) \<le> unat (max_bytes p)"

fun sized_cmd :: "KvCommand \<Rightarrow> bool" where
  "sized_cmd (Put key v _ _ _) = (length key < 2 ^ 64 \<and> length v < 2 ^ 64)"
| "sized_cmd _ = True"

lemma footprint_of_nat: "footprint key r = of_nat (length key + length (r_value r))"
  by (simp add: footprint_def len_u64_def)

lemma total_bytes_of_nat: "total_bytes es = of_nat (nat_bytes es)"
  by (induction es) (auto simp: total_bytes_def nat_bytes_def footprint_of_nat)

lemma nat_bytes_remove:
  "bm_ok es \<Longrightarrow> map_of es key = Some r \<Longrightarrow>
   nat_bytes es = nat_bytes (bm_remove key es) + (length key + length (r_value r)) \<and>
   length es = Suc (length (bm_remove key es))"
proof (induction es)
  case (Cons e es)
  show ?case
  proof (cases "fst e = key")
    case True
    have "bm_remove key es = es"
      using Cons.prems(1) True by (auto simp: bm_remove_def filter_id_conv)
    with True Cons.prems show ?thesis by (cases e) (simp add: bm_remove_def nat_bytes_def)
  next
    case False
    with Cons show ?thesis by (cases e) (auto simp: bm_remove_def nat_bytes_def)
  qed
qed simp

lemma nat_bytes_insert:
  "map_of es key = None \<Longrightarrow>
   nat_bytes (bm_insert key r es) = nat_bytes es + (length key + length (r_value r)) \<and>
   length (bm_insert key r es) = Suc (length es)"
  by (induction key r es rule: bm_insert.induct)
    (auto simp: nat_bytes_def split: if_splits prod.splits)

lemma nat_bytes_remove_le: "nat_bytes (bm_remove key es) \<le> nat_bytes es"
  by (induction es) (auto simp: bm_remove_def nat_bytes_def)

lemma length_bm_remove_le: "length (bm_remove k m) \<le> length m"
  by (simp add: bm_remove_def)

lemma within_quota_take [simp]: "within_quota p f \<Longrightarrow> within_quota p (fst (take_rec f k))"
  using nat_bytes_remove_le [of k "entries f"] length_bm_remove_le [of k "entries f"]
  by (simp add: within_quota_def take_rec_entries_eq)

lemma within_quota_note [simp]: "within_quota p (note_reclaimed_at f n) = within_quota p f"
  by (simp add: within_quota_def)

lemma within_quota_reclaim [simp]: "within_quota p f \<Longrightarrow> within_quota p (reclaim_if_expired f k n)"
  by (auto simp: reclaim_if_expired_def split: option.splits)

lemma within_quota_doomed: "within_quota p f \<Longrightarrow> within_quota p (fst (remove_doomed ks f n))"
  by (induction ks arbitrary: f n) (simp_all add: case_prod_beta)

lemma check_put_sizes:
  assumes "check_put p key v ttl now = Inr ea" "length key < 2 ^ 64" "length v < 2 ^ 64"
  shows "length key \<le> unat (max_key_bytes p)" "length v \<le> unat (max_value_bytes p)"
  using assms unat_len_u64 [of key] unat_len_u64 [of v]
  by (auto simp: check_put_def check_key_def Let_def word_le_nat_alt not_less
      split: sum.splits if_splits option.splits)

lemma remaining_bytes:
  assumes "kv_ok g"
  shows "fbytes g - (case map_of (entries g) key of None \<Rightarrow> 0 | Some r \<Rightarrow> footprint key r) =
         of_nat (nat_bytes (bm_remove key (entries g)))"
proof -
  have "fbytes (fst (take_rec g key)) = total_bytes (bm_remove key (entries g))"
    using kv_okD(4) [OF kv_ok_take [OF assms, of key]] by (simp add: take_rec_entries_eq)
  then show ?thesis by (auto simp: take_rec_def total_bytes_of_nat split: option.splits)
qed

lemma remaining_entries:
  assumes "kv_ok g"
  shows "length (entries g) + (if map_of (entries g) key = None then 1 else 0) =
         Suc (length (bm_remove key (entries g)))"
proof (cases "map_of (entries g) key")
  case None
  then have "bm_remove key (entries g) = entries g"
    by (auto simp: bm_remove_def map_of_eq_None_iff intro!: filter_True)
  with None show ?thesis by simp
next
  case (Some r)
  then show ?thesis using nat_bytes_remove [OF kv_okD(1) [OF assms]] by simp
qed

lemma put_written_checks:
  assumes "put f key v ex ttl now p i = (f', Written ver ea)"
    and g: "g = reclaim_if_expired f key (at_time f now)"
    and r: "r = \<lparr>r_value = v, r_version = i, r_expires_at_ms = ea\<rparr>"
  shows "fbytes g - (case map_of (entries g) key of None \<Rightarrow> 0 | Some r \<Rightarrow> footprint key r)
           + footprint key r \<le> max_bytes p"
    and "len_u64 (entries g) + (if map_of (entries g) key = None then 1 else 0) \<le> max_entries p"
    and "f' = insert_rec (fst (take_rec g key)) key r"
  using assms(1)
  by (auto simp: put_def Let_def g r conflict_def not_less split: sum.splits if_splits)

lemma put_quota:
  assumes ok: "kv_ok f" and q: "within_quota p f" and sane: "sane_policy p"
    and size: "length key < 2 ^ 64" "length v < 2 ^ 64"
  shows "within_quota p (fst (put f key v ex ttl now p i))"
proof (cases "\<exists>ver ea. snd (put f key v ex ttl now p i) = Written ver ea")
  case False
  then show ?thesis using q
    by (auto simp: put_def Let_def split: sum.splits)
next
  case True
  then obtain f' ver ea where put: "put f key v ex ttl now p i = (f', Written ver ea)"
    by (cases "put f key v ex ttl now p i") auto
  note chk = put_written(2) [OF put]
  define g where "g = reclaim_if_expired f key (at_time f now)"
  have g: "kv_ok g" "within_quota p g" using ok q by (simp_all add: g_def)
  define R where "R = bm_remove key (entries g)"
  define r where "r = \<lparr>r_value = v, r_version = i, r_expires_at_ms = ea\<rparr>"
  note put_checks = put_written_checks [OF put g_def r_def]
  have bytes: "of_nat (nat_bytes R) + footprint key r \<le> max_bytes p"
    using put_checks(1) by (simp add: remaining_bytes [OF g(1)] R_def)
  have res: "entries (fst (put f key v ex ttl now p i)) = bm_insert key r R"
    by (simp add: put put_checks(3) insert_rec_def take_rec_entries_eq R_def)
  have R: "map_of R key = None" by (simp add: R_def)
  have Rb: "nat_bytes R \<le> unat (max_bytes p)"
    using g(2) nat_bytes_remove_le [of key "entries g"] by (simp add: R_def within_quota_def)
  let ?b = "nat_bytes R + (length key + length v)"
  have "?b < 2 ^ 64" using Rb check_put_sizes [OF chk size] sane by (simp add: sane_policy_def)
  moreover have "of_nat ?b \<le> max_bytes p" using bytes by (simp add: footprint_of_nat r_def)
  ultimately have B: "?b \<le> unat (max_bytes p)" by (simp only: word_le_nat_alt unat_of_nat_u64)
  let ?n = "Suc (length R)"
  have n: "length (entries g) + (if map_of (entries g) key = None then 1 else 0) = ?n"
    using remaining_entries [OF g(1)] by (simp add: R_def)
  then have "(of_nat ?n :: u64) = len_u64 (entries g) + (if map_of (entries g) key = None then 1 else 0)"
    by (simp add: len_u64_def flip: n)
  moreover have "?n < 2 ^ 64"
    using n g(2) sane by (auto simp: within_quota_def sane_policy_def split: if_splits)
  ultimately have "?n \<le> unat (max_entries p)"
    using put_checks(2) by (metis word_le_nat_alt unat_of_nat_u64)
  with B show ?thesis using nat_bytes_insert [OF R, of r] by (simp add: within_quota_def res r_def)
qed

lemma kv_apply_quota:
  assumes "kv_ok f" "within_quota p f" "sane_policy p" "sized_cmd c"
  shows "within_quota p (fst (kv_apply f c p i))"
  using assms
  by (cases c) (auto simp: put_quota delete_def take_once_def evict_def Let_def case_prod_beta
      within_quota_doomed split: sum.splits)

lemma kv_run_quota:
  "kv_ok f \<Longrightarrow> within_quota p f \<Longrightarrow> sane_policy p \<Longrightarrow> \<forall>(i, c) \<in> set log. sized_cmd c \<Longrightarrow>
   within_quota p (kv_run p f log)"
  by (induction p f log rule: kv_run.induct) (auto simp: kv_apply_quota kv_ok_apply)

end
