(* ===== verification/Kv_Props.thy ===== *)
theory Kv_Props
  imports Kv_Lemmas
begin

text \<open>
  The guarantees of the key/value fragment: its audit always passes, what a sweep removes is
  invisible, compare-and-set on versions, the fence of a lease, exactly-once \<open>TakeOnce\<close>, the
  quotas, and the snapshot round trip.
\<close>

section \<open>Properties\<close>

text \<open>
  C21: after any log of commands whatever, applied from the empty fragment under any policy, the
  audit \<open>check_invariants\<close> succeeds: the byte total is the sum of the footprints and the expiry
  index is exactly the one the records imply.
\<close>

theorem kv_invariants_hold: "check_invariants (kv_run p new_fragment log) = Inr ()"
  by (intro kv_ok_check kv_ok_run kv_ok_new)


definition demo_policy :: KvPolicy where
  "demo_policy = default_policy\<lparr>allow_immortal := True\<rparr>"


text \<open>
  C26: compare-and-set.  A \<open>Put\<close> that passes the policy's stateless checks but whose expectation
  does not hold of the live version changes nothing and answers with the record a reader would
  see.  A \<open>Put\<close> that answers \<open>Written\<close> had its expectation hold of the live version, stamps the
  record with its own log index, and is what every later read at a clock before its expiry
  returns.
\<close>

theorem kv_put_compare_and_set:
  assumes chk: "check_put p key v ttl (at_time f now) = Inr ea"
    and put: "put f key v ex ttl now p i = (f', resp)"
  shows "(\<not> expect_holds ex (map_option k_version (get_at f key now)) \<longrightarrow>
            f' = f \<and> resp = Conflict (get_at f key now)) \<and>
         (\<forall>ver ea'. resp = Written ver ea' \<longrightarrow>
            expect_holds ex (map_option k_version (get_at f key now)) \<and> ver = i \<and> ea' = ea \<and>
            (\<forall>m. (\<forall>t. ea = Some t \<longrightarrow> at_time f' m < t) \<longrightarrow>
               get_at f' key m = Some \<lparr>k_value = v, k_version = i, k_expires_at_ms = ea\<rparr>))"
proof (intro conjI impI allI)
  have live: "map_option r_version (live f key (at_time f now)) = map_option k_version (get_at f key now)"
    "map_option as_ref (live f key (at_time f now)) = get_at f key now"
    by (simp_all add: live_def get_at_def Let_def as_ref_def split: option.splits)
  assume "\<not> expect_holds ex (map_option k_version (get_at f key now))"
  then have "(f', resp) = (f, Conflict (get_at f key now))"
    using chk by (simp add: put [symmetric] put_def Let_def live conflict_def)
  then show "f' = f" "resp = Conflict (get_at f key now)" by simp_all
next
  fix ver ea' assume "resp = Written ver ea'"
  note w = put_written [OF put [unfolded this]]
  show "expect_holds ex (map_option k_version (get_at f key now))" "ver = i" "ea' = ea"
    using w chk by auto
  fix m assume "\<forall>t. ea = Some t \<longrightarrow> at_time f' m < t"
  then show "get_at f' key m = Some \<lparr>k_value = v, k_version = i, k_expires_at_ms = ea\<rparr>"
    using w(4) \<open>ea' = ea\<close>
    by (auto simp: get_at_def Let_def expired_at_def as_ref_def split: option.splits)
qed

theorem kv_put_compare_and_set_witness:
  "get_at (fst (put new_fragment ''a'' [7] Absent None 0 demo_policy 9)) ''a'' 3 =
       Some \<lparr>k_value = [7], k_version = 9, k_expires_at_ms = None\<rparr>"
proof -
  have chk: "check_put demo_policy ''a'' [7] None (at_time new_fragment 0) = Inr None" by code_simp
  have wr: "snd (put new_fragment ''a'' [7] Absent None 0 demo_policy 9) = Written 9 None" by code_simp
  from kv_put_compare_and_set [OF chk prod.collapse [symmetric], of Absent 9] wr show ?thesis by simp
qed

text \<open>
  C4: the lease fence.  If a \<open>Put\<close> at log index \<open>i\<close> was written and, after any later log (whose
  indices differ from \<open>i\<close>, as log indices do), a reader still sees version \<open>i\<close> under that key,
  then the record never changed in between: after every prefix of that log the key held exactly
  the record that was put.  So a holder whose renewal \<open>Expect::Version(i)\<close> succeeds has held the
  lease all along.
\<close>

theorem kv_lease_fence:
  assumes "f = kv_run p new_fragment log0"
    and "put f k v ex ttl now p i = (f1, Written ver ea)"
    and "i \<notin> fst ` set (pre @ suf)"
    and "get_at (kv_run p f1 (pre @ suf)) k n = Some r" and "k_version r = i"
  shows "map_of (entries (kv_run p f1 pre)) k = Some \<lparr>r_value = v, r_version = i, r_expires_at_ms = ea\<rparr>"
    (is "?held = Some ?r")
proof -
  have ok: "kv_ok f1"
    using assms(1,2) kv_ok_put [of f k v ex ttl now p i] by (simp add: kv_ok_run)
  have "holds_version (kv_run p (kv_run p f1 pre) suf) k i"
    using assms(4,5)
    by (auto simp: kv_run_append get_at_def Let_def holds_version_def as_ref_def
        split: option.splits if_splits)
  then have "holds_version (kv_run p f1 pre) k i"
    using version_not_reborn [of "kv_run p f1 pre" i suf] ok assms(3) by (auto simp: kv_ok_run)
  then have "?held = map_of (entries f1) k"
    using version_not_reborn [of f1 i pre] ok assms(3) by auto
  then show ?thesis using put_written(4) [OF assms(2)] by simp
qed

theorem kv_lease_fence_witness:
  "map_of (entries (kv_run demo_policy (fst (put new_fragment ''l'' [1] Absent (Some 50) 10 demo_policy 3))
       [(4, Put ''x'' [] Any None 11)])) ''l'' =
     Some \<lparr>r_value = [1], r_version = 3, r_expires_at_ms = Some 60\<rparr>"
proof -
  let ?put = "put new_fragment ''l'' [1] Absent (Some 50) 10 demo_policy 3"
  have w: "snd ?put = Written 3 (Some 60)" by code_simp
  have seen: "get_at (kv_run demo_policy (fst ?put) ([(4, Put ''x'' [] Any None 11)] @ [(5, Evict 20 9)])) ''l'' 21
      = Some \<lparr>k_value = [1], k_version = 3, k_expires_at_ms = Some 60\<rparr>" by code_simp
  show ?thesis
    by (rule kv_lease_fence [of new_fragment demo_policy "[]" _ _ Absent "Some 50" 10 _ _ 3,
          OF _ _ _ seen])
      (simp_all add: w prod_eq_iff)
qed

text \<open>
  C8: single use.  Once a \<open>TakeOnce\<close> has consumed a record, every later \<open>TakeOnce\<close> of that key
  finds nothing until some command puts the key again, whatever else happens and whatever clock
  the later one carries.
\<close>

theorem kv_take_once_exactly_once:
  assumes "f = kv_run p new_fragment log0"
    and "kv_apply f (TakeOnce k now) p i = (f1, Taken (Some r))"
    and "\<forall>(j, c) \<in> set log. \<not> puts_key k c"
  shows "kv_apply (kv_run p f1 log) (TakeOnce k now') p i' = (kv_run p f1 log, Taken None)"
proof -
  have taken: "take_once f k now p = (f1, Taken (Some r))" using assms(2) by simp
  have "kv_ok f1"
    using assms(1) taken kv_ok_take_once [of f k now p] by (simp add: kv_ok_run)
  then have "map_of (entries (kv_run p f1 log)) k = None"
    using take_once_taken(2) [OF taken] assms(3) by (intro kv_run_stays_absent)
  then show ?thesis using take_once_taken(3) [OF taken] by (simp add: take_once_absent)
qed

theorem kv_take_once_exactly_once_witness:
  "snd (kv_apply (kv_run demo_policy
      (fst (take_once (kv_run demo_policy new_fragment [(1, Put ''o'' [5] Any None 0)]) ''o'' 2 demo_policy))
      [(3, Evict 9 9)]) (TakeOnce ''o'' 1) demo_policy 4) = Taken None"
proof -
  let ?f = "kv_run demo_policy new_fragment [(1, Put ''o'' [5] Any None 0)]"
  have "snd (take_once ?f ''o'' 2 demo_policy) = Taken (Some \<lparr>k_value = [5], k_version = 1, k_expires_at_ms = None\<rparr>)"
    by code_simp
  then have "kv_apply ?f (TakeOnce ''o'' 2) demo_policy 2 = (fst (take_once ?f ''o'' 2 demo_policy),
      Taken (Some \<lparr>k_value = [5], k_version = 1, k_expires_at_ms = None\<rparr>))"
    by (simp add: prod_eq_iff)
  from kv_take_once_exactly_once [OF refl this, of "[(3, Evict 9 9)]" 1 4] show ?thesis by simp
qed

text \<open>
  C12: the quotas hold.  Under a policy whose byte and entry quotas leave room for one more
  maximal entry below \<open>2 ^ 64\<close>, no log of commands from the empty fragment ever leaves more than
  \<open>max_entries\<close> records or more than \<open>max_bytes\<close> bytes, and the \<open>u64\<close> counter is the exact
  number of bytes held (the arithmetic never wraps).
\<close>

theorem kv_quotas_hold:
  assumes "sane_policy p" and "\<forall>(i, c) \<in> set log. sized_cmd c"
    and "f = kv_run p new_fragment log"
  shows "physical_len f \<le> unat (max_entries p) \<and>
         nat_bytes (entries f) \<le> unat (max_bytes p) \<and>
         unat (physical_bytes f) = nat_bytes (entries f)"
proof -
  have "within_quota p new_fragment"
    by (simp add: within_quota_def new_fragment_def nat_bytes_def)
  with assms have q: "within_quota p f" by (simp add: kv_run_quota)
  have "kv_ok f" using assms(3) by (simp add: kv_ok_run)
  then have "fbytes f = of_nat (nat_bytes (entries f))"
    by (simp add: kv_ok_def total_bytes_of_nat)
  moreover have "nat_bytes (entries f) < 2 ^ 64"
    using q unat_u64_less [of "max_bytes p"] by (simp add: within_quota_def)
  ultimately show ?thesis
    using q by (simp add: within_quota_def physical_len_def physical_bytes_def unat_of_nat_u64)
qed

theorem kv_quotas_hold_witness:
  "physical_len (kv_run default_policy new_fragment [(1, Put ''a'' [7] Absent (Some 5) 10)]) \<le> 100000"
proof -
  have sane: "sane_policy default_policy"
    by (simp add: sane_policy_def default_policy_def DEFAULT_MAX_KEY_BYTES_def DEFAULT_MAX_VALUE_BYTES_def)
  have "unat (max_entries default_policy) = 100000" by (simp add: default_policy_def)
  then show ?thesis
    using kv_quotas_hold [OF sane _ refl, of "[(1, Put ''a'' [7] Absent (Some 5) 10)]"] by simp
qed

text \<open>
  C27: the snapshot round trip.  For every reachable fragment, rebuilding from its snapshot form,
  which carries only the records and the time floor, restores the fragment exactly, expiry
  index and byte total included.
\<close>

theorem kv_snapshot_roundtrip:
  "from_wire (into_wire (kv_run p new_fragment log)) = kv_run p new_fragment log"
  by (intro from_wire_into_wire kv_ok_run kv_ok_new)

end
