(* ===== verification/Sweep.thy ===== *)
theory Sweep
  imports Kv_Lemmas
begin

text \<open>
  The leader-side driver of the sweep, \<^verbatim>\<open>fluree-raft-core/src/kv/sweep.rs\<close>.  The trait
  \<open>SweepTarget\<close> is the locale \<open>sweep_target\<close>; the fragment itself, through its \<open>Evict\<close> command,
  is the provider the locale is interpreted on.  A \<open>Duration\<close> is its number of milliseconds.
  The cancellation token is polled once per round, so it is a predicate on the round number.
\<close>

section \<open>The driver\<close>

definition DEFAULT_SWEEP_INTERVAL :: nat where
  "DEFAULT_SWEEP_INTERVAL = 30 * 1000"

definition DEFAULT_MAX_ROUNDS :: u32 where
  "DEFAULT_MAX_ROUNDS = 8"

definition MIN_SWEEP_INTERVAL :: nat where
  "MIN_SWEEP_INTERVAL = 100"

record SweepConfig =
  sw_interval :: nat
  sw_batch :: u32
  sw_max_rounds :: u32

definition default_sweep :: SweepConfig where
  "default_sweep =
     \<lparr>sw_interval = DEFAULT_SWEEP_INTERVAL, sw_batch = DEFAULT_EVICT_LIMIT,
      sw_max_rounds = DEFAULT_MAX_ROUNDS\<rparr>"

definition sanitized :: "SweepConfig \<Rightarrow> SweepConfig" where
  "sanitized config =
     \<lparr>sw_interval = max (sw_interval config) MIN_SWEEP_INTERVAL, sw_batch = sw_batch config,
      sw_max_rounds = max (sw_max_rounds config) 1\<rparr>"

record SweepOutcome =
  so_rounds :: u32
  so_removed :: u64
  so_drained :: bool

definition default_outcome :: SweepOutcome where
  "default_outcome = \<lparr>so_rounds = 0, so_removed = 0, so_drained = False\<rparr>"

lemma word_succ_unat:
  assumes "(a :: 'a::len word) < b"
  shows "unat (a + 1) = Suc (unat a)"
proof -
  have "1 + a \<noteq> 0"
  proof
    assume "1 + a = 0"
    then have "a = - 1" by (simp add: eq_neg_iff_add_eq_0 add.commute)
    with assms show False by (simp add: word_order.extremum_strict)
  qed
  then show ?thesis using unatSuc [of a] by (simp add: add.commute)
qed

text \<open>
  The \<open>while\<close> loop: the same cutoff every round; it stops when the fragment reports nothing
  more, when the token is cancelled, on any other answer and on an error.
\<close>

function sweep_loop ::
  "(u32 \<Rightarrow> bool) \<Rightarrow> ('s \<Rightarrow> u64 \<Rightarrow> u32 \<Rightarrow> ('e + KvResponse) \<times> 's) \<Rightarrow> SweepConfig \<Rightarrow> u64
     \<Rightarrow> SweepOutcome \<Rightarrow> 's \<Rightarrow> SweepOutcome \<times> 's" where
  "sweep_loop cancelled propose config cutoff out s =
     (if so_rounds out < sw_max_rounds config then
        if cancelled (so_rounds out) then (out, s)
        else
          (let (answer, s') = propose s cutoff (sw_batch config) in
           case answer of
             Inr (Evicted removed more_expired) \<Rightarrow>
               (let out' = out\<lparr>so_rounds := so_rounds out + 1,
                               so_removed := so_removed out + ucast removed\<rparr> in
                if \<not> more_expired then (out'\<lparr>so_drained := True\<rparr>, s')
                else sweep_loop cancelled propose config cutoff out' s')
           | Inr other \<Rightarrow> (out, s')
           | Inl err \<Rightarrow> (out, s'))
      else (out, s))"
  by pat_completeness auto

termination
  by (relation "measure (\<lambda>(_, _, config, _, out, _). unat (sw_max_rounds config) - unat (so_rounds out))")
    (auto simp: word_succ_unat word_less_nat_alt)

declare sweep_loop.simps [simp del]

definition sweep_once ::
  "(u32 \<Rightarrow> bool) \<Rightarrow> ('s \<Rightarrow> u64 \<Rightarrow> bool) \<Rightarrow> ('s \<Rightarrow> u64 \<Rightarrow> u32 \<Rightarrow> ('e + KvResponse) \<times> 's)
     \<Rightarrow> SweepConfig \<Rightarrow> u64 \<Rightarrow> 's \<Rightarrow> SweepOutcome \<times> 's" where
  "sweep_once cancelled has_expired propose config cutoff s =
     (let config = sanitized config in
      if \<not> has_expired s cutoff then (default_outcome\<lparr>so_drained := True\<rparr>, s)
      else sweep_loop cancelled propose config cutoff default_outcome s)"

section \<open>What the driver relies on\<close>

text \<open>
  A target with a measurable backlog: one proposal removes \<open>quantum\<close> records of what has
  expired at the cutoff (or all of it) and says truthfully whether anything is left.
\<close>

locale sweep_target =
  fixes has_expired :: "'s \<Rightarrow> u64 \<Rightarrow> bool"
    and propose :: "'s \<Rightarrow> u64 \<Rightarrow> u32 \<Rightarrow> ('e + KvResponse) \<times> 's"
    and backlog :: "'s \<Rightarrow> u64 \<Rightarrow> nat"
    and quantum :: "u32 \<Rightarrow> nat"
    and ok :: "'s \<Rightarrow> bool"
  assumes has: "ok s \<Longrightarrow> has_expired s c \<longleftrightarrow> 0 < backlog s c"
    and answer: "ok s \<Longrightarrow> fst (propose s c l) =
          Inr (Evicted (of_nat (min (quantum l) (backlog s c))) (quantum l < backlog s c))"
    and shrink: "ok s \<Longrightarrow> backlog (snd (propose s c l)) c = backlog s c - quantum l"
    and ok_propose: "ok s \<Longrightarrow> ok (snd (propose s c l))"
    and quantum_pos: "0 < quantum l"
    and quantum_u32: "quantum l < 2 ^ 32"
begin

text \<open>Run to the end: the number of rounds, the records removed, and what is left.\<close>

lemma loop_step:
  assumes "ok s" "so_rounds out < sw_max_rounds config"
    and q: "q = quantum (sw_batch config)" and n: "n = backlog s c"
    and out1: "out1 = out\<lparr>so_rounds := so_rounds out + 1,
                           so_removed := so_removed out + of_nat (min q n)\<rparr>"
    and s1: "s1 = snd (propose s c (sw_batch config))"
  shows "sweep_loop (\<lambda>_. False) propose config c out s =
      (if n \<le> q then (out1\<lparr>so_drained := True\<rparr>, s1)
       else sweep_loop (\<lambda>_. False) propose config c out1 s1)"
proof -
  have "min q n < 2 ^ 32" using quantum_u32 [of "sw_batch config"] q by simp
  then have cast: "ucast (of_nat (min q n) :: u32) = (of_nat (min q n) :: u64)"
    by (simp add: unsigned_of_nat take_bit_nat_eq_self)
  show ?thesis
    by (subst sweep_loop.simps)
      (use assms(2) answer [OF assms(1), of c "sw_batch config"] in
        \<open>simp add: case_prod_beta Let_def out1 s1 q [symmetric] n [symmetric] cast not_le\<close>)
qed

lemma loop_result:
  assumes "ok s" "q = quantum (sw_batch config)" "k = unat (sw_max_rounds config) - unat (so_rounds out)"
    "0 < backlog s c" "\<not> so_drained out" "sweep_loop (\<lambda>_. False) propose config c out s = (out', s')"
  shows "ok s' \<and> backlog s' c = backlog s c - k * q \<and>
    so_removed out' = so_removed out + of_nat (min (k * q) (backlog s c)) \<and>
    so_drained out' = (backlog s c \<le> k * q)"
  using assms
proof (induction k arbitrary: out s)
  case 0
  then have "\<not> so_rounds out < sw_max_rounds config" by (simp add: word_less_nat_alt)
  then show ?case using 0 by (auto simp: sweep_loop.simps [of _ _ config])
next
  case (Suc k)
  define n where "n = backlog s c"
  define out1 where "out1 = out\<lparr>so_rounds := so_rounds out + 1,
      so_removed := so_removed out + of_nat (min q n)\<rparr>"
  define s1 where "s1 = snd (propose s c (sw_batch config))"
  have less: "so_rounds out < sw_max_rounds config" using Suc.prems(3) by (simp add: word_less_nat_alt)
  note step = loop_step [OF Suc.prems(1) less Suc.prems(2) n_def out1_def s1_def]
  have s1: "ok s1" "backlog s1 c = n - q"
    using ok_propose [OF Suc.prems(1)] shrink [OF Suc.prems(1)] Suc.prems(2) by (auto simp: s1_def n_def)
  show ?case
  proof (cases "n \<le> q")
    case True
    then have "out' = out1\<lparr>so_drained := True\<rparr>" "s' = s1" using step Suc.prems(6) by auto
    moreover have "min (Suc k * q) n = n" "min q n = n" using True by auto
    ultimately show ?thesis using s1 True by (simp add: n_def [symmetric] out1_def)
  next
    case False
    have "ok s' \<and> backlog s' c = backlog s1 c - k * q \<and>
        so_removed out' = so_removed out1 + of_nat (min (k * q) (backlog s1 c)) \<and>
        so_drained out' = (backlog s1 c \<le> k * q)"
      using False Suc.prems step s1 less
      by (intro Suc.IH) (auto simp: out1_def word_succ_unat)
    moreover have "min q n + min (k * q) (n - q) = min (Suc k * q) n" using False by auto
    ultimately show ?thesis using False s1
      by (auto simp: n_def [symmetric] out1_def ac_simps simp flip: of_nat_add)
  qed
qed

end

section \<open>The fragment as a sweep target\<close>

text \<open>A proposal of \<open>Evict\<close>, answered by the fragment of the group under its policy.\<close>

definition propose_evict :: "KvPolicy \<Rightarrow> KvFragment \<Rightarrow> u64 \<Rightarrow> u32 \<Rightarrow> (unit + KvResponse) \<times> KvFragment" where
  "propose_evict p f cutoff limit = (let (f', resp) = kv_apply f (Evict cutoff limit) p 0 in (Inr resp, f'))"

definition expired_backlog :: "KvFragment \<Rightarrow> u64 \<Rightarrow> nat" where
  "expired_backlog f cutoff = length (expired_range f (at_time f cutoff))"

lemma evict_batch_pos: "0 < unat (evict_batch p limit)"
proof -
  have "1 \<le> clamp (max_evict_per_apply p) 1 HARD_MAX_EVICT_LIMIT"
    by (simp add: clamp_bounds HARD_MAX_EVICT_LIMIT_def)
  then have "1 \<le> evict_batch p limit" unfolding evict_batch_def by (simp add: clamp_bounds)
  then show ?thesis by (simp add: word_le_nat_alt)
qed

lemma evict_backlog:
  assumes "kv_ok f"
  shows "expired_backlog (fst (evict f c limit)) c = expired_backlog f c - unat limit"
proof -
  define t where "t = at_time f c"
  define f' where "f' = fst (evict f c limit)"
  note eff = evict_effect [OF assms t_def refl f'_def]
  show ?thesis
  proof (cases "take (unat limit) (expired_range f t) = []")
    case True
    then have "time_floor f' = time_floor f" using eff(4) by simp
    then have "at_time f' c = t" by (simp add: at_time_def t_def)
    with eff(5) show ?thesis by (simp add: expired_backlog_def f'_def [symmetric] t_def [symmetric])
  next
    case False
    then have "time_floor f' = t" using eff(4) by simp
    then have "at_time f' c = t" by (simp add: at_time_def t_def)
    with eff(5) show ?thesis by (simp add: expired_backlog_def f'_def [symmetric] t_def [symmetric])
  qed
qed

interpretation kvsweep: sweep_target has_expired_at "propose_evict p" expired_backlog
  "\<lambda>limit. unat (evict_batch p limit)" kv_ok
  for p
proof (unfold_locales, goal_cases)
  case (1 s c)
  then show ?case by (simp add: has_expired_at_def expired_backlog_def)
next
  case (2 s c l)
  then show ?case
    by (simp add: propose_evict_def case_prod_beta evict_effect(2) [OF _ refl refl refl] expired_backlog_def)
next
  case (3 s c l)
  then show ?case by (simp add: propose_evict_def case_prod_beta evict_backlog)
next
  case (4 s c l)
  then show ?case by (simp add: propose_evict_def case_prod_beta kv_ok_evict)
next
  case (5 l)
  show ?case by (rule evict_batch_pos)
next
  case (6 l)
  show ?case by (rule unat_u32_less)
qed

section \<open>Properties\<close>

text \<open>
  C28: the sweep drains.  One tick over any reachable fragment, with no cancellation, removes
  exactly as many expired records as its round budget allows (rounds times the clamped batch,
  or the whole backlog), reports that number, leaves the rest, and says \<open>drained\<close> exactly when
  nothing expired at the cutoff is left.
\<close>

theorem sweep_once_drains:
  assumes "f = kv_run p new_fragment log"
    and "sweep_once (\<lambda>_. False) has_expired_at (propose_evict p) config cutoff f = (out, f')"
    and "budget = unat (sw_max_rounds (sanitized config)) * unat (evict_batch p (sw_batch config))"
  shows "so_removed out = of_nat (min budget (expired_backlog f cutoff)) \<and>
         expired_backlog f' cutoff = expired_backlog f cutoff - budget \<and>
         so_drained out = (expired_backlog f' cutoff = 0)"
proof -
  have ok: "kv_ok f" using assms(1) by (simp add: kv_ok_run)
  show ?thesis
  proof (cases "0 < expired_backlog f cutoff")
    case True
    have "sweep_loop (\<lambda>_. False) (propose_evict p) (sanitized config) cutoff default_outcome f = (out, f')"
      using assms(2) True kvsweep.has [OF ok] by (simp add: sweep_once_def Let_def)
    from kvsweep.loop_result [OF ok refl refl True _ this]
    show ?thesis by (auto simp: assms(3) sanitized_def default_outcome_def)
  next
    case False
    then show ?thesis
      using assms(2) kvsweep.has [OF ok] by (auto simp: sweep_once_def Let_def default_outcome_def)
  qed
qed

theorem sweep_once_drains_witness:
  "so_drained (fst (sweep_once (\<lambda>_. False) has_expired_at (propose_evict default_policy)
     default_sweep 20 (kv_run default_policy new_fragment [(1, Put ''a'' [7] Absent (Some 5) 10)])))"
proof -
  let ?f = "kv_run default_policy new_fragment [(1, Put ''a'' [7] Absent (Some 5) 10)]"
  have n: "expired_backlog ?f 20 = 1" by code_simp
  have b: "1 \<le> unat (sw_max_rounds (sanitized default_sweep)) *
      unat (evict_batch default_policy (sw_batch default_sweep))"
    using evict_batch_pos [of default_policy "sw_batch default_sweep"]
    by (simp add: sanitized_def default_sweep_def DEFAULT_MAX_ROUNDS_def max_def)
  show ?thesis
    using sweep_once_drains [of ?f default_policy, OF refl prod.collapse [symmetric] refl,
        of default_sweep 20] n b by simp
qed

end
