(* ===== verification/Ledger_Id.thy ===== *)
theory Ledger_Id
  imports Prelude
begin

text \<open>
  Ledger identifiers, \<^verbatim>\<open>fluree-db-core/src/ledger_id.rs\<close>: splitting and formatting
  \<open>name:branch\<close>, the default branch, the time-travel suffix and the validation of branch names.
  A Rust string is the list of its UTF-8 bytes; an error carries the message of the source.
\<close>

section \<open>String operations of the standard library\<close>

text \<open>\<open>str::splitn(2, c)\<close>: at most one cut, at the first occurrence.\<close>

fun splitn2 :: "char \<Rightarrow> string \<Rightarrow> string \<times> string option" where
  "splitn2 c [] = ([], None)"
| "splitn2 c (x # xs) =
     (if x = c then ([], Some xs) else (let (a, b) = splitn2 c xs in (x # a, b)))"

text \<open>\<open>str::strip_prefix\<close>.\<close>

fun strip_prefix :: "string \<Rightarrow> string \<Rightarrow> string option" where
  "strip_prefix [] s = Some s"
| "strip_prefix (p # ps) [] = None"
| "strip_prefix (p # ps) (x # xs) = (if p = x then strip_prefix ps xs else None)"

text \<open>\<open>str::contains\<close> of a string.\<close>

fun contains_str :: "string \<Rightarrow> string \<Rightarrow> bool" where
  "contains_str [] p = (p = [])"
| "contains_str (x # xs) p = (strip_prefix p (x # xs) \<noteq> None \<or> contains_str xs p)"

text \<open>
  \<open>str::parse::<i64>\<close>: an optional sign, at least one digit, nothing else, and a value that
  fits 64 bits.
\<close>

definition is_digit :: "char \<Rightarrow> bool" where
  "is_digit c \<longleftrightarrow> 48 \<le> (of_char c :: nat) \<and> (of_char c :: nat) \<le> 57"

fun digits_val :: "string \<Rightarrow> int \<Rightarrow> int option" where
  "digits_val [] acc = Some acc"
| "digits_val (c # cs) acc =
     (if is_digit c then digits_val cs (10 * acc + (of_char c - 48)) else None)"

definition fits_i64 :: "int \<Rightarrow> bool" where
  "fits_i64 n \<longleftrightarrow> - (2 ^ 63) \<le> n \<and> n < 2 ^ 63"

definition parse_i64 :: "string \<Rightarrow> int option" where
  "parse_i64 s =
     (let (neg, ds) = (case s of
            [] \<Rightarrow> (False, [])
          | c # cs \<Rightarrow> if c = CHR ''-'' then (True, cs) else if c = CHR ''+'' then (False, cs)
                      else (False, s)) in
      if ds = [] then None
      else case digits_val ds 0 of
             None \<Rightarrow> None
           | Some n \<Rightarrow> (let v = (if neg then - n else n) in if fits_i64 v then Some v else None))"

text \<open>
  \<open>str::trim().is_empty()\<close>: every scalar of the UTF-8 string has the Unicode property
  \<open>White_Space\<close>.
\<close>

fun all_white :: "nat list \<Rightarrow> bool" where
  "all_white [] = True"
| "all_white (a # bs) =
     (if (9 \<le> a \<and> a \<le> 13) \<or> a = 32 then all_white bs
      else case bs of
             [] \<Rightarrow> False
           | b # cs \<Rightarrow>
               if a = 0xC2 \<and> (b = 0x85 \<or> b = 0xA0) then all_white cs
               else case cs of
                      [] \<Rightarrow> False
                    | c # ds \<Rightarrow>
                        (a = 0xE1 \<and> b = 0x9A \<and> c = 0x80 \<or>
                         a = 0xE2 \<and> b = 0x80 \<and> (0x80 \<le> c \<and> c \<le> 0x8A \<or> c = 0xA8 \<or> c = 0xA9 \<or> c = 0xAF) \<or>
                         a = 0xE2 \<and> b = 0x81 \<and> c = 0x9F \<or>
                         a = 0xE3 \<and> b = 0x80 \<and> c = 0x80) \<and> all_white ds)"

definition trim_is_empty :: "string \<Rightarrow> bool" where
  "trim_is_empty s = all_white (map of_char s)"

section \<open>Splitting and formatting\<close>

type_synonym LedgerIdParseError = string

definition DEFAULT_BRANCH :: string where
  "DEFAULT_BRANCH = ''main''"

definition format_ledger_id :: "string \<Rightarrow> string \<Rightarrow> string" where
  "format_ledger_id name branch = name @ '':'' @ branch"

definition quoted :: "string \<Rightarrow> string" where
  "quoted s = CHR 0x27 # s @ [CHR 0x27]"

definition invalid_format :: "string \<Rightarrow> LedgerIdParseError" where
  "invalid_format s =
     ''Invalid ledger ID format '' @ quoted s @ '': expected '' @ quoted ''name'' @ '' or '' @
     quoted ''name:branch''"

definition split_ledger_id :: "string \<Rightarrow> LedgerIdParseError + (string \<times> string)" where
  "split_ledger_id ledger_id =
     (case splitn2 CHR '':'' ledger_id of
        (name, None) \<Rightarrow>
          if name \<noteq> [] then Inr (name, DEFAULT_BRANCH) else Inl (invalid_format ledger_id)
      | (name, Some branch) \<Rightarrow>
          if name \<noteq> [] \<and> branch \<noteq> [] then
            if CHR '':'' \<in> set branch then Inl (invalid_format ledger_id) else Inr (name, branch)
          else Inl (invalid_format ledger_id))"

definition normalize_ledger_id :: "string \<Rightarrow> LedgerIdParseError + string" where
  "normalize_ledger_id ledger_id =
     (case split_ledger_id ledger_id of
        Inl e \<Rightarrow> Inl e
      | Inr (name, branch) \<Rightarrow> Inr (format_ledger_id name branch))"

section \<open>Time travel\<close>

datatype LedgerIdTimeSpec =
    AtT i64
  | AtIso string
  | AtCommit string
  | AtRecorded string
  | AtSnapshot i64

record ParsedLedgerId =
  p_name :: string
  p_branch :: string
  p_time :: "LedgerIdTimeSpec option"

definition COMMIT_PREFIX_MIN_LEN :: usize where
  "COMMIT_PREFIX_MIN_LEN = 6"

definition missing_value :: "string \<Rightarrow> string \<Rightarrow> LedgerIdParseError" where
  "missing_value sigil tag = ''Missing value after '' @ quoted (sigil @ tag)"

definition parse_time_travel_spec ::
  "string \<Rightarrow> string \<Rightarrow> LedgerIdParseError + LedgerIdTimeSpec" where
  "parse_time_travel_spec spec sigil =
     (case strip_prefix ''t:'' spec of
        Some v \<Rightarrow>
          if v = [] then Inl (missing_value sigil ''t:'')
          else (case parse_i64 v of
                  None \<Rightarrow> Inl (''Invalid integer for '' @ sigil @ ''t: '' @ quoted v)
                | Some t \<Rightarrow> Inr (AtT t))
      | None \<Rightarrow>
     (case List.find (\<lambda>(tag, r). r \<noteq> None) (map (\<lambda>tag. (tag, strip_prefix tag spec)) [''time:'', ''iso:'']) of
        Some (tag, r) \<Rightarrow>
          (let v = the r in if v = [] then Inl (missing_value sigil tag) else Inr (AtIso v))
      | None \<Rightarrow>
     (case strip_prefix ''commit:'' spec of
        Some v \<Rightarrow>
          if v = [] then Inl (missing_value sigil ''commit:'')
          else if length v < COMMIT_PREFIX_MIN_LEN
               then Inl ''Commit prefix must be at least 6 characters''
          else Inr (AtCommit v)
      | None \<Rightarrow>
     (case strip_prefix ''recorded:'' spec of
        Some v \<Rightarrow>
          if v = [] then Inl (missing_value sigil ''recorded:'') else Inr (AtRecorded v)
      | None \<Rightarrow>
     (case strip_prefix ''snapshot:'' spec of
        Some v \<Rightarrow>
          if v = [] then Inl (missing_value sigil ''snapshot:'')
          else (case parse_i64 v of
                  None \<Rightarrow> Inl (''Invalid integer for '' @ sigil @ ''snapshot: '' @ quoted v)
                | Some n \<Rightarrow> Inr (AtSnapshot n))
      | None \<Rightarrow>
          Inl (''Invalid time travel format: '' @ quoted spec @ ''. Expected '' @ sigil @ ''t:, '' @
               sigil @ ''time:, '' @ sigil @ ''recorded:, '' @ sigil @ ''commit:, or '' @ sigil @
               ''snapshot: prefix''))))))"

definition split_time_travel_suffix ::
  "string \<Rightarrow> LedgerIdParseError + (string \<times> LedgerIdTimeSpec option)" where
  "split_time_travel_suffix ledger_id =
     (case splitn2 CHR ''@'' ledger_id of
        (base, Some time_str) \<Rightarrow>
          if base = [] then Inl (''Ledger ID cannot be empty before '' @ quoted ''@'')
          else (case parse_time_travel_spec time_str ''@'' of
                  Inl e \<Rightarrow> Inl e
                | Inr time \<Rightarrow> Inr (base, Some time))
      | (_, None) \<Rightarrow> Inr (ledger_id, None))"

definition parse_ledger_id_with_time :: "string \<Rightarrow> LedgerIdParseError + ParsedLedgerId" where
  "parse_ledger_id_with_time ledger_id =
     (case split_time_travel_suffix ledger_id of
        Inl e \<Rightarrow> Inl e
      | Inr (base, time) \<Rightarrow>
          (case split_ledger_id base of
             Inl e \<Rightarrow> Inl e
           | Inr (name, branch) \<Rightarrow> Inr \<lparr>p_name = name, p_branch = branch, p_time = time\<rparr>))"

section \<open>Branch names\<close>

definition MAX_BRANCH_NAME_LEN :: usize where
  "MAX_BRANCH_NAME_LEN = 128"

definition validate_branch_name :: "string \<Rightarrow> LedgerIdParseError + unit" where
  "validate_branch_name name =
     (if name = [] \<or> trim_is_empty name then Inl ''Branch name cannot be empty''
      else if MAX_BRANCH_NAME_LEN < length name
        then Inl ''Branch name exceeds maximum length of 128 characters''
      else if CHR '':'' \<in> set name then Inl (''Branch name cannot contain '' @ quoted '':'')
      else if CHR ''@'' \<in> set name then Inl (''Branch name cannot contain '' @ quoted ''@'')
      else if CHR 0x00 \<in> set name then Inl ''Branch name cannot contain null bytes''
      else if name = ''..'' \<or> contains_str name ''../'' \<or> contains_str name ''/..''
        then Inl ''Branch name cannot contain path traversal (..)''
      else Inr ())"

section \<open>Lemmas\<close>

lemma splitn2_none: "snd (splitn2 c s) = None \<longleftrightarrow> c \<notin> set s"
  by (induction c s rule: splitn2.induct) (auto simp: case_prod_beta)

lemma splitn2_none_fst: "c \<notin> set s \<Longrightarrow> splitn2 c s = (s, None)"
  by (induction c s rule: splitn2.induct) auto

lemma splitn2_some: "splitn2 c s = (a, Some b) \<longleftrightarrow> s = a @ c # b \<and> c \<notin> set a"
proof (induction c s arbitrary: a rule: splitn2.induct)
  case (2 c x xs)
  show ?case
  proof (cases "x = c")
    case True
    then show ?thesis by (cases a) auto
  next
    case False
    with 2 show ?thesis by (cases a) (auto simp: case_prod_beta prod_eq_iff)
  qed
qed simp

lemma cut_unique:
  "a @ c # x = b @ c # y \<Longrightarrow> c \<notin> set a \<Longrightarrow> c \<notin> set b \<Longrightarrow> a = b \<and> x = y"
proof (induction a arbitrary: b)
  case Nil
  then show ?case by (cases b) auto
next
  case (Cons z a)
  then show ?case by (cases b) auto
qed

text \<open>What can be split: exactly the identifiers with one non-empty name and branch.\<close>

lemma split_ledger_id_Inr:
  "split_ledger_id s = Inr (n, b) \<longleftrightarrow>
     n \<noteq> [] \<and> b \<noteq> [] \<and> CHR '':'' \<notin> set n \<and> CHR '':'' \<notin> set b \<and>
     (s = format_ledger_id n b \<or> s = n \<and> b = DEFAULT_BRANCH)"
proof (cases "splitn2 CHR '':'' s")
  case (Pair a r)
  show ?thesis
  proof (cases r)
    case None
    with Pair have colon: "CHR '':'' \<notin> set s" and a: "a = s"
      using splitn2_none [of "CHR '':''" s] splitn2_none_fst [of "CHR '':''" s] by auto
    then show ?thesis using Pair None
      by (auto simp: split_ledger_id_def format_ledger_id_def DEFAULT_BRANCH_def)
  next
    case (Some c)
    with Pair have s: "s = a @ CHR '':'' # c" "CHR '':'' \<notin> set a" by (simp_all add: splitn2_some)
    have uniq: "n = a \<and> b = c" if "a @ CHR '':'' # c = n @ CHR '':'' # b" "CHR '':'' \<notin> set n"
      using cut_unique [OF that(1) s(2) that(2)] by simp
    show ?thesis using Pair Some s uniq
      by (auto simp: split_ledger_id_def format_ledger_id_def)
  qed
qed

lemma split_format:
  "n \<noteq> [] \<Longrightarrow> b \<noteq> [] \<Longrightarrow> CHR '':'' \<notin> set n \<Longrightarrow> CHR '':'' \<notin> set b \<Longrightarrow>
   split_ledger_id (format_ledger_id n b) = Inr (n, b)"
  by (simp add: split_ledger_id_Inr)

lemma format_inj:
  assumes "format_ledger_id n b = format_ledger_id n' b'" "CHR '':'' \<notin> set n" "CHR '':'' \<notin> set n'"
  shows "n = n' \<and> b = b'"
  using cut_unique [of n "CHR '':''" b n' b'] assms by (simp add: format_ledger_id_def)

section \<open>Properties\<close>

text \<open>
  Normalization is a projection onto canonical identifiers.  Whatever \<open>normalize_ledger_id\<close>
  accepts becomes \<open>name:branch\<close> with the parts \<open>split_ledger_id\<close> gives, which are non-empty and
  free of colons, and normalizing the result again changes nothing.
\<close>

theorem normalize_canonical:
  assumes "normalize_ledger_id s = Inr c"
  shows "normalize_ledger_id c = Inr c \<and>
         (\<exists>n b. split_ledger_id s = Inr (n, b) \<and> split_ledger_id c = Inr (n, b) \<and>
                c = format_ledger_id n b \<and> n \<noteq> [] \<and> b \<noteq> [] \<and>
                CHR '':'' \<notin> set n \<and> CHR '':'' \<notin> set b)"
proof -
  from assms obtain n b where s: "split_ledger_id s = Inr (n, b)" and c: "c = format_ledger_id n b"
    by (auto simp: normalize_ledger_id_def split: sum.splits)
  from s have parts: "n \<noteq> []" "b \<noteq> []" "CHR '':'' \<notin> set n" "CHR '':'' \<notin> set b"
    by (simp_all add: split_ledger_id_Inr)
  then have "split_ledger_id c = Inr (n, b)" by (simp add: c split_format)
  then show ?thesis using s c parts by (simp add: normalize_ledger_id_def)
qed

text \<open>
  C35: a branch name that \<open>validate_branch_name\<close> accepts makes an address that reads back.  For
  any non-empty ledger name free of \<open>:\<close> and \<open>@\<close>, the formatted identifier parses to the same
  name and branch, with no time-travel suffix, and distinct accepted branches give distinct
  identifiers.
\<close>

theorem valid_branch_address_roundtrip:
  assumes "validate_branch_name b = Inr ()" and "n \<noteq> []" "CHR '':'' \<notin> set n" "CHR ''@'' \<notin> set n"
  shows "parse_ledger_id_with_time (format_ledger_id n b) =
           Inr \<lparr>p_name = n, p_branch = b, p_time = None\<rparr> \<and>
         (\<forall>n' b'. CHR '':'' \<notin> set n' \<longrightarrow> format_ledger_id n' b' = format_ledger_id n b \<longrightarrow> n' = n \<and> b' = b)"
proof -
  have b: "b \<noteq> []" "CHR '':'' \<notin> set b" "CHR ''@'' \<notin> set b"
    using assms(1) by (auto simp: validate_branch_name_def split: if_splits)
  then have "CHR ''@'' \<notin> set (format_ledger_id n b)"
    using assms by (simp add: format_ledger_id_def)
  then have "split_time_travel_suffix (format_ledger_id n b) = Inr (format_ledger_id n b, None)"
    by (simp add: split_time_travel_suffix_def splitn2_none_fst)
  moreover have "split_ledger_id (format_ledger_id n b) = Inr (n, b)"
    using assms b by (simp add: split_format)
  ultimately have "parse_ledger_id_with_time (format_ledger_id n b) =
      Inr \<lparr>p_name = n, p_branch = b, p_time = None\<rparr>"
    by (simp add: parse_ledger_id_with_time_def)
  moreover have "n' = n \<and> b' = b"
    if "CHR '':'' \<notin> set n'" "format_ledger_id n' b' = format_ledger_id n b" for n' b'
    using format_inj [OF that(2) that(1) assms(3)] .
  ultimately show ?thesis by blast
qed

theorem valid_branch_address_roundtrip_witness:
  "parse_ledger_id_with_time (format_ledger_id ''mydb'' ''release/v1'') =
     Inr \<lparr>p_name = ''mydb'', p_branch = ''release/v1'', p_time = None\<rparr>"
proof -
  have "validate_branch_name ''release/v1'' = Inr ()" by code_simp
  from valid_branch_address_roundtrip [OF this, of "''mydb''"] show ?thesis by simp
qed

text \<open>A name that contains two dots is accepted as long as no slash is next to them.\<close>

lemma validate_accepts_inner_dots: "validate_branch_name ''a..b'' = Inr ()"
  by code_simp

end
