(* ===== verification/Ns_State.thy ===== *)
theory Ns_State
  imports Ledger_Id Complex_Main
begin

text \<open>
  The data of the replicated nameservice, \<^verbatim>\<open>fluree-db-consensus/src/raft/state_machine.rs\<close>: the
  state, the commands and the responses, with the records of \<^verbatim>\<open>fluree-db-nameservice/src/lib.rs\<close>
  they carry.

  A content id is the bytes of its CID and is only ever compared.  An \<open>f64\<close> that is stored and
  compared is a rational number: every finite float is one, and the values come from JSON, which
  has no others.  \<open>HashMap\<close>, \<open>HashSet\<close> and \<open>BTreeSet\<close> are as in \<open>Prelude\<close>; \<open>Vec\<close> and
  \<open>VecDeque\<close> are lists, with the front of the queue at the head of the list.
\<close>

section \<open>Shared values\<close>

datatype ContentId = ContentId "u8 list"

record PolicyStats =
  ps_executed :: u64
  ps_allowed :: u64

record RecordedReasoningTally =
  rr_capped :: bool
  rr_capped_reason :: "string option"
  rr_derived_facts :: u64
  rr_iterations :: u64
  rr_duration_ms :: u64

record RecordedTally =
  rt_time :: "string option"
  rt_fuel :: "rat option"
  rt_policy :: "(string, PolicyStats) hmap option"
  rt_reasoning :: "RecordedReasoningTally option"

datatype IdempotencyKey = IdempotencyKey string

record IdempotencyCacheKey =
  ck_ledger_id :: string
  ck_key :: IdempotencyKey

datatype BodyKind =
    JsonLdInsert | JsonLdUpsert | JsonLdUpdate | TurtleInsert | TurtleUpsert | TrigUpsert
  | Sparql | Cypher | Pushed | Revert | Merge | Rebase | JsonLdGraphSync | RdfGraphSync | GraphInsert

datatype GraphSourceType =
    Bm25 | VectorIndex | Geo | R2rml | Iceberg | Sql | Delta | UnknownSource string

record GraphSourceRecord =
  gs_graph_source_id :: string
  gs_name :: string
  gs_branch :: string
  gs_source_type :: GraphSourceType
  gs_config :: string
  gs_dependencies :: "string list"
  gs_index_id :: "ContentId option"
  gs_index_t :: i64
  gs_retracted :: bool

definition new_graph_source ::
  "string \<Rightarrow> string \<Rightarrow> GraphSourceType \<Rightarrow> string \<Rightarrow> string list \<Rightarrow> GraphSourceRecord" where
  "new_graph_source name branch source_type config dependencies =
     \<lparr>gs_graph_source_id = format_ledger_id name branch, gs_name = name, gs_branch = branch,
      gs_source_type = source_type, gs_config = config, gs_dependencies = dependencies,
      gs_index_id = None, gs_index_t = 0, gs_retracted = False\<rparr>"

datatype RefKind = CommitHead | IndexHead

record RefValue =
  rv_id :: "ContentId option"
  rv_t :: i64

section \<open>Branches and ledgers\<close>

record RefKey =
  rk_ledger_name :: string
  rk_branch :: string

definition ref_key :: "string \<Rightarrow> string \<Rightarrow> RefKey" where
  "ref_key ledger_name branch = \<lparr>rk_ledger_name = ledger_name, rk_branch = branch\<rparr>"

definition rk_ledger_id :: "RefKey \<Rightarrow> string" where
  "rk_ledger_id k = format_ledger_id (rk_ledger_name k) (rk_branch k)"

record IndexState =
  ix_head :: ContentId
  ix_t :: i64

record RefEntry =
  re_head :: ContentId
  re_t :: i64
  re_last_advanced_at_millis :: u64
  re_last_advanced_index :: u64
  re_index :: "IndexState option"
  re_source_branch :: "string option"
  re_branches :: u32

record LedgerRecord =
  lr_created_at_millis :: u64
  lr_created_index :: u64
  lr_branches :: "string list"

section \<open>The request queue and the idempotency cache\<close>

record ApplyRecord =
  ar_request_cid :: ContentId
  ar_body_cid :: ContentId
  ar_body_kind :: BodyKind
  ar_recorded_at_millis :: u64
  ar_head :: ContentId
  ar_t :: i64
  ar_recorded_index :: u64
  ar_tally :: "RecordedTally option"
  ar_flake_count :: u64

datatype PoisonReason =
    StagingFailed string u32
  | BodyMalformed string
  | PolicyViolation string
  | PoisonLedgerNotFound string
  | PushCasFailed "ContentId option" "ContentId option"
  | WorkerPanic string

record PoisonRecord =
  pr_request_cid :: ContentId
  pr_body_cid :: ContentId
  pr_reason :: PoisonReason
  pr_recorded_index :: u64
  pr_recorded_at_millis :: u64

datatype ApplyOutcome = Applied ApplyRecord | Failed PoisonRecord

fun request_cid :: "ApplyOutcome \<Rightarrow> ContentId" where
  "request_cid (Applied r) = ar_request_cid r"
| "request_cid (Failed r) = pr_request_cid r"

fun body_cid :: "ApplyOutcome \<Rightarrow> ContentId" where
  "body_cid (Applied r) = ar_body_cid r"
| "body_cid (Failed r) = pr_body_cid r"

fun recorded_at_millis :: "ApplyOutcome \<Rightarrow> u64" where
  "recorded_at_millis (Applied r) = ar_recorded_at_millis r"
| "recorded_at_millis (Failed r) = pr_recorded_at_millis r"

fun recorded_index :: "ApplyOutcome \<Rightarrow> u64" where
  "recorded_index (Applied r) = ar_recorded_index r"
| "recorded_index (Failed r) = pr_recorded_index r"

record QueueEntry =
  qe_queue_id :: u64
  qe_enqueued_index :: u64
  qe_enqueued_at_millis :: u64
  qe_idempotency :: "IdempotencyCacheKey option"
  qe_request_cid :: ContentId
  qe_body_cid :: ContentId
  qe_body_kind :: BodyKind

datatype ClearReason = BranchDroppedReason | BranchPurgedReason | BranchHeadResetReason | BranchRetractedReason

record ClearMarker =
  cm_reason :: ClearReason
  cm_applied_at_millis :: u64

record QueueConfig =
  per_branch_cap :: usize
  global_cap :: usize

definition default_queue_config :: QueueConfig where
  "default_queue_config = \<lparr>per_branch_cap = 1024, global_cap = 16384\<rparr>"

section \<open>Status and configuration values\<close>

datatype CanonicalValue =
    CNull
  | CBool bool
  | CInt i64
  | CUInt u64
  | CFloat rat
  | CString string
  | CArray "CanonicalValue list"
  | CObject "(string \<times> CanonicalValue) list"

record StoredStatus =
  ss_v :: i64
  ss_state :: string
  ss_extra :: "(string, CanonicalValue) bmap"

text \<open>\<open>StatusValue::initial\<close> in its stored form: version 1, state \<open>ready\<close>, no metadata.\<close>

definition initial_status :: StoredStatus where
  "initial_status = \<lparr>ss_v = 1, ss_state = ''ready'', ss_extra = []\<rparr>"

record StoredConfigPayload =
  sp_default_context :: "ContentId option"
  sp_config_id :: "ContentId option"
  sp_extra :: "(string, CanonicalValue) bmap"

record StoredConfig =
  sc_v :: i64
  sc_payload :: "StoredConfigPayload option"

definition unborn_config :: StoredConfig where
  "unborn_config = \<lparr>sc_v = 0, sc_payload = None\<rparr>"

section \<open>The state\<close>

record NameServiceState =
  ns_refs :: "(RefKey, RefEntry) hmap"
  ns_ledgers :: "(string, LedgerRecord) hmap"
  ns_retracted :: "RefKey set"
  ns_idempotency :: "(IdempotencyCacheKey, ApplyOutcome) hmap"
  ns_queues :: "(RefKey, QueueEntry list) hmap"
  ns_next_queue_id :: u64
  ns_recently_cleared :: "(RefKey, ClearMarker) hmap"
  ns_evicted_idempotency_count :: u64
  ns_queue_config :: QueueConfig
  ns_status :: "(string, StoredStatus) hmap"
  ns_config :: "(string, StoredConfig) hmap"
  ns_graph_sources :: "(string, GraphSourceRecord) hmap"
  ns_worker_eligible_voters :: "NodeId list"
  ns_configured_voters :: "NodeId list"

definition new_state :: NameServiceState where
  "new_state =
     \<lparr>ns_refs = [], ns_ledgers = [], ns_retracted = {}, ns_idempotency = [], ns_queues = [],
      ns_next_queue_id = 0, ns_recently_cleared = [], ns_evicted_idempotency_count = 0,
      ns_queue_config = default_queue_config, ns_status = [], ns_config = [],
      ns_graph_sources = [], ns_worker_eligible_voters = [], ns_configured_voters = []\<rparr>"

section \<open>Commands\<close>

record ConfigUpdate =
  cu_ledger_id :: string
  cu_expected :: "StoredConfig option"
  cu_new :: StoredConfig

record QueueSubmission =
  qs_ledger_id :: string
  qs_branch :: string
  qs_idempotency :: "IdempotencyCacheKey option"
  qs_request_cid :: ContentId
  qs_body_cid :: ContentId
  qs_body_kind :: BodyKind
  qs_applied_at_millis :: u64

record StagedHead =
  sh_ledger_id :: string
  sh_branch :: string
  sh_queue_id :: u64
  sh_commit_id :: ContentId
  sh_commit_t :: i64
  sh_applied_at_millis :: u64
  sh_tally :: "RecordedTally option"
  sh_flake_count :: u64

record EntryPoisoning =
  ep_ledger_id :: string
  ep_branch :: string
  ep_queue_id :: u64
  ep_reason :: PoisonReason
  ep_applied_at_millis :: u64

record WorkerEligibility =
  we_voter :: NodeId
  we_eligible :: bool
  we_applied_at_millis :: u64

record NewIndexHead =
  ni_ledger_id :: string
  ni_branch :: string
  ni_new_index_head :: ContentId
  ni_t :: i64
  ni_applied_at_millis :: u64

record RefCas =
  rc_ledger_id :: string
  rc_branch :: string
  rc_kind :: RefKind
  rc_expected :: "RefValue option"
  rc_new :: RefValue
  rc_applied_at_millis :: u64

record NewLedger =
  nl_ledger_id :: string
  nl_branch :: string
  nl_created_at_millis :: u64

record NewBranch =
  nb_ledger_id :: string
  nb_branch :: string
  nb_source_branch :: string
  nb_at_commit :: "(ContentId \<times> i64) option"
  nb_applied_at_millis :: u64

record ResetHeadSnapshot =
  rs_commit_head_id :: "ContentId option"
  rs_commit_t :: i64
  rs_index_head_id :: "ContentId option"
  rs_index_t :: i64

datatype (plugins only: code size) Command =
    AdvanceIndexHead NewIndexHead
  | RewriteIndexHead NewIndexHead
  | CreateLedger NewLedger
  | CreateBranch NewBranch
  | DropBranch string string u64
  | ResetHead string string ResetHeadSnapshot u64
  | RetractLedger string string u64
  | PurgeBranch string string u64
  | ReleaseContent ContentId
  | CompareAndSetRef RefCas
  | PushStatus string "StoredStatus option" StoredStatus
  | PushConfig ConfigUpdate
  | PublishGraphSource string string GraphSourceType string "string list"
  | PublishGraphSourceIndex string string ContentId i64
  | RetractGraphSource string string
  | EnqueueCommand QueueSubmission
  | ApplyHead StagedHead
  | PoisonQueueEntry EntryPoisoning
  | EvictIdempotency u64 u64
  | SetWorkerEligibility WorkerEligibility

section \<open>Responses\<close>

datatype QueueFullScope = PerBranch | Global

datatype EligibilityRefusal = VoterNotConfigured

datatype DesyncReason =
    WrongFront u64
  | QueueCleared ClearReason
  | HeadNotMonotonic i64 i64
  | InvariantViolated string

type_synonym envelopes = "(string \<times> ContentId) list"

datatype (plugins only: code size) Response =
    IndexAdvanced i64 ContentId
  | IndexStale i64
  | IndexAhead i64 i64
  | RefCasUpdated
  | RefCasConflict "RefValue option"
  | StatusUpdated
  | StatusConflict "StoredStatus option"
  | ConfigUpdated
  | ConfigConflict "StoredConfig option"
  | GraphSourcePublished
  | GraphSourceIndexAdvanced i64
  | GraphSourceIndexStale i64
  | GraphSourceNotFound string
  | GraphSourceRetracted string
  | GraphSourceAlreadyRetracted string
  | Created string
  | AlreadyExists string
  | BranchCreated string ContentId i64
  | SourceBranchNotFound string
  | BranchDropped string "u32 option" envelopes
  | BranchHasChildren string u32
  | HeadReset string envelopes
  | Retracted string envelopes
  | AlreadyRetracted string
  | LedgerRetracted string
  | Purged string envelopes
  | AlreadyPurged string
  | LedgerNotFound string
  | BodyHashMismatch
  | Enqueued string u64
  | IdempotencyHit ApplyRecord
  | IdempotencyFailed PoisonRecord
  | InFlight string u64
  | QueueFull string usize usize QueueFullScope
  | HeadApplied string ContentId i64 "ContentId option"
  | QueueDesync string u64 DesyncReason
  | Poisoned string u64 PoisonReason "ContentId option"
  | EvictionApplied usize envelopes
  | WorkerEligibilitySet NodeId bool bool
  | WorkerEligibilityRefused NodeId bool EligibilityRefusal
  | NoOp

end
