(* ===== verification/Ns_Apply.thy ===== *)
theory Ns_Apply
  imports Ns_State
begin

text \<open>
  The handlers of the replicated nameservice and their dispatcher \<open>apply\<close>, from
  \<^verbatim>\<open>fluree-db-consensus/src/raft/state_machine.rs\<close>.  Each takes the state, the log index where the
  source does, and the command's payload, and returns the new state and the response.
\<close>

section \<open>Lookups\<close>

text \<open>The check \<open>ledgers.get(&name).is_some_and(|l| l.branches.contains(&branch))\<close>.\<close>

definition branch_known :: "(string, LedgerRecord) hmap \<Rightarrow> string \<Rightarrow> string \<Rightarrow> bool" where
  "branch_known ledgers name branch =
     (case hm_get ledgers name of None \<Rightarrow> False | Some l \<Rightarrow> branch \<in> set (lr_branches l))"

section \<open>Worker eligibility\<close>

definition apply_set_worker_eligibility ::
  "NameServiceState \<Rightarrow> WorkerEligibility \<Rightarrow> NameServiceState \<times> Response" where
  "apply_set_worker_eligibility s args =
     (let voter = we_voter args; eligible = we_eligible args in
      if voter \<notin> set (ns_configured_voters s)
      then (s, WorkerEligibilityRefused voter eligible VoterNotConfigured)
      else if eligible
      then (s\<lparr>ns_worker_eligible_voters := bs_insert voter (ns_worker_eligible_voters s)\<rparr>,
            WorkerEligibilitySet voter eligible (voter \<notin> set (ns_worker_eligible_voters s)))
      else (s\<lparr>ns_worker_eligible_voters := bs_remove voter (ns_worker_eligible_voters s)\<rparr>,
            WorkerEligibilitySet voter eligible (voter \<in> set (ns_worker_eligible_voters s))))"

section \<open>Ledger and branch lifecycle\<close>

definition create_ledger ::
  "NameServiceState \<Rightarrow> u64 \<Rightarrow> NewLedger \<Rightarrow> NameServiceState \<times> Response" where
  "create_ledger s log_index args =
     (let ledger_id = nl_ledger_id args; branch = nl_branch args;
          ledger = (case hm_get (ns_ledgers s) ledger_id of
                      Some l \<Rightarrow> l
                    | None \<Rightarrow> \<lparr>lr_created_at_millis = nl_created_at_millis args,
                               lr_created_index = log_index, lr_branches = []\<rparr>);
          s = s\<lparr>ns_ledgers := hm_insert ledger_id ledger (ns_ledgers s)\<rparr> in
      if branch \<in> set (lr_branches ledger)
      then (s, AlreadyExists (format_ledger_id ledger_id branch))
      else (s\<lparr>ns_ledgers := hm_insert ledger_id (ledger\<lparr>lr_branches := lr_branches ledger @ [branch]\<rparr>)
                              (ns_ledgers s)\<rparr>,
            Created (format_ledger_id ledger_id branch)))"

text \<open>
  Clear a branch's queue for a head-mutating admin command.  The marker is stamped only when
  the queue held entries; the drained envelopes are returned for release.
\<close>

definition clear_queue_for_admin ::
  "NameServiceState \<Rightarrow> RefKey \<Rightarrow> ClearReason \<Rightarrow> u64 \<Rightarrow> NameServiceState \<times> envelopes" where
  "clear_queue_for_admin s key reason applied_at_millis =
     (case hm_get (ns_queues s) key of
        None \<Rightarrow> (s, [])
      | Some queue \<Rightarrow>
          (let s = s\<lparr>ns_queues := hm_remove key (ns_queues s)\<rparr> in
           if queue = [] then (s, [])
           else (s\<lparr>ns_recently_cleared :=
                     hm_insert key \<lparr>cm_reason = reason, cm_applied_at_millis = applied_at_millis\<rparr>
                       (ns_recently_cleared s)\<rparr>,
                 map (\<lambda>e. (rk_ledger_id key, qe_request_cid e)) queue)))"

definition retract_ledger ::
  "NameServiceState \<Rightarrow> string \<Rightarrow> string \<Rightarrow> u64 \<Rightarrow> NameServiceState \<times> Response" where
  "retract_ledger s ledger_id branch applied_at_millis =
     (let key = ref_key ledger_id branch; full = format_ledger_id ledger_id branch in
      if \<not> branch_known (ns_ledgers s) ledger_id branch then (s, AlreadyRetracted full)
      else if key \<notin> ns_retracted s then
        (let s = s\<lparr>ns_retracted := insert key (ns_retracted s)\<rparr>;
             (s, released) = clear_queue_for_admin s key BranchRetractedReason applied_at_millis in
         (s, Retracted full released))
      else (s, AlreadyRetracted full))"

text \<open>Saturating decrement of a parent's child counter, and the count afterwards.\<close>

definition decrement_child_count ::
  "NameServiceState \<Rightarrow> string \<Rightarrow> string \<Rightarrow> NameServiceState \<times> u32" where
  "decrement_child_count s ledger_id parent_branch =
     (case hm_get (ns_refs s) (ref_key ledger_id parent_branch) of
        Some parent \<Rightarrow>
          (let n = saturating_sub (re_branches parent) 1 in
           (s\<lparr>ns_refs := hm_insert (ref_key ledger_id parent_branch) (parent\<lparr>re_branches := n\<rparr>) (ns_refs s)\<rparr>, n))
      | None \<Rightarrow> (s, 0))"

text \<open>
  \<open>branches.retain(|b| b != &branch)\<close> on a ledger, dropping the record when the list empties;
  also whether the branch was there.
\<close>

definition unregister_branch ::
  "NameServiceState \<Rightarrow> string \<Rightarrow> string \<Rightarrow> NameServiceState \<times> bool" where
  "unregister_branch s ledger_id branch =
     (case hm_get (ns_ledgers s) ledger_id of
        None \<Rightarrow> (s, False)
      | Some ledger \<Rightarrow>
          (let bs = filter (\<lambda>b. b \<noteq> branch) (lr_branches ledger) in
           (s\<lparr>ns_ledgers := (if bs = [] then hm_remove ledger_id (ns_ledgers s)
                             else hm_insert ledger_id (ledger\<lparr>lr_branches := bs\<rparr>) (ns_ledgers s))\<rparr>,
            length bs < length (lr_branches ledger))))"

definition purge_branch ::
  "NameServiceState \<Rightarrow> string \<Rightarrow> string \<Rightarrow> u64 \<Rightarrow> NameServiceState \<times> Response" where
  "purge_branch s ledger_id branch applied_at_millis =
     (let key = ref_key ledger_id branch; full = format_ledger_id ledger_id branch;
          removed_entry = hm_get (ns_refs s) key in
      if (case removed_entry of Some e \<Rightarrow> 0 < re_branches e | None \<Rightarrow> False)
      then (s, BranchHasChildren full (re_branches (the removed_entry)))
      else
        (let removed_retraction = (key \<in> ns_retracted s);
             s = s\<lparr>ns_refs := hm_remove key (ns_refs s), ns_retracted := ns_retracted s - {key}\<rparr>;
             (s, removed_branch) = unregister_branch s ledger_id branch;
             s = (case Option.bind removed_entry re_source_branch of
                    Some parent \<Rightarrow> fst (decrement_child_count s ledger_id parent)
                  | None \<Rightarrow> s);
             (s, released) = clear_queue_for_admin s key BranchPurgedReason applied_at_millis in
         if removed_entry \<noteq> None \<or> removed_retraction \<or> removed_branch
         then (s, Purged full released)
         else (s, AlreadyPurged full)))"

definition create_branch ::
  "NameServiceState \<Rightarrow> u64 \<Rightarrow> NewBranch \<Rightarrow> NameServiceState \<times> Response" where
  "create_branch s log_index args =
     (let ledger_id = nb_ledger_id args; branch = nb_branch args; source_branch = nb_source_branch args;
          full = format_ledger_id ledger_id branch in
      case hm_get (ns_ledgers s) ledger_id of
        None \<Rightarrow> (s, LedgerNotFound ledger_id)
      | Some ledger \<Rightarrow>
          if branch \<in> set (lr_branches ledger) then (s, AlreadyExists full)
          else
            (let source_key = ref_key ledger_id source_branch in
             case hm_get (ns_refs s) source_key of
               None \<Rightarrow> (s, SourceBranchNotFound (format_ledger_id ledger_id source_branch))
             | Some src \<Rightarrow>
                 (let (head, t) = (case nb_at_commit args of
                                     Some ht \<Rightarrow> ht | None \<Rightarrow> (re_head src, re_t src));
                      ledgers = hm_insert ledger_id
                                  (ledger\<lparr>lr_branches := lr_branches ledger @ [branch]\<rparr>) (ns_ledgers s);
                      refs = hm_insert source_key
                               (src\<lparr>re_branches := saturating_add (re_branches src) 1\<rparr>) (ns_refs s);
                      refs = hm_insert (ref_key ledger_id branch)
                               \<lparr>re_head = head, re_t = t,
                                re_last_advanced_at_millis = nb_applied_at_millis args,
                                re_last_advanced_index = log_index, re_index = None,
                                re_source_branch = Some source_branch, re_branches = 0\<rparr> refs in
                  (s\<lparr>ns_ledgers := ledgers, ns_refs := refs\<rparr>, BranchCreated full head t))))"

definition drop_branch ::
  "NameServiceState \<Rightarrow> string \<Rightarrow> string \<Rightarrow> u64 \<Rightarrow> NameServiceState \<times> Response" where
  "drop_branch s ledger_id branch applied_at_millis =
     (let key = ref_key ledger_id branch; full = format_ledger_id ledger_id branch;
          entry = hm_get (ns_refs s) key in
      if \<not> branch_known (ns_ledgers s) ledger_id branch then (s, LedgerNotFound full)
      else if (case entry of Some e \<Rightarrow> 0 < re_branches e | None \<Rightarrow> False)
      then (s, BranchHasChildren full (re_branches (the entry)))
      else
        (let s = s\<lparr>ns_refs := hm_remove key (ns_refs s), ns_retracted := ns_retracted s - {key}\<rparr>;
             s = fst (unregister_branch s ledger_id branch);
             (s, parent_branches) =
               (case Option.bind entry re_source_branch of
                  Some parent \<Rightarrow> (let (s', n) = decrement_child_count s ledger_id parent in (s', Some n))
                | None \<Rightarrow> (s, None));
             (s, released) = clear_queue_for_admin s key BranchDroppedReason applied_at_millis in
         (s, BranchDropped full parent_branches released)))"

definition reset_head ::
  "NameServiceState \<Rightarrow> string \<Rightarrow> string \<Rightarrow> ResetHeadSnapshot \<Rightarrow> u64 \<Rightarrow> NameServiceState \<times> Response" where
  "reset_head s ledger_id branch snapshot applied_at_millis =
     (let key = ref_key ledger_id branch; full = format_ledger_id ledger_id branch in
      if \<not> branch_known (ns_ledgers s) ledger_id branch then (s, LedgerNotFound full)
      else if key \<in> ns_retracted s then (s, LedgerRetracted full)
      else
        (let refs =
               (case rs_commit_head_id snapshot of
                  None \<Rightarrow> hm_remove key (ns_refs s)
                | Some head \<Rightarrow>
                    (let (prior_source, prior_branches) =
                           (case hm_get (ns_refs s) key of
                              Some r \<Rightarrow> (re_source_branch r, re_branches r) | None \<Rightarrow> (None, 0)) in
                     hm_insert key
                       \<lparr>re_head = head, re_t = rs_commit_t snapshot,
                        re_last_advanced_at_millis = 0, re_last_advanced_index = 0,
                        re_index = map_option (\<lambda>h. \<lparr>ix_head = h, ix_t = rs_index_t snapshot\<rparr>)
                                     (rs_index_head_id snapshot),
                        re_source_branch = prior_source, re_branches = prior_branches\<rparr> (ns_refs s)));
             (s, released) = clear_queue_for_admin (s\<lparr>ns_refs := refs\<rparr>) key BranchHeadResetReason applied_at_millis in
         (s, HeadReset full released)))"

section \<open>Index heads and compare-and-set\<close>

definition set_index_head ::
  "NameServiceState \<Rightarrow> NewIndexHead \<Rightarrow> (i64 \<Rightarrow> i64 \<Rightarrow> bool) \<Rightarrow> NameServiceState \<times> Response" where
  "set_index_head s args is_stale =
     (let ledger_id = ni_ledger_id args; branch = ni_branch args; t = ni_t args in
      if hm_get (ns_ledgers s) ledger_id = None then (s, LedgerNotFound ledger_id)
      else
        (let key = ref_key ledger_id branch in
         if key \<in> ns_retracted s then (s, LedgerRetracted (format_ledger_id ledger_id branch))
         else
           (case hm_get (ns_refs s) key of
              None \<Rightarrow> (s, LedgerNotFound ledger_id)
            | Some entry \<Rightarrow>
                if (case re_index entry of Some existing \<Rightarrow> is_stale (ix_t existing) t | None \<Rightarrow> False)
                then (s, IndexStale (ix_t (the (re_index entry))))
                else if re_t entry < t then (s, IndexAhead (re_t entry) t)
                else (s\<lparr>ns_refs := hm_insert key
                          (entry\<lparr>re_index := Some \<lparr>ix_head = ni_new_index_head args, ix_t = t\<rparr>,
                                 re_last_advanced_at_millis := ni_applied_at_millis args\<rparr>) (ns_refs s)\<rparr>,
                      IndexAdvanced t (ni_new_index_head args)))))"

definition advance_index_head ::
  "NameServiceState \<Rightarrow> NewIndexHead \<Rightarrow> NameServiceState \<times> Response" where
  "advance_index_head s args = set_index_head s args (\<lambda>existing_t new_t. new_t \<le> existing_t)"

definition rewrite_index_head ::
  "NameServiceState \<Rightarrow> NewIndexHead \<Rightarrow> NameServiceState \<times> Response" where
  "rewrite_index_head s args = set_index_head s args (\<lambda>existing_t new_t. new_t < existing_t)"

definition current_ref_value :: "NameServiceState \<Rightarrow> RefKey \<Rightarrow> RefKind \<Rightarrow> RefValue option" where
  "current_ref_value s key kind =
     (if \<not> branch_known (ns_ledgers s) (rk_ledger_name key) (rk_branch key) then None
      else
        (let entry = hm_get (ns_refs s) key in
         Some (case kind of
                 CommitHead \<Rightarrow>
                   \<lparr>rv_id = map_option re_head entry,
                    rv_t = (case entry of Some e \<Rightarrow> re_t e | None \<Rightarrow> 0)\<rparr>
               | IndexHead \<Rightarrow>
                   (let index = Option.bind entry re_index in
                    \<lparr>rv_id = map_option ix_head index,
                     rv_t = (case index of Some i \<Rightarrow> ix_t i | None \<Rightarrow> 0)\<rparr>))))"

definition apply_compare_and_set_ref ::
  "NameServiceState \<Rightarrow> u64 \<Rightarrow> RefCas \<Rightarrow> NameServiceState \<times> Response" where
  "apply_compare_and_set_ref s log_index args =
     (let key = ref_key (rc_ledger_id args) (rc_branch args);
          full = format_ledger_id (rc_ledger_id args) (rc_branch args); new = rc_new args in
      case current_ref_value s key (rc_kind args) of
        None \<Rightarrow> (s, LedgerNotFound full)
      | Some current \<Rightarrow>
          if key \<in> ns_retracted s then (s, LedgerRetracted full)
          else if \<not> (case rc_expected args of None \<Rightarrow> rv_id current = None | Some rv \<Rightarrow> current = rv)
          then (s, RefCasConflict (Some current))
          else if \<not> (case rc_kind args of CommitHead \<Rightarrow> rv_t current < rv_t new
                                          | IndexHead \<Rightarrow> rv_t current \<le> rv_t new)
          then (s, RefCasConflict (Some current))
          else
            (case rc_kind args of
               CommitHead \<Rightarrow>
                 (case rv_id new of
                    None \<Rightarrow> (s, RefCasConflict (Some current))
                  | Some head \<Rightarrow>
                      (let (prior_index, prior_source, prior_branches) =
                             (case hm_get (ns_refs s) key of
                                Some r \<Rightarrow> (re_index r, re_source_branch r, re_branches r)
                              | None \<Rightarrow> (None, None, 0)) in
                       (s\<lparr>ns_refs := hm_insert key
                            \<lparr>re_head = head, re_t = rv_t new,
                             re_last_advanced_at_millis = rc_applied_at_millis args,
                             re_last_advanced_index = log_index, re_index = prior_index,
                             re_source_branch = prior_source, re_branches = prior_branches\<rparr> (ns_refs s)\<rparr>,
                        RefCasUpdated)))
             | IndexHead \<Rightarrow>
                 (case hm_get (ns_refs s) key of
                    None \<Rightarrow> (s, IndexAhead 0 (rv_t new))
                  | Some entry \<Rightarrow>
                      if re_t entry < rv_t new then (s, IndexAhead (re_t entry) (rv_t new))
                      else (s\<lparr>ns_refs := hm_insert key
                                (entry\<lparr>re_index := map_option (\<lambda>h. \<lparr>ix_head = h, ix_t = rv_t new\<rparr>) (rv_id new),
                                       re_last_advanced_at_millis := rc_applied_at_millis args\<rparr>) (ns_refs s)\<rparr>,
                            RefCasUpdated))))"

section \<open>Versioned values: status and configuration\<close>

text \<open>
  The body shared by \<open>PushStatus\<close> and \<open>PushConfig\<close>; the operations of the trait
  \<open>VersionedValue\<close> (\<open>absent\<close>, \<open>v\<close>, \<open>conflict\<close>, \<open>updated\<close>) are its parameters.
\<close>

definition apply_versioned_push ::
  "'a \<Rightarrow> ('a \<Rightarrow> i64) \<Rightarrow> ('a option \<Rightarrow> Response) \<Rightarrow> Response \<Rightarrow> (string, LedgerRecord) hmap
     \<Rightarrow> (string, 'a) hmap \<Rightarrow> string \<Rightarrow> 'a option \<Rightarrow> 'a \<Rightarrow> (string, 'a) hmap \<times> Response" where
  "apply_versioned_push absent v conflict updated ledgers vals ledger_id expected new =
     (case split_ledger_id ledger_id of
        Inl _ \<Rightarrow> (vals, conflict None)
      | Inr (name, branch) \<Rightarrow>
          if \<not> branch_known ledgers name branch then (vals, conflict None)
          else
            (let current = (case hm_get vals ledger_id of Some x \<Rightarrow> x | None \<Rightarrow> absent) in
             if expected \<noteq> Some current then (vals, conflict (Some current))
             else if v new \<le> v current then (vals, conflict (Some current))
             else (hm_insert ledger_id new vals, updated)))"

definition push_status ::
  "NameServiceState \<Rightarrow> string \<Rightarrow> StoredStatus option \<Rightarrow> StoredStatus \<Rightarrow> NameServiceState \<times> Response" where
  "push_status s ledger_id expected new =
     (let (vals, resp) = apply_versioned_push initial_status ss_v StatusConflict StatusUpdated
                           (ns_ledgers s) (ns_status s) ledger_id expected new in
      (s\<lparr>ns_status := vals\<rparr>, resp))"

definition push_config :: "NameServiceState \<Rightarrow> ConfigUpdate \<Rightarrow> NameServiceState \<times> Response" where
  "push_config s args =
     (let (vals, resp) = apply_versioned_push unborn_config sc_v ConfigConflict ConfigUpdated
                           (ns_ledgers s) (ns_config s) (cu_ledger_id args) (cu_expected args) (cu_new args) in
      (s\<lparr>ns_config := vals\<rparr>, resp))"

section \<open>Graph sources\<close>

definition apply_publish_graph_source ::
  "NameServiceState \<Rightarrow> string \<Rightarrow> string \<Rightarrow> GraphSourceType \<Rightarrow> string \<Rightarrow> string list
     \<Rightarrow> NameServiceState \<times> Response" where
  "apply_publish_graph_source s name branch source_type config dependencies =
     (let gid = format_ledger_id name branch;
          r' = (case hm_get (ns_graph_sources s) gid of
                  Some r \<Rightarrow> r\<lparr>gs_source_type := source_type, gs_config := config,
                              gs_dependencies := dependencies, gs_retracted := False\<rparr>
                | None \<Rightarrow> new_graph_source name branch source_type config dependencies) in
      (s\<lparr>ns_graph_sources := hm_insert gid r' (ns_graph_sources s)\<rparr>, GraphSourcePublished))"

definition apply_publish_graph_source_index ::
  "NameServiceState \<Rightarrow> string \<Rightarrow> string \<Rightarrow> ContentId \<Rightarrow> i64 \<Rightarrow> NameServiceState \<times> Response" where
  "apply_publish_graph_source_index s name branch index_id index_t =
     (let gid = format_ledger_id name branch in
      case hm_get (ns_graph_sources s) gid of
        None \<Rightarrow> (s, GraphSourceNotFound gid)
      | Some r \<Rightarrow>
          if index_t \<le> gs_index_t r then (s, GraphSourceIndexStale (gs_index_t r))
          else (s\<lparr>ns_graph_sources := hm_insert gid
                    (r\<lparr>gs_index_id := Some index_id, gs_index_t := index_t\<rparr>) (ns_graph_sources s)\<rparr>,
                GraphSourceIndexAdvanced index_t))"

definition apply_retract_graph_source ::
  "NameServiceState \<Rightarrow> string \<Rightarrow> string \<Rightarrow> NameServiceState \<times> Response" where
  "apply_retract_graph_source s name branch =
     (let gid = format_ledger_id name branch in
      case hm_get (ns_graph_sources s) gid of
        Some r \<Rightarrow>
          if \<not> gs_retracted r
          then (s\<lparr>ns_graph_sources := hm_insert gid (r\<lparr>gs_retracted := True\<rparr>) (ns_graph_sources s)\<rparr>,
                GraphSourceRetracted gid)
          else (s, GraphSourceAlreadyRetracted gid)
      | None \<Rightarrow> (s, GraphSourceAlreadyRetracted gid))"

section \<open>The request queue\<close>

definition queue_of :: "NameServiceState \<Rightarrow> RefKey \<Rightarrow> QueueEntry list" where
  "queue_of s key = (case hm_get (ns_queues s) key of Some q \<Rightarrow> q | None \<Rightarrow> [])"

definition global_depth :: "NameServiceState \<Rightarrow> usize" where
  "global_depth s = sum_list (map (\<lambda>(_, q). length q) (ns_queues s))"

text \<open>
  The idempotency short circuits of \<open>EnqueueCommand\<close>: the cache first, then the in-flight scan
  of the branch's queue in order.
\<close>

definition enqueue_dedup ::
  "NameServiceState \<Rightarrow> RefKey \<Rightarrow> string \<Rightarrow> IdempotencyCacheKey \<Rightarrow> ContentId \<Rightarrow> Response option" where
  "enqueue_dedup s key full ck cid =
     (case hm_get (ns_idempotency s) ck of
        Some outcome \<Rightarrow>
          if body_cid outcome \<noteq> cid then Some BodyHashMismatch
          else (case outcome of
                  Applied r \<Rightarrow> Some (IdempotencyHit r)
                | Failed r \<Rightarrow> Some (IdempotencyFailed r))
      | None \<Rightarrow>
          (case List.find (\<lambda>e. qe_idempotency e = Some ck) (queue_of s key) of
             Some e \<Rightarrow> if qe_body_cid e = cid then Some (InFlight full (qe_queue_id e))
                       else Some BodyHashMismatch
           | None \<Rightarrow> None))"

definition append_entry ::
  "NameServiceState \<Rightarrow> u64 \<Rightarrow> QueueSubmission \<Rightarrow> NameServiceState \<times> Response" where
  "append_entry s log_index args =
     (let full = format_ledger_id (qs_ledger_id args) (qs_branch args);
          key = ref_key (qs_ledger_id args) (qs_branch args);
          queue_id = ns_next_queue_id s;
          entry = \<lparr>qe_queue_id = queue_id, qe_enqueued_index = log_index,
                   qe_enqueued_at_millis = qs_applied_at_millis args,
                   qe_idempotency = qs_idempotency args, qe_request_cid = qs_request_cid args,
                   qe_body_cid = qs_body_cid args, qe_body_kind = qs_body_kind args\<rparr> in
      (s\<lparr>ns_recently_cleared := hm_remove key (ns_recently_cleared s),
         ns_next_queue_id := ns_next_queue_id s + 1,
         ns_queues := hm_insert key (queue_of s key @ [entry]) (ns_queues s)\<rparr>,
       Enqueued full queue_id))"

definition apply_enqueue_command ::
  "NameServiceState \<Rightarrow> u64 \<Rightarrow> QueueSubmission \<Rightarrow> NameServiceState \<times> Response" where
  "apply_enqueue_command s log_index args =
     (let full = format_ledger_id (qs_ledger_id args) (qs_branch args);
          key = ref_key (qs_ledger_id args) (qs_branch args) in
      if \<not> branch_known (ns_ledgers s) (qs_ledger_id args) (qs_branch args) then (s, LedgerNotFound full)
      else if key \<in> ns_retracted s then (s, LedgerRetracted full)
      else
        (case (case qs_idempotency args of
                 Some ck \<Rightarrow> enqueue_dedup s key full ck (qs_body_cid args)
               | None \<Rightarrow> None) of
           Some resp \<Rightarrow> (s, resp)
         | None \<Rightarrow>
             (let depth = length (queue_of s key); cap = per_branch_cap (ns_queue_config s) in
              if cap \<le> depth then (s, QueueFull full depth cap PerBranch)
              else
                (let depth = global_depth s; cap = global_cap (ns_queue_config s) in
                 if cap \<le> depth then (s, QueueFull full depth cap Global)
                 else append_entry s log_index args))))"

definition pop_validated_front ::
  "NameServiceState \<Rightarrow> RefKey \<Rightarrow> string \<Rightarrow> u64 \<Rightarrow> NameServiceState \<times> (Response + QueueEntry)" where
  "pop_validated_front s key full requested =
     (case hm_get (ns_recently_cleared s) key of
        Some marker \<Rightarrow>
          (s\<lparr>ns_recently_cleared := hm_remove key (ns_recently_cleared s)\<rparr>,
           Inl (QueueDesync full requested (QueueCleared (cm_reason marker))))
      | None \<Rightarrow>
          (case queue_of s key of
             [] \<Rightarrow> (s, Inl (QueueDesync full requested
                      (InvariantViolated ''queue missing or empty without recently_cleared marker'')))
           | front # rest \<Rightarrow>
               if qe_queue_id front \<noteq> requested
               then (s, Inl (QueueDesync full requested (WrongFront (qe_queue_id front))))
               else (s\<lparr>ns_queues := hm_insert key rest (ns_queues s)\<rparr>, Inr front)))"

definition drop_queue_if_empty :: "NameServiceState \<Rightarrow> RefKey \<Rightarrow> NameServiceState" where
  "drop_queue_if_empty s key =
     (if hm_get (ns_queues s) key = Some [] then s\<lparr>ns_queues := hm_remove key (ns_queues s)\<rparr> else s)"

text \<open>The last part of \<open>apply_head\<close>: the ref entry, the registration and the cache record.\<close>

definition advance_ref_entry ::
  "NameServiceState \<Rightarrow> RefKey \<Rightarrow> u64 \<Rightarrow> StagedHead \<Rightarrow> NameServiceState" where
  "advance_ref_entry s key log_index args =
     (let entry = (case hm_get (ns_refs s) key of
            Some existing \<Rightarrow>
              existing\<lparr>re_head := sh_commit_id args, re_t := sh_commit_t args,
                       re_last_advanced_at_millis := sh_applied_at_millis args,
                       re_last_advanced_index := log_index\<rparr>
          | None \<Rightarrow>
              \<lparr>re_head = sh_commit_id args, re_t = sh_commit_t args,
               re_last_advanced_at_millis = sh_applied_at_millis args,
               re_last_advanced_index = log_index, re_index = None, re_source_branch = None,
               re_branches = 0\<rparr>) in
      s\<lparr>ns_refs := hm_insert key entry (ns_refs s)\<rparr>)"

definition self_heal_branch :: "NameServiceState \<Rightarrow> string \<Rightarrow> string \<Rightarrow> NameServiceState" where
  "self_heal_branch s ledger_id branch =
     (case hm_get (ns_ledgers s) ledger_id of
        Some l \<Rightarrow>
          if branch \<notin> set (lr_branches l)
          then s\<lparr>ns_ledgers := hm_insert ledger_id (l\<lparr>lr_branches := lr_branches l @ [branch]\<rparr>) (ns_ledgers s)\<rparr>
          else s
      | None \<Rightarrow> s)"

text \<open>
  A keyed entry is recorded in the cache, which then holds its envelope; a keyless entry's
  envelope is handed back for release.
\<close>

definition record_outcome ::
  "NameServiceState \<Rightarrow> QueueEntry \<Rightarrow> ApplyOutcome \<Rightarrow> NameServiceState \<times> ContentId option" where
  "record_outcome s entry outcome =
     (case qe_idempotency entry of
        Some ck \<Rightarrow> (s\<lparr>ns_idempotency := hm_insert ck outcome (ns_idempotency s)\<rparr>, None)
      | None \<Rightarrow> (s, Some (qe_request_cid entry)))"

definition applied_outcome :: "QueueEntry \<Rightarrow> u64 \<Rightarrow> StagedHead \<Rightarrow> ApplyOutcome" where
  "applied_outcome entry log_index args =
     Applied \<lparr>ar_request_cid = qe_request_cid entry, ar_body_cid = qe_body_cid entry,
              ar_body_kind = qe_body_kind entry, ar_recorded_at_millis = sh_applied_at_millis args,
              ar_head = sh_commit_id args, ar_t = sh_commit_t args, ar_recorded_index = log_index,
              ar_tally = sh_tally args, ar_flake_count = sh_flake_count args\<rparr>"

definition apply_head :: "NameServiceState \<Rightarrow> u64 \<Rightarrow> StagedHead \<Rightarrow> NameServiceState \<times> Response" where
  "apply_head s log_index args =
     (let full = format_ledger_id (sh_ledger_id args) (sh_branch args);
          key = ref_key (sh_ledger_id args) (sh_branch args); commit_t = sh_commit_t args in
      if key \<in> ns_retracted s then (s, LedgerRetracted full)
      else
        (case pop_validated_front s key full (sh_queue_id args) of
           (s, Inl resp) \<Rightarrow> (s, resp)
         | (s, Inr entry) \<Rightarrow>
             (let current = hm_get (ns_refs s) key;
                  noop_completion = (case current of
                      Some r \<Rightarrow> commit_t = re_t r \<and> re_head r = sh_commit_id args | None \<Rightarrow> False) in
              if (case current of Some r \<Rightarrow> \<not> noop_completion \<and> commit_t \<le> re_t r | None \<Rightarrow> False)
              then (s\<lparr>ns_queues := hm_insert key (entry # queue_of s key) (ns_queues s)\<rparr>,
                    QueueDesync full (sh_queue_id args) (HeadNotMonotonic (re_t (the current)) commit_t))
              else
                (let s = drop_queue_if_empty s key;
                     s = (if \<not> noop_completion then advance_ref_entry s key log_index args else s);
                     s = self_heal_branch s (sh_ledger_id args) (sh_branch args);
                     (s, released) = record_outcome s entry (applied_outcome entry log_index args) in
                 (s, HeadApplied full (sh_commit_id args) commit_t released)))))"

definition apply_poison_queue_entry ::
  "NameServiceState \<Rightarrow> u64 \<Rightarrow> EntryPoisoning \<Rightarrow> NameServiceState \<times> Response" where
  "apply_poison_queue_entry s log_index args =
     (let full = format_ledger_id (ep_ledger_id args) (ep_branch args);
          key = ref_key (ep_ledger_id args) (ep_branch args) in
      case pop_validated_front s key full (ep_queue_id args) of
        (s, Inl resp) \<Rightarrow> (s, resp)
      | (s, Inr entry) \<Rightarrow>
          (let s = drop_queue_if_empty s key;
               (s, released) = record_outcome s entry
                 (Failed \<lparr>pr_request_cid = qe_request_cid entry, pr_body_cid = qe_body_cid entry,
                          pr_reason = ep_reason args, pr_recorded_index = log_index,
                          pr_recorded_at_millis = ep_applied_at_millis args\<rparr>) in
           (s, Poisoned full (ep_queue_id args) (ep_reason args) released)))"

section \<open>Eviction of the idempotency cache\<close>

definition EVICT_BATCH_SIZE :: usize where
  "EVICT_BATCH_SIZE = 1024"

definition expired_outcomes ::
  "(IdempotencyCacheKey, ApplyOutcome) hmap \<Rightarrow> u64 \<Rightarrow> (u64 \<times> u64 \<times> IdempotencyCacheKey) list" where
  "expired_outcomes cache cutoff =
     take EVICT_BATCH_SIZE
       (sort_key (\<lambda>(ts, idx, _). (ts, idx))
          (List.map_filter (\<lambda>(key, outcome).
              if recorded_at_millis outcome < cutoff
              then Some (recorded_at_millis outcome, recorded_index outcome, key) else None) cache))"

fun evict_keys ::
  "(IdempotencyCacheKey, ApplyOutcome) hmap \<Rightarrow> (u64 \<times> u64 \<times> IdempotencyCacheKey) list
     \<Rightarrow> (IdempotencyCacheKey, ApplyOutcome) hmap \<times> envelopes" where
  "evict_keys cache [] = (cache, [])"
| "evict_keys cache ((_, _, key) # ks) =
     (let (cache', released) = evict_keys (hm_remove key cache) ks in
      (cache', case hm_get cache key of
                 Some outcome \<Rightarrow> (ck_ledger_id key, request_cid outcome) # released
               | None \<Rightarrow> released))"

definition apply_evict_idempotency ::
  "NameServiceState \<Rightarrow> u64 \<Rightarrow> u64 \<Rightarrow> NameServiceState \<times> Response" where
  "apply_evict_idempotency s cutoff_millis marker_cutoff_millis =
     (let expired = expired_outcomes (ns_idempotency s) cutoff_millis;
          (cache, released) = evict_keys (ns_idempotency s) expired;
          removed = length expired in
      (s\<lparr>ns_idempotency := cache,
         ns_evicted_idempotency_count := ns_evicted_idempotency_count s + of_nat removed,
         ns_recently_cleared :=
           filter (\<lambda>(_, marker). marker_cutoff_millis \<le> cm_applied_at_millis marker) (ns_recently_cleared s)\<rparr>,
       EvictionApplied removed released))"

section \<open>The dispatcher\<close>

fun ns_apply :: "NameServiceState \<Rightarrow> Command \<Rightarrow> u64 \<Rightarrow> NameServiceState \<times> Response" where
  "ns_apply s (AdvanceIndexHead args) log_index = advance_index_head s args"
| "ns_apply s (RewriteIndexHead args) log_index = rewrite_index_head s args"
| "ns_apply s (CreateLedger args) log_index = create_ledger s log_index args"
| "ns_apply s (CreateBranch args) log_index = create_branch s log_index args"
| "ns_apply s (DropBranch ledger_id branch ts) log_index = drop_branch s ledger_id branch ts"
| "ns_apply s (ResetHead ledger_id branch snapshot ts) log_index = reset_head s ledger_id branch snapshot ts"
| "ns_apply s (RetractLedger ledger_id branch ts) log_index = retract_ledger s ledger_id branch ts"
| "ns_apply s (PurgeBranch ledger_id branch ts) log_index = purge_branch s ledger_id branch ts"
| "ns_apply s (ReleaseContent cid) log_index = (s, NoOp)"
| "ns_apply s (CompareAndSetRef args) log_index = apply_compare_and_set_ref s log_index args"
| "ns_apply s (PushStatus ledger_id expected new) log_index = push_status s ledger_id expected new"
| "ns_apply s (PushConfig args) log_index = push_config s args"
| "ns_apply s (PublishGraphSource name branch source_type config dependencies) log_index =
     apply_publish_graph_source s name branch source_type config dependencies"
| "ns_apply s (PublishGraphSourceIndex name branch index_id index_t) log_index =
     apply_publish_graph_source_index s name branch index_id index_t"
| "ns_apply s (RetractGraphSource name branch) log_index = apply_retract_graph_source s name branch"
| "ns_apply s (EnqueueCommand args) log_index = apply_enqueue_command s log_index args"
| "ns_apply s (ApplyHead args) log_index = apply_head s log_index args"
| "ns_apply s (PoisonQueueEntry args) log_index = apply_poison_queue_entry s log_index args"
| "ns_apply s (EvictIdempotency cutoff marker_cutoff) log_index = apply_evict_idempotency s cutoff marker_cutoff"
| "ns_apply s (SetWorkerEligibility args) log_index = apply_set_worker_eligibility s args"

text \<open>The replicated log: commands with the indices of their entries, applied in order.\<close>

fun ns_run :: "NameServiceState \<Rightarrow> (u64 \<times> Command) list \<Rightarrow> NameServiceState" where
  "ns_run s [] = s"
| "ns_run s ((i, c) # es) = ns_run (fst (ns_apply s c i)) es"

end
