(* ===== verification/Ns_Inv.thy ===== *)
theory Ns_Inv
  imports Ns_Apply
begin

text \<open>
  The structural invariant of the replicated nameservice and its preservation by every handler:
  the maps have unique keys; every ledger record lists distinct branches and at least one; the
  heads, the tombstones and the queues belong to registered branches; no queue is empty, no
  tombstoned branch has a queue, and no branch with a queue has a clear marker.
\<close>

section \<open>Registered branches\<close>

definition known :: "NameServiceState \<Rightarrow> RefKey \<Rightarrow> bool" where
  "known s k = branch_known (ns_ledgers s) (rk_ledger_name k) (rk_branch k)"

lemma ref_key_simps [simp]:
  "rk_ledger_name (ref_key l b) = l" "rk_branch (ref_key l b) = b"
  by (simp_all add: ref_key_def)

lemma ref_key_eq_iff: "k = ref_key l b \<longleftrightarrow> rk_ledger_name k = l \<and> rk_branch k = b"
  by (cases k) (simp add: ref_key_def)

lemma ref_key_inject [simp]: "ref_key l b = ref_key l' b' \<longleftrightarrow> l = l' \<and> b = b'"
  by (simp add: ref_key_def)

lemma known_ref_key [simp]: "known s (ref_key l b) = branch_known (ns_ledgers s) l b"
  by (simp add: known_def)

lemma branch_known_insert [simp]:
  "branch_known (hm_insert l r m) n b = (if n = l then b \<in> set (lr_branches r) else branch_known m n b)"
  by (simp add: branch_known_def)

lemma branch_known_remove [simp]:
  "branch_known (hm_remove l m) n b = (n \<noteq> l \<and> branch_known m n b)"
  by (simp add: branch_known_def)

lemma branch_knownI: "hm_get m l = Some r \<Longrightarrow> b \<in> set (lr_branches r) \<Longrightarrow> branch_known m l b"
  by (simp add: branch_known_def)

lemma unregister_known [simp]:
  "branch_known (ns_ledgers (fst (unregister_branch s l b))) n c \<longleftrightarrow>
     branch_known (ns_ledgers s) n c \<and> \<not> (n = l \<and> c = b)"
proof (cases "hm_get (ns_ledgers s) l")
  case None
  then show ?thesis by (auto simp: unregister_branch_def branch_known_def)
next
  case (Some r)
  have "filter (\<lambda>c. c \<noteq> b) (lr_branches r) = [] \<longleftrightarrow> set (lr_branches r) \<subseteq> {b}"
    by (auto simp: filter_empty_conv)
  with Some show ?thesis by (auto simp: unregister_branch_def Let_def branch_known_def)
qed

section \<open>What the helpers leave alone\<close>

lemma unregister_frame [simp]:
  "ns_refs (fst (unregister_branch s l b)) = ns_refs s"
  "ns_retracted (fst (unregister_branch s l b)) = ns_retracted s"
  "ns_idempotency (fst (unregister_branch s l b)) = ns_idempotency s"
  "ns_queues (fst (unregister_branch s l b)) = ns_queues s"
  "ns_next_queue_id (fst (unregister_branch s l b)) = ns_next_queue_id s"
  "ns_recently_cleared (fst (unregister_branch s l b)) = ns_recently_cleared s"
  "ns_queue_config (fst (unregister_branch s l b)) = ns_queue_config s"
  "ns_status (fst (unregister_branch s l b)) = ns_status s"
  "ns_config (fst (unregister_branch s l b)) = ns_config s"
  "ns_graph_sources (fst (unregister_branch s l b)) = ns_graph_sources s"
  "ns_worker_eligible_voters (fst (unregister_branch s l b)) = ns_worker_eligible_voters s"
  "ns_configured_voters (fst (unregister_branch s l b)) = ns_configured_voters s"
  "ns_evicted_idempotency_count (fst (unregister_branch s l b)) = ns_evicted_idempotency_count s"
  by (simp_all add: unregister_branch_def Let_def split: option.splits)

lemma decrement_frame [simp]:
  "ns_ledgers (fst (decrement_child_count s l p)) = ns_ledgers s"
  "ns_retracted (fst (decrement_child_count s l p)) = ns_retracted s"
  "ns_idempotency (fst (decrement_child_count s l p)) = ns_idempotency s"
  "ns_queues (fst (decrement_child_count s l p)) = ns_queues s"
  "ns_next_queue_id (fst (decrement_child_count s l p)) = ns_next_queue_id s"
  "ns_recently_cleared (fst (decrement_child_count s l p)) = ns_recently_cleared s"
  "ns_queue_config (fst (decrement_child_count s l p)) = ns_queue_config s"
  "ns_status (fst (decrement_child_count s l p)) = ns_status s"
  "ns_config (fst (decrement_child_count s l p)) = ns_config s"
  "ns_graph_sources (fst (decrement_child_count s l p)) = ns_graph_sources s"
  "ns_worker_eligible_voters (fst (decrement_child_count s l p)) = ns_worker_eligible_voters s"
  "ns_configured_voters (fst (decrement_child_count s l p)) = ns_configured_voters s"
  "ns_evicted_idempotency_count (fst (decrement_child_count s l p)) = ns_evicted_idempotency_count s"
  by (simp_all add: decrement_child_count_def Let_def split: option.splits)

lemma clear_queue_frame [simp]:
  "ns_refs (fst (clear_queue_for_admin s k r m)) = ns_refs s"
  "ns_ledgers (fst (clear_queue_for_admin s k r m)) = ns_ledgers s"
  "ns_retracted (fst (clear_queue_for_admin s k r m)) = ns_retracted s"
  "ns_idempotency (fst (clear_queue_for_admin s k r m)) = ns_idempotency s"
  "ns_next_queue_id (fst (clear_queue_for_admin s k r m)) = ns_next_queue_id s"
  "ns_queue_config (fst (clear_queue_for_admin s k r m)) = ns_queue_config s"
  "ns_status (fst (clear_queue_for_admin s k r m)) = ns_status s"
  "ns_config (fst (clear_queue_for_admin s k r m)) = ns_config s"
  "ns_graph_sources (fst (clear_queue_for_admin s k r m)) = ns_graph_sources s"
  "ns_worker_eligible_voters (fst (clear_queue_for_admin s k r m)) = ns_worker_eligible_voters s"
  "ns_configured_voters (fst (clear_queue_for_admin s k r m)) = ns_configured_voters s"
  "ns_evicted_idempotency_count (fst (clear_queue_for_admin s k r m)) = ns_evicted_idempotency_count s"
  by (simp_all add: clear_queue_for_admin_def Let_def split: option.splits)

lemma clear_queue_queues [simp]:
  "ns_queues (fst (clear_queue_for_admin s k r m)) = hm_remove k (ns_queues s)"
  by (simp add: clear_queue_for_admin_def Let_def hm_remove_absent split: option.splits)

lemma clear_queue_cleared:
  "hm_get (ns_recently_cleared (fst (clear_queue_for_admin s k r m))) j =
     (if j = k \<and> queue_of s k \<noteq> [] then Some \<lparr>cm_reason = r, cm_applied_at_millis = m\<rparr>
      else hm_get (ns_recently_cleared s) j)"
  by (simp add: clear_queue_for_admin_def queue_of_def Let_def split: option.splits)

lemma clear_queue_cleared_other [simp]:
  "j \<noteq> k \<Longrightarrow>
   hm_get (ns_recently_cleared (fst (clear_queue_for_admin s k r m))) j = hm_get (ns_recently_cleared s) j"
  by (simp add: clear_queue_cleared)

lemma clear_queue_released [simp]:
  "snd (clear_queue_for_admin s k r m) = map (\<lambda>e. (rk_ledger_id k, qe_request_cid e)) (queue_of s k)"
  by (simp add: clear_queue_for_admin_def queue_of_def Let_def split: option.splits)

lemma decrement_refs_get:
  "hm_get (ns_refs (fst (decrement_child_count s l p))) k =
     (case hm_get (ns_refs s) k of
        None \<Rightarrow> None
      | Some e \<Rightarrow> Some (if k = ref_key l p then e\<lparr>re_branches := saturating_sub (re_branches e) 1\<rparr> else e))"
  by (auto simp: decrement_child_count_def Let_def split: option.splits)

lemma decrement_refs_none [simp]:
  "hm_get (ns_refs (fst (decrement_child_count s l p))) k = None \<longleftrightarrow> hm_get (ns_refs s) k = None"
  by (simp add: decrement_refs_get split: option.splits)

section \<open>The invariant\<close>

definition maps_ok :: "NameServiceState \<Rightarrow> bool" where
  "maps_ok s \<longleftrightarrow>
     hm_ok (ns_refs s) \<and> hm_ok (ns_ledgers s) \<and> hm_ok (ns_idempotency s) \<and> hm_ok (ns_queues s) \<and>
     hm_ok (ns_recently_cleared s) \<and> hm_ok (ns_status s) \<and> hm_ok (ns_config s) \<and>
     hm_ok (ns_graph_sources s)"

definition ledgers_ok :: "NameServiceState \<Rightarrow> bool" where
  "ledgers_ok s \<longleftrightarrow>
     (\<forall>l r. hm_get (ns_ledgers s) l = Some r \<longrightarrow> lr_branches r \<noteq> [] \<and> distinct (lr_branches r))"

definition refs_known :: "NameServiceState \<Rightarrow> bool" where
  "refs_known s \<longleftrightarrow> (\<forall>k. hm_get (ns_refs s) k \<noteq> None \<longrightarrow> known s k)"

definition retracted_known :: "NameServiceState \<Rightarrow> bool" where
  "retracted_known s \<longleftrightarrow> (\<forall>k. k \<in> ns_retracted s \<longrightarrow> known s k)"

definition queues_ok :: "NameServiceState \<Rightarrow> bool" where
  "queues_ok s \<longleftrightarrow>
     (\<forall>k q. hm_get (ns_queues s) k = Some q \<longrightarrow>
        q \<noteq> [] \<and> known s k \<and> k \<notin> ns_retracted s \<and> hm_get (ns_recently_cleared s) k = None)"

definition ns_ok :: "NameServiceState \<Rightarrow> bool" where
  "ns_ok s \<longleftrightarrow> maps_ok s \<and> ledgers_ok s \<and> refs_known s \<and> retracted_known s \<and> queues_ok s"

lemmas ns_ok_defs = ns_ok_def maps_ok_def ledgers_ok_def refs_known_def retracted_known_def queues_ok_def

lemma ns_okI:
  assumes "maps_ok s" "ledgers_ok s"
    and "\<And>k e. hm_get (ns_refs s) k = Some e \<Longrightarrow> known s k"
    and "\<And>k. k \<in> ns_retracted s \<Longrightarrow> known s k"
    and "\<And>k q. hm_get (ns_queues s) k = Some q \<Longrightarrow>
           q \<noteq> [] \<and> known s k \<and> k \<notin> ns_retracted s \<and> hm_get (ns_recently_cleared s) k = None"
  shows "ns_ok s"
  using assms by (auto simp: ns_ok_def refs_known_def retracted_known_def queues_ok_def)

lemma ns_okD:
  assumes "ns_ok s"
  shows "maps_ok s" "ledgers_ok s"
    and "hm_get (ns_refs s) k = Some e \<Longrightarrow> known s k"
    and "k \<in> ns_retracted s \<Longrightarrow> known s k"
    and "hm_get (ns_queues s) k = Some q \<Longrightarrow>
           q \<noteq> [] \<and> known s k \<and> k \<notin> ns_retracted s \<and> hm_get (ns_recently_cleared s) k = None"
  using assms by (auto simp: ns_ok_def refs_known_def retracted_known_def queues_ok_def)

lemma clear_queue_maps_ok [simp]: "maps_ok s \<Longrightarrow> maps_ok (fst (clear_queue_for_admin s k r m))"
  by (simp add: maps_ok_def clear_queue_for_admin_def Let_def split: option.splits)

lemma unregister_maps_ok [simp]: "maps_ok s \<Longrightarrow> maps_ok (fst (unregister_branch s l b))"
  by (simp add: maps_ok_def unregister_branch_def Let_def split: option.splits)

lemma decrement_maps_ok [simp]: "maps_ok s \<Longrightarrow> maps_ok (fst (decrement_child_count s l p))"
  by (simp add: maps_ok_def decrement_child_count_def Let_def split: option.splits)

lemma clear_queue_known [simp]: "known (fst (clear_queue_for_admin s k r m)) j = known s j"
  by (simp add: known_def)

lemma clear_queue_ledgers_ok [simp]: "ledgers_ok (fst (clear_queue_for_admin s k r m)) = ledgers_ok s"
  by (simp add: ledgers_ok_def)

lemma decrement_known [simp]: "known (fst (decrement_child_count s l p)) j = known s j"
  by (simp add: known_def)

lemma decrement_ledgers_ok [simp]: "ledgers_ok (fst (decrement_child_count s l p)) = ledgers_ok s"
  by (simp add: ledgers_ok_def)

lemma unregister_ledgers_ok [simp]: "ledgers_ok s \<Longrightarrow> ledgers_ok (fst (unregister_branch s l b))"
  by (auto simp: ledgers_ok_def unregister_branch_def Let_def split: option.splits if_splits)

lemma unregister_known' [simp]:
  "known (fst (unregister_branch s l b)) k \<longleftrightarrow> known s k \<and> k \<noteq> ref_key l b"
  by (auto simp: known_def ref_key_eq_iff)

section \<open>Preservation\<close>

lemma ns_ok_new [simp]: "ns_ok new_state"
  by (simp add: ns_ok_defs new_state_def)

lemma ns_ok_eligibility: "ns_ok s \<Longrightarrow> ns_ok (fst (apply_set_worker_eligibility s args))"
  by (simp add: ns_ok_defs apply_set_worker_eligibility_def Let_def known_def)

lemma create_ledger_frame [simp]:
  "ns_refs (fst (create_ledger s i args)) = ns_refs s"
  "ns_retracted (fst (create_ledger s i args)) = ns_retracted s"
  "ns_queues (fst (create_ledger s i args)) = ns_queues s"
  "ns_recently_cleared (fst (create_ledger s i args)) = ns_recently_cleared s"
  "ns_idempotency (fst (create_ledger s i args)) = ns_idempotency s"
  by (simp_all add: create_ledger_def Let_def split: option.splits)

lemma create_ledger_known:
  "known (fst (create_ledger s i args)) k \<longleftrightarrow> known s k \<or> k = ref_key (nl_ledger_id args) (nl_branch args)"
  by (auto simp: known_def create_ledger_def Let_def branch_known_def ref_key_eq_iff split: option.splits)

lemma ns_ok_create_ledger:
  assumes "ns_ok s"
  shows "ns_ok (fst (create_ledger s i args))"
proof (rule ns_okI)
  show "maps_ok (fst (create_ledger s i args))"
    using ns_okD(1) [OF assms] by (auto simp: maps_ok_def create_ledger_def Let_def split: option.splits)
  show "ledgers_ok (fst (create_ledger s i args))"
    using ns_okD(2) [OF assms] by (auto simp: ledgers_ok_def create_ledger_def Let_def split: option.splits)
qed (use ns_okD [OF assms] in \<open>auto simp: create_ledger_known\<close>)

lemma ns_ok_clear_queue:
  assumes "ns_ok s"
  shows "ns_ok (fst (clear_queue_for_admin s k r m))"
  using ns_okD [OF assms] by (intro ns_okI) (auto split: if_splits)

lemma ns_ok_retract: "ns_ok s \<Longrightarrow> ns_ok (fst (retract_ledger s l b m))"
proof -
  assume ok: "ns_ok s"
  show ?thesis
  proof (cases "branch_known (ns_ledgers s) l b \<and> ref_key l b \<notin> ns_retracted s")
    case True
    let ?s = "s\<lparr>ns_retracted := insert (ref_key l b) (ns_retracted s)\<rparr>"
    have "maps_ok ?s" "ledgers_ok ?s" "\<And>k. known ?s k = known s k"
      using ns_okD(1,2) [OF ok] by (simp_all add: maps_ok_def ledgers_ok_def known_def)
    then have "ns_ok (fst (clear_queue_for_admin ?s (ref_key l b) BranchRetractedReason m))"
      using ns_okD [OF ok] True by (intro ns_okI) (auto split: if_splits)
    with True show ?thesis by (simp add: retract_ledger_def Let_def case_prod_beta)
  qed (use ok in \<open>simp add: retract_ledger_def Let_def\<close>)
qed

text \<open>The removal that \<open>drop_branch\<close> and \<open>purge_branch\<close> share.\<close>

definition remove_branch :: "NameServiceState \<Rightarrow> string \<Rightarrow> string \<Rightarrow> ClearReason \<Rightarrow> u64 \<Rightarrow> NameServiceState" where
  "remove_branch s l b r m =
     (let key = ref_key l b;
          s1 = fst (unregister_branch
                 (s\<lparr>ns_refs := hm_remove key (ns_refs s), ns_retracted := ns_retracted s - {key}\<rparr>) l b);
          s2 = (case Option.bind (hm_get (ns_refs s) key) re_source_branch of
                  Some parent \<Rightarrow> fst (decrement_child_count s1 l parent) | None \<Rightarrow> s1) in
      fst (clear_queue_for_admin s2 key r m))"

definition has_children :: "NameServiceState \<Rightarrow> RefKey \<Rightarrow> bool" where
  "has_children s k = (case hm_get (ns_refs s) k of Some e \<Rightarrow> 0 < re_branches e | None \<Rightarrow> False)"

lemma fst_purge_branch:
  "fst (purge_branch s l b m) =
     (if has_children s (ref_key l b) then s else remove_branch s l b BranchPurgedReason m)"
  by (simp add: purge_branch_def remove_branch_def has_children_def Let_def case_prod_beta
      split: option.splits)

lemma fst_drop_branch:
  "fst (drop_branch s l b m) =
     (if \<not> known s (ref_key l b) \<or> has_children s (ref_key l b) then s
      else remove_branch s l b BranchDroppedReason m)"
  by (simp add: drop_branch_def remove_branch_def has_children_def Let_def case_prod_beta
      split: option.splits)

lemma remove_branch_get:
  "hm_get (ns_refs (remove_branch s l b r m)) k =
     (if k = ref_key l b then None
      else case hm_get (ns_refs s) k of
             None \<Rightarrow> None
           | Some e \<Rightarrow>
               Some (if Option.bind (hm_get (ns_refs s) (ref_key l b)) re_source_branch = Some (rk_branch k)
                        \<and> rk_ledger_name k = l
                     then e\<lparr>re_branches := saturating_sub (re_branches e) 1\<rparr> else e))"
  by (auto simp: remove_branch_def Let_def decrement_refs_get ref_key_eq_iff split: option.splits)

lemma remove_branch_simps [simp]:
  "known (remove_branch s l b r m) k \<longleftrightarrow> known s k \<and> k \<noteq> ref_key l b"
  "ns_retracted (remove_branch s l b r m) = ns_retracted s - {ref_key l b}"
  "ns_queues (remove_branch s l b r m) = hm_remove (ref_key l b) (ns_queues s)"
  "ns_idempotency (remove_branch s l b r m) = ns_idempotency s"
  "ns_next_queue_id (remove_branch s l b r m) = ns_next_queue_id s"
  "ns_queue_config (remove_branch s l b r m) = ns_queue_config s"
  "ns_graph_sources (remove_branch s l b r m) = ns_graph_sources s"
  "ns_status (remove_branch s l b r m) = ns_status s"
  "ns_config (remove_branch s l b r m) = ns_config s"
  "ns_worker_eligible_voters (remove_branch s l b r m) = ns_worker_eligible_voters s"
  "ns_configured_voters (remove_branch s l b r m) = ns_configured_voters s"
  "ns_evicted_idempotency_count (remove_branch s l b r m) = ns_evicted_idempotency_count s"
  by (simp_all add: remove_branch_def Let_def known_def ref_key_eq_iff split: option.splits)

lemma remove_branch_cleared_other [simp]:
  "j \<noteq> ref_key l b \<Longrightarrow>
   hm_get (ns_recently_cleared (remove_branch s l b r m)) j = hm_get (ns_recently_cleared s) j"
  by (simp add: remove_branch_def Let_def split: option.splits)

lemma remove_branch_maps_ok:
  assumes "maps_ok s" "ledgers_ok s"
  shows "maps_ok (remove_branch s l b r m)" "ledgers_ok (remove_branch s l b r m)"
proof -
  let ?s = "s\<lparr>ns_refs := hm_remove (ref_key l b) (ns_refs s), ns_retracted := ns_retracted s - {ref_key l b}\<rparr>"
  have "maps_ok ?s" "ledgers_ok ?s" using assms by (simp_all add: maps_ok_def ledgers_ok_def)
  then show "maps_ok (remove_branch s l b r m)" "ledgers_ok (remove_branch s l b r m)"
    by (simp_all add: remove_branch_def Let_def split: option.splits)
qed

lemma ns_ok_remove_branch:
  assumes "ns_ok s"
  shows "ns_ok (remove_branch s l b r m)"
  using ns_okD [OF assms] remove_branch_maps_ok [of s l b r m]
  by (intro ns_okI) (auto simp: remove_branch_get split: if_splits option.splits)

lemma ns_ok_purge: "ns_ok s \<Longrightarrow> ns_ok (fst (purge_branch s l b m))"
  by (simp add: fst_purge_branch ns_ok_remove_branch)

lemma ns_ok_drop: "ns_ok s \<Longrightarrow> ns_ok (fst (drop_branch s l b m))"
  by (simp add: fst_drop_branch ns_ok_remove_branch)

lemma known_update [simp]:
  "known (s\<lparr>ns_refs := x\<rparr>) k = known s k"
  "known (s\<lparr>ns_queues := y\<rparr>) k = known s k"
  "known (s\<lparr>ns_recently_cleared := z\<rparr>) k = known s k"
  "known (s\<lparr>ns_idempotency := w\<rparr>) k = known s k"
  by (simp_all add: known_def)

lemma ns_ok_refs_insert:
  "ns_ok s \<Longrightarrow> known s k \<Longrightarrow> ns_ok (s\<lparr>ns_refs := hm_insert k e (ns_refs s)\<rparr>)"
  by (auto simp: ns_ok_defs)

lemma ns_ok_refs_update:
  "ns_ok s \<Longrightarrow> hm_get (ns_refs s) k = Some e \<Longrightarrow> ns_ok (s\<lparr>ns_refs := hm_insert k e' (ns_refs s)\<rparr>)"
  by (simp add: ns_ok_refs_insert ns_okD(3))

lemma ns_ok_refs_remove: "ns_ok s \<Longrightarrow> ns_ok (s\<lparr>ns_refs := hm_remove k (ns_refs s)\<rparr>)"
  by (auto simp: ns_ok_defs)

lemma ns_ok_idempotency:
  "ns_ok s \<Longrightarrow> hm_ok x \<Longrightarrow> ns_ok (s\<lparr>ns_idempotency := x\<rparr>)"
  by (auto simp: ns_ok_defs)

lemma create_branch_known:
  assumes "hm_get (ns_ledgers s) l = Some r"
  shows "known (s\<lparr>ns_ledgers := hm_insert l (r\<lparr>lr_branches := lr_branches r @ [b]\<rparr>) (ns_ledgers s)\<rparr>) k
    \<longleftrightarrow> known s k \<or> k = ref_key l b"
  using assms by (auto simp: known_def branch_known_def ref_key_eq_iff)

lemma ns_ok_create_branch:
  assumes ok: "ns_ok s"
  shows "ns_ok (fst (create_branch s i args))"
proof -
  let ?l = "nb_ledger_id args" and ?b = "nb_branch args" and ?p = "nb_source_branch args"
  show ?thesis
  proof (cases "\<exists>r src. hm_get (ns_ledgers s) ?l = Some r \<and> ?b \<notin> set (lr_branches r) \<and>
      hm_get (ns_refs s) (ref_key ?l ?p) = Some src")
    case True
    then obtain r src where r: "hm_get (ns_ledgers s) ?l = Some r" "?b \<notin> set (lr_branches r)"
      and src: "hm_get (ns_refs s) (ref_key ?l ?p) = Some src" by auto
    have "known s (ref_key ?l ?p)" using ok src by (rule ns_okD(3))
    then show ?thesis
      using ns_okD [OF ok] r src
      by (intro ns_okI) (auto simp: create_branch_def Let_def create_branch_known maps_ok_def ledgers_ok_def
          case_prod_beta split: if_splits)
  qed (use ok in \<open>auto simp: create_branch_def Let_def split: option.splits\<close>)
qed

lemma ns_ok_reset_head:
  assumes "ns_ok s"
  shows "ns_ok (fst (reset_head s l b snap m))"
  using assms
  by (auto simp: reset_head_def Let_def case_prod_beta
      intro!: ns_ok_clear_queue ns_ok_refs_remove ns_ok_refs_insert split: option.splits)

lemma ns_ok_set_index: "ns_ok s \<Longrightarrow> ns_ok (fst (set_index_head s args stale))"
  by (auto simp: set_index_head_def Let_def intro: ns_ok_refs_update split: option.splits)

lemma ns_ok_cas: "ns_ok s \<Longrightarrow> ns_ok (fst (apply_compare_and_set_ref s i args))"
  by (auto simp: apply_compare_and_set_ref_def Let_def current_ref_value_def
      intro!: ns_ok_refs_insert split: option.splits RefKind.splits if_splits)

lemma versioned_push_ok:
  "hm_ok vals \<Longrightarrow> hm_ok (fst (apply_versioned_push ab v cf up ls vals l ex new))"
  by (simp add: apply_versioned_push_def Let_def split: sum.splits prod.splits)

lemma ns_ok_status: "ns_ok s \<Longrightarrow> ns_ok (fst (push_status s l ex new))"
  by (auto simp: push_status_def case_prod_beta ns_ok_defs known_def versioned_push_ok)

lemma ns_ok_config: "ns_ok s \<Longrightarrow> ns_ok (fst (push_config s args))"
  by (auto simp: push_config_def case_prod_beta ns_ok_defs known_def versioned_push_ok)

lemma ns_ok_graph_sources: "ns_ok s \<Longrightarrow> hm_ok x \<Longrightarrow> ns_ok (s\<lparr>ns_graph_sources := x\<rparr>)"
  by (auto simp: ns_ok_defs known_def)

lemma ns_ok_graph:
  assumes "ns_ok s"
  shows "ns_ok (fst (apply_publish_graph_source s n b ty cfg deps))"
    "ns_ok (fst (apply_publish_graph_source_index s n b ixid ixt))"
    "ns_ok (fst (apply_retract_graph_source s n b))"
proof -
  have "hm_ok (ns_graph_sources s)" using ns_okD(1) [OF assms] by (simp add: maps_ok_def)
  then show "ns_ok (fst (apply_publish_graph_source s n b ty cfg deps))"
    "ns_ok (fst (apply_publish_graph_source_index s n b ixid ixt))"
    "ns_ok (fst (apply_retract_graph_source s n b))"
    using assms
    by (auto simp: apply_publish_graph_source_def apply_publish_graph_source_index_def
        apply_retract_graph_source_def Let_def intro!: ns_ok_graph_sources split: option.splits)
qed

lemma ns_ok_enqueue: "ns_ok s \<Longrightarrow> ns_ok (fst (apply_enqueue_command s i args))"
  by (auto simp: apply_enqueue_command_def append_entry_def Let_def ns_ok_defs known_def
      split: option.splits if_splits)

text \<open>The front of the queue: a successful pop, and what it leaves.\<close>

lemma pop_validated_front_Inr:
  "pop_validated_front s k full q = (s', Inr e) \<longleftrightarrow>
     hm_get (ns_recently_cleared s) k = None \<and> qe_queue_id e = q \<and>
     (\<exists>rest. hm_get (ns_queues s) k = Some (e # rest) \<and> s' = s\<lparr>ns_queues := hm_insert k rest (ns_queues s)\<rparr>)"
  by (auto simp: pop_validated_front_def queue_of_def split: option.splits list.splits)

lemma pop_validated_front_Inl:
  assumes "pop_validated_front s k full q = (s', Inl resp)"
  shows "s' = s\<lparr>ns_recently_cleared := hm_remove k (ns_recently_cleared s)\<rparr>"
    and "\<exists>reason. resp = QueueDesync full q reason"
  using assms
  by (auto simp: pop_validated_front_def hm_remove_absent split: option.splits list.splits if_splits)

lemma ns_ok_marker_remove:
  "ns_ok s \<Longrightarrow> ns_ok (s\<lparr>ns_recently_cleared := hm_remove k (ns_recently_cleared s)\<rparr>)"
  by (auto simp: ns_ok_defs)

text \<open>The state after the front entry is consumed for good.\<close>

definition consume_front :: "NameServiceState \<Rightarrow> RefKey \<Rightarrow> QueueEntry list \<Rightarrow> NameServiceState" where
  "consume_front s k rest =
     s\<lparr>ns_queues := (if rest = [] then hm_remove k (ns_queues s) else hm_insert k rest (ns_queues s))\<rparr>"

lemma drop_queue_consume:
  "drop_queue_if_empty (s\<lparr>ns_queues := hm_insert k rest (ns_queues s)\<rparr>) k = consume_front s k rest"
  by (simp add: drop_queue_if_empty_def consume_front_def hm_remove_insert_same)

lemma consume_front_simps [simp]:
  "ns_refs (consume_front s k rest) = ns_refs s"
  "ns_ledgers (consume_front s k rest) = ns_ledgers s"
  "ns_retracted (consume_front s k rest) = ns_retracted s"
  "ns_idempotency (consume_front s k rest) = ns_idempotency s"
  "ns_next_queue_id (consume_front s k rest) = ns_next_queue_id s"
  "ns_recently_cleared (consume_front s k rest) = ns_recently_cleared s"
  "ns_queue_config (consume_front s k rest) = ns_queue_config s"
  "known (consume_front s k rest) j = known s j"
  by (simp_all add: consume_front_def)

lemma ns_ok_consume:
  "ns_ok s \<Longrightarrow> hm_get (ns_queues s) k = Some (e # rest) \<Longrightarrow> ns_ok (consume_front s k rest)"
  by (auto simp: ns_ok_defs consume_front_def)

text \<open>
  A registered branch needs no self-healing, so consuming an entry changes the queue, the head
  (unless the completion is a no-op) and the cache.
\<close>

lemma self_heal_known: "known s (ref_key l b) \<Longrightarrow> self_heal_branch s l b = s"
  by (simp add: self_heal_branch_def branch_known_def split: option.splits)

definition head_state :: "NameServiceState \<Rightarrow> RefKey \<Rightarrow> QueueEntry \<Rightarrow> QueueEntry list \<Rightarrow> u64 \<Rightarrow> StagedHead \<Rightarrow> NameServiceState" where
  "head_state s k e rest i args =
     (let s1 = consume_front s k rest;
          noop = (case hm_get (ns_refs s) k of
                    Some r \<Rightarrow> sh_commit_t args = re_t r \<and> re_head r = sh_commit_id args | None \<Rightarrow> False);
          s2 = (if noop then s1 else advance_ref_entry s1 k i args) in
      fst (record_outcome s2 e (applied_outcome e i args)))"

lemma advance_ref_known [simp]: "known (advance_ref_entry s k i args) j = known s j"
  by (simp add: advance_ref_entry_def Let_def)

text \<open>The two ways an \<open>apply_head\<close> that popped the front can go.\<close>

lemma apply_head_stale:
  assumes k: "k = ref_key (sh_ledger_id args) (sh_branch args)"
    and full: "full = format_ledger_id (sh_ledger_id args) (sh_branch args)"
    and nr: "k \<notin> ns_retracted s"
    and pop: "pop_validated_front s k full (sh_queue_id args) = (s', Inr e)"
    and r: "hm_get (ns_refs s) k = Some r" "sh_commit_t args \<le> re_t r"
      "\<not> (sh_commit_t args = re_t r \<and> re_head r = sh_commit_id args)"
  shows "apply_head s i args =
    (s, QueueDesync full (sh_queue_id args) (HeadNotMonotonic (re_t r) (sh_commit_t args)))"
proof -
  obtain rest where q: "hm_get (ns_queues s) k = Some (e # rest)"
    and s': "s' = s\<lparr>ns_queues := hm_insert k rest (ns_queues s)\<rparr>"
    using pop by (auto simp: pop_validated_front_Inr)
  have "apply_head s i args =
      (s'\<lparr>ns_queues := hm_insert k (e # queue_of s' k) (ns_queues s')\<rparr>,
       QueueDesync full (sh_queue_id args) (HeadNotMonotonic (re_t r) (sh_commit_t args)))"
    using nr r by (auto simp: apply_head_def Let_def pop k [symmetric] full [symmetric] s')
  moreover have "s'\<lparr>ns_queues := hm_insert k (e # queue_of s' k) (ns_queues s')\<rparr> = s"
    using q by (simp add: s' queue_of_def hm_insert_same)
  ultimately show ?thesis by simp
qed

lemma apply_head_applied:
  assumes k: "k = ref_key (sh_ledger_id args) (sh_branch args)"
    and full: "full = format_ledger_id (sh_ledger_id args) (sh_branch args)"
    and nr: "k \<notin> ns_retracted s" and kn: "known s k"
    and pop: "pop_validated_front s k full (sh_queue_id args) =
                (s\<lparr>ns_queues := hm_insert k rest (ns_queues s)\<rparr>, Inr e)"
    and adv: "\<forall>r. hm_get (ns_refs s) k = Some r \<longrightarrow>
       re_t r < sh_commit_t args \<or> re_t r = sh_commit_t args \<and> re_head r = sh_commit_id args"
  shows "apply_head s i args = (head_state s k e rest i args,
    HeadApplied full (sh_commit_id args) (sh_commit_t args)
      (if qe_idempotency e = None then Some (qe_request_cid e) else None))"
proof -
  have heal: "self_heal_branch x (sh_ledger_id args) (sh_branch args) = x" if "known x k" for x
    using that by (simp add: k self_heal_known)
  show ?thesis
    using nr adv kn
    by (auto simp: apply_head_def Let_def pop k [symmetric] full [symmetric] drop_queue_consume
        head_state_def heal case_prod_beta record_outcome_def split: option.splits)
qed

text \<open>Every outcome of \<open>apply_head\<close>.\<close>

lemma apply_head_cases:
  assumes "ns_ok s" and k: "k = ref_key (sh_ledger_id args) (sh_branch args)"
    and full: "full = format_ledger_id (sh_ledger_id args) (sh_branch args)"
  obtains (retracted) "k \<in> ns_retracted s" "apply_head s i args = (s, LedgerRetracted full)"
  | (desync) reason where
      "apply_head s i args = (s\<lparr>ns_recently_cleared := hm_remove k (ns_recently_cleared s)\<rparr>,
         QueueDesync full (sh_queue_id args) reason)"
  | (stale) r where "hm_get (ns_refs s) k = Some r" "sh_commit_t args \<le> re_t r"
      "apply_head s i args =
         (s, QueueDesync full (sh_queue_id args) (HeadNotMonotonic (re_t r) (sh_commit_t args)))"
  | (applied) e rest where "k \<notin> ns_retracted s" "known s k"
      "hm_get (ns_queues s) k = Some (e # rest)" "qe_queue_id e = sh_queue_id args"
      "\<forall>r. hm_get (ns_refs s) k = Some r \<longrightarrow>
         re_t r < sh_commit_t args \<or> re_t r = sh_commit_t args \<and> re_head r = sh_commit_id args"
      "apply_head s i args = (head_state s k e rest i args,
         HeadApplied full (sh_commit_id args) (sh_commit_t args)
           (if qe_idempotency e = None then Some (qe_request_cid e) else None))"
proof (cases "k \<in> ns_retracted s")
  case True
  then show ?thesis using retracted by (simp add: apply_head_def k full Let_def)
next
  case nr: False
  obtain s' res where pop: "pop_validated_front s k full (sh_queue_id args) = (s', res)"
    by (cases "pop_validated_front s k full (sh_queue_id args)")
  show ?thesis
  proof (cases res)
    case (Inl resp)
    note p = pop [unfolded Inl]
    obtain reason where "resp = QueueDesync full (sh_queue_id args) reason"
      using pop_validated_front_Inl(2) [OF p] by auto
    then show ?thesis using desync pop_validated_front_Inl(1) [OF p] nr p
      by (simp add: apply_head_def k full Let_def)
  next
    case (Inr e)
    note p = pop [unfolded Inr]
    then obtain rest where q: "hm_get (ns_queues s) k = Some (e # rest)" "qe_queue_id e = sh_queue_id args"
      and s': "s' = s\<lparr>ns_queues := hm_insert k rest (ns_queues s)\<rparr>"
      by (auto simp: pop_validated_front_Inr)
    have kn: "known s k" using ns_okD(5) [OF assms(1) q(1)] by simp
    show ?thesis
    proof (cases "\<exists>r. hm_get (ns_refs s) k = Some r \<and> sh_commit_t args \<le> re_t r \<and>
        \<not> (sh_commit_t args = re_t r \<and> re_head r = sh_commit_id args)")
      case True
      then show ?thesis using stale apply_head_stale [OF k full nr p] by blast
    next
      case False
      then have adv: "\<forall>r. hm_get (ns_refs s) k = Some r \<longrightarrow>
          re_t r < sh_commit_t args \<or> re_t r = sh_commit_t args \<and> re_head r = sh_commit_id args"
        by force
      show ?thesis
        by (rule applied [OF nr kn q adv apply_head_applied [OF k full nr kn p [unfolded s'] adv]])
    qed
  qed
qed

lemma poison_cases:
  assumes k: "k = ref_key (ep_ledger_id args) (ep_branch args)"
    and full: "full = format_ledger_id (ep_ledger_id args) (ep_branch args)"
  obtains (desync) reason where
      "apply_poison_queue_entry s i args =
         (s\<lparr>ns_recently_cleared := hm_remove k (ns_recently_cleared s)\<rparr>, QueueDesync full (ep_queue_id args) reason)"
  | (poisoned) e rest outcome where
      "hm_get (ns_queues s) k = Some (e # rest)" "qe_queue_id e = ep_queue_id args"
      "request_cid outcome = qe_request_cid e" "body_cid outcome = qe_body_cid e"
      "recorded_index outcome = i" "recorded_at_millis outcome = ep_applied_at_millis args"
      "apply_poison_queue_entry s i args =
         (fst (record_outcome (consume_front s k rest) e outcome),
          Poisoned full (ep_queue_id args) (ep_reason args)
            (if qe_idempotency e = None then Some (qe_request_cid e) else None))"
proof -
  obtain s' res where pop: "pop_validated_front s k full (ep_queue_id args) = (s', res)"
    by (cases "pop_validated_front s k full (ep_queue_id args)")
  show ?thesis
  proof (cases res)
    case (Inl resp)
    note p = pop [unfolded Inl]
    obtain reason where "resp = QueueDesync full (ep_queue_id args) reason"
      using pop_validated_front_Inl(2) [OF p] by auto
    then show ?thesis using desync pop_validated_front_Inl(1) [OF p] p
      by (simp add: apply_poison_queue_entry_def k full Let_def)
  next
    case (Inr e)
    note p = pop [unfolded Inr]
    then obtain rest where q: "hm_get (ns_queues s) k = Some (e # rest)" "qe_queue_id e = ep_queue_id args"
      and s': "s' = s\<lparr>ns_queues := hm_insert k rest (ns_queues s)\<rparr>"
      by (auto simp: pop_validated_front_Inr)
    let ?o = "Failed \<lparr>pr_request_cid = qe_request_cid e, pr_body_cid = qe_body_cid e,
        pr_reason = ep_reason args, pr_recorded_index = i, pr_recorded_at_millis = ep_applied_at_millis args\<rparr>"
    have "apply_poison_queue_entry s i args =
         (fst (record_outcome (consume_front s k rest) e ?o),
          Poisoned full (ep_queue_id args) (ep_reason args)
            (if qe_idempotency e = None then Some (qe_request_cid e) else None))"
      by (auto simp: apply_poison_queue_entry_def Let_def p k [symmetric] full [symmetric] s'
          drop_queue_consume case_prod_beta record_outcome_def split: option.splits)
    then show ?thesis by (intro poisoned [OF q, of ?o]) simp_all
  qed
qed

lemma ns_ok_record: "ns_ok s \<Longrightarrow> ns_ok (fst (record_outcome s e out))"
  by (auto simp: record_outcome_def maps_ok_def dest: ns_okD(1) intro!: ns_ok_idempotency split: option.splits)

lemma ns_ok_advance: "ns_ok s \<Longrightarrow> known s k \<Longrightarrow> ns_ok (advance_ref_entry s k i args)"
  by (simp add: advance_ref_entry_def Let_def ns_ok_refs_insert)

lemma ns_ok_apply_head:
  assumes "ns_ok s"
  shows "ns_ok (fst (apply_head s i args))"
proof (rule apply_head_cases [OF assms refl refl, of args i])
  fix e rest
  assume "known s (ref_key (sh_ledger_id args) (sh_branch args))"
    "hm_get (ns_queues s) (ref_key (sh_ledger_id args) (sh_branch args)) = Some (e # rest)"
    "apply_head s i args = (head_state s (ref_key (sh_ledger_id args) (sh_branch args)) e rest i args,
         HeadApplied (format_ledger_id (sh_ledger_id args) (sh_branch args)) (sh_commit_id args) (sh_commit_t args)
           (if qe_idempotency e = None then Some (qe_request_cid e) else None))"
  then show ?thesis
    using assms by (simp add: head_state_def Let_def ns_ok_record ns_ok_advance ns_ok_consume)
qed (use assms in \<open>simp_all add: ns_ok_marker_remove\<close>)

lemma ns_ok_poison:
  assumes "ns_ok s"
  shows "ns_ok (fst (apply_poison_queue_entry s i args))"
  by (rule poison_cases [OF refl refl, of s i args])
    (use assms in \<open>simp_all add: ns_ok_marker_remove ns_ok_record ns_ok_consume\<close>)

lemma evict_keys_ok: "hm_ok m \<Longrightarrow> hm_ok (fst (evict_keys m ks))"
  by (induction m ks rule: evict_keys.induct) (simp_all add: case_prod_beta)

lemma ns_ok_evict: "ns_ok s \<Longrightarrow> ns_ok (fst (apply_evict_idempotency s c m))"
  by (auto simp: apply_evict_idempotency_def Let_def case_prod_beta ns_ok_defs known_def evict_keys_ok
      hm_ok_filter hm_get_filter)

lemmas ns_ok_handlers =
  ns_ok_set_index ns_ok_create_ledger ns_ok_create_branch ns_ok_drop ns_ok_reset_head ns_ok_retract
  ns_ok_purge ns_ok_cas ns_ok_status ns_ok_config ns_ok_graph ns_ok_enqueue ns_ok_apply_head
  ns_ok_poison ns_ok_evict ns_ok_eligibility

lemma ns_ok_apply: "ns_ok s \<Longrightarrow> ns_ok (fst (ns_apply s c i))"
  by (cases c) (simp_all add: ns_ok_handlers advance_index_head_def rewrite_index_head_def)

lemma ns_ok_run: "ns_ok s \<Longrightarrow> ns_ok (ns_run s es)"
  by (induction s es rule: ns_run.induct) (simp_all add: ns_ok_apply)

end
