(* ===== verification/Ns_Heads.thy ===== *)
theory Ns_Heads
  imports Ns_Inv
begin

text \<open>
  How the head of a branch moves: which commands can touch it at all, that its logical time
  never goes back except by an administrative reset, that a tombstone freezes it, and that only an
  administrative reset can leave an index that covers commits the branch does not have.
\<close>

section \<open>Handlers that leave the heads alone\<close>

lemma refs_frame [simp]:
  "ns_refs (fst (retract_ledger s l b m)) = ns_refs s"
  "ns_refs (fst (push_status s lid ex st)) = ns_refs s"
  "ns_refs (fst (push_config s cu)) = ns_refs s"
  "ns_refs (fst (apply_publish_graph_source s n b ty cfg deps)) = ns_refs s"
  "ns_refs (fst (apply_publish_graph_source_index s n b ixid ixt)) = ns_refs s"
  "ns_refs (fst (apply_retract_graph_source s n b)) = ns_refs s"
  "ns_refs (fst (apply_enqueue_command s i qs)) = ns_refs s"
  "ns_refs (fst (apply_evict_idempotency s c mc)) = ns_refs s"
  "ns_refs (fst (apply_set_worker_eligibility s we)) = ns_refs s"
  by (simp_all add: retract_ledger_def push_status_def push_config_def apply_publish_graph_source_def
      apply_publish_graph_source_index_def apply_retract_graph_source_def apply_enqueue_command_def
      append_entry_def apply_evict_idempotency_def apply_set_worker_eligibility_def Let_def
      case_prod_beta split: option.splits)

lemma record_refs [simp]: "ns_refs (fst (record_outcome s e out)) = ns_refs s"
  by (simp add: record_outcome_def split: option.splits)

lemma poison_refs [simp]: "ns_refs (fst (apply_poison_queue_entry s i ep)) = ns_refs s"
  by (rule poison_cases [OF refl refl, of s i ep]) simp_all

lemma retracted_frame [simp]:
  "ns_retracted (fst (push_status s lid ex st)) = ns_retracted s"
  "ns_retracted (fst (push_config s cu)) = ns_retracted s"
  "ns_retracted (fst (apply_publish_graph_source s n b ty cfg deps)) = ns_retracted s"
  "ns_retracted (fst (apply_publish_graph_source_index s n b ixid ixt)) = ns_retracted s"
  "ns_retracted (fst (apply_retract_graph_source s n b)) = ns_retracted s"
  "ns_retracted (fst (apply_enqueue_command s i qs)) = ns_retracted s"
  "ns_retracted (fst (apply_evict_idempotency s c mc)) = ns_retracted s"
  "ns_retracted (fst (apply_set_worker_eligibility s we)) = ns_retracted s"
  "ns_retracted (fst (create_branch s i nb)) = ns_retracted s"
  "ns_retracted (fst (reset_head s l b snap m)) = ns_retracted s"
  "ns_retracted (fst (set_index_head s ni stale)) = ns_retracted s"
  "ns_retracted (fst (apply_compare_and_set_ref s i rc)) = ns_retracted s"
  by (simp_all add: push_status_def push_config_def apply_publish_graph_source_def
      apply_publish_graph_source_index_def apply_retract_graph_source_def apply_enqueue_command_def
      append_entry_def apply_evict_idempotency_def apply_set_worker_eligibility_def Let_def
      create_branch_def reset_head_def set_index_head_def apply_compare_and_set_ref_def
      case_prod_beta split: option.splits RefKind.splits)

lemma record_retracted [simp]: "ns_retracted (fst (record_outcome s e out)) = ns_retracted s"
  by (simp add: record_outcome_def split: option.splits)

lemma advance_retracted [simp]: "ns_retracted (advance_ref_entry s k i sh) = ns_retracted s"
  by (simp add: advance_ref_entry_def Let_def)

lemma head_state_retracted [simp]: "ns_retracted (head_state s k e rest i sh) = ns_retracted s"
  by (simp add: head_state_def Let_def)

lemma poison_retracted [simp]: "ns_retracted (fst (apply_poison_queue_entry s i ep)) = ns_retracted s"
  by (rule poison_cases [OF refl refl, of s i ep]) simp_all

lemma apply_head_retracted [simp]:
  "ns_ok s \<Longrightarrow> ns_retracted (fst (apply_head s i sh)) = ns_retracted s"
  by (rule apply_head_cases [OF _ refl refl, of s sh i]) simp_all

section \<open>What one command does to a head\<close>

text \<open>The new head entry is the old one or a later one.\<close>

definition head_le :: "RefEntry \<Rightarrow> RefEntry \<Rightarrow> bool" where
  "head_le r r' \<longleftrightarrow> re_t r < re_t r' \<or> re_t r = re_t r' \<and> re_head r = re_head r'"

lemma head_le_refl [simp]: "head_le r r"
  by (simp add: head_le_def)

lemma head_le_trans: "head_le a b \<Longrightarrow> head_le b c \<Longrightarrow> head_le a c"
  by (auto simp: head_le_def)

text \<open>The commands that may take a head back: an administrative reset or removal of the branch.\<close>

fun resets :: "RefKey \<Rightarrow> Command \<Rightarrow> bool" where
  "resets k (DropBranch l b _) = (k = ref_key l b)"
| "resets k (PurgeBranch l b _) = (k = ref_key l b)"
| "resets k (ResetHead l b _ _) = (k = ref_key l b)"
| "resets k _ = False"

lemma create_branch_get:
  assumes "ns_ok s" "hm_get (ns_refs s) k = Some r"
  shows "hm_get (ns_refs (fst (create_branch s i nb))) k = Some r \<or>
         hm_get (ns_refs (fst (create_branch s i nb))) k =
           Some (r\<lparr>re_branches := saturating_add (re_branches r) 1\<rparr>)"
proof -
  obtain l b where k: "k = ref_key l b" using ref_key_eq_iff by blast
  have "known s k" using assms by (rule ns_okD(3))
  then show ?thesis using assms(2)
    by (auto simp: k create_branch_def Let_def case_prod_beta branch_known_def split: option.splits)
qed

lemma remove_branch_get_other:
  assumes "hm_get (ns_refs s) k = Some r" "k \<noteq> ref_key l b"
  shows "\<exists>n. hm_get (ns_refs (remove_branch s l b why m)) k = Some (r\<lparr>re_branches := n\<rparr>)"
proof -
  have "\<exists>n. r = r\<lparr>re_branches := n\<rparr>" by (rule exI [of _ "re_branches r"]) simp
  then show ?thesis using assms by (auto simp: remove_branch_get)
qed

lemma reset_head_other:
  "k \<noteq> ref_key l b \<Longrightarrow> hm_get (ns_refs (fst (reset_head s l b snap m))) k = hm_get (ns_refs s) k"
  by (simp add: reset_head_def Let_def case_prod_beta split: option.splits)

lemma set_index_get:
  "hm_get (ns_refs s) k = Some r \<Longrightarrow>
   \<exists>r'. hm_get (ns_refs (fst (set_index_head s ni stale))) k = Some r' \<and> head_le r r'"
  by (auto simp: set_index_head_def Let_def head_le_def split: option.splits)

lemma cas_get:
  "hm_get (ns_refs s) k = Some r \<Longrightarrow>
   \<exists>r'. hm_get (ns_refs (fst (apply_compare_and_set_ref s i rc))) k = Some r' \<and> head_le r r'"
  by (auto simp: apply_compare_and_set_ref_def Let_def current_ref_value_def head_le_def
      split: option.splits RefKind.splits if_splits)

lemma head_state_refs:
  assumes adv: "\<forall>r. hm_get (ns_refs s) k = Some r \<longrightarrow>
       re_t r < sh_commit_t sh \<or> re_t r = sh_commit_t sh \<and> re_head r = sh_commit_id sh"
  shows "j \<noteq> k \<Longrightarrow> hm_get (ns_refs (head_state s k e rest i sh)) j = hm_get (ns_refs s) j"
    and "\<exists>r'. hm_get (ns_refs (head_state s k e rest i sh)) k = Some r' \<and> re_t r' = sh_commit_t sh \<and>
           re_head r' = sh_commit_id sh \<and>
           (\<forall>r. hm_get (ns_refs s) k = Some r \<longrightarrow> re_index r' = re_index r \<and> head_le r r') \<and>
           (hm_get (ns_refs s) k = None \<longrightarrow> re_index r' = None)"
  using adv by (auto simp: head_state_def Let_def advance_ref_entry_def head_le_def split: option.splits)

lemma apply_head_get:
  assumes "ns_ok s" "hm_get (ns_refs s) k = Some r"
  shows "\<exists>r'. hm_get (ns_refs (fst (apply_head s i sh))) k = Some r' \<and> head_le r r'"
proof (rule apply_head_cases [OF assms(1) refl refl, of sh i], goal_cases)
  case (4 e rest)
  then show ?case
    using head_state_refs(1) [OF 4(5), of k e rest i] head_state_refs(2) [OF 4(5), of e rest i] assms(2)
    by (cases "k = ref_key (sh_ledger_id sh) (sh_branch sh)") auto
qed (use assms in auto)

lemma ns_apply_head_le:
  assumes ok: "ns_ok s" and r: "hm_get (ns_refs s) k = Some r" and "\<not> resets k c"
  shows "\<exists>r'. hm_get (ns_refs (fst (ns_apply s c i))) k = Some r' \<and> head_le r r'"
proof (cases c)
  case (CreateBranch nb)
  then show ?thesis using create_branch_get [OF ok r, of i nb] by (auto simp: head_le_def)
next
  case (DropBranch l b m)
  then show ?thesis
    using remove_branch_get_other [OF r, of l b] assms(3) r by (fastforce simp: fst_drop_branch head_le_def)
next
  case (PurgeBranch l b m)
  then show ?thesis
    using remove_branch_get_other [OF r, of l b] assms(3) r by (fastforce simp: fst_purge_branch head_le_def)
qed (use assms set_index_get [OF r] cas_get [OF r] apply_head_get [OF ok r] in
    \<open>auto simp: reset_head_other advance_index_head_def rewrite_index_head_def\<close>)

lemma ns_run_head_le:
  "ns_ok s \<Longrightarrow> hm_get (ns_refs s) k = Some r \<Longrightarrow> \<forall>(i, c) \<in> set es. \<not> resets k c \<Longrightarrow>
   \<exists>r'. hm_get (ns_refs (ns_run s es)) k = Some r' \<and> head_le r r'"
proof (induction s es arbitrary: r rule: ns_run.induct)
  case (2 s i c es)
  obtain r1 where r1: "hm_get (ns_refs (fst (ns_apply s c i))) k = Some r1" "head_le r r1"
    using ns_apply_head_le [OF 2(2,3), of c i] 2(4) by auto
  then obtain r2 where "hm_get (ns_refs (ns_run (fst (ns_apply s c i)) es)) k = Some r2" "head_le r1 r2"
    using 2(1) [OF ns_ok_apply [OF 2(2)] r1(1)] 2(4) by auto
  with r1(2) head_le_trans show ?case by auto
qed auto

section \<open>Tombstones\<close>

text \<open>The commands that end a tombstone: the removal of the branch.\<close>

fun removes :: "RefKey \<Rightarrow> Command \<Rightarrow> bool" where
  "removes k (DropBranch l b _) = (k = ref_key l b)"
| "removes k (PurgeBranch l b _) = (k = ref_key l b)"
| "removes k _ = False"

lemma retracted_kept:
  assumes "ns_ok s" "k \<in> ns_retracted s" "\<not> removes k c"
  shows "k \<in> ns_retracted (fst (ns_apply s c i))"
  using assms
  by (cases c) (auto simp: fst_drop_branch fst_purge_branch advance_index_head_def rewrite_index_head_def
      retract_ledger_def Let_def case_prod_beta)

lemma retracted_absent:
  assumes ok: "ns_ok s" and k: "k \<in> ns_retracted s" "hm_get (ns_refs s) k = None"
  shows "hm_get (ns_refs (fst (ns_apply s c i))) k = None"
proof -
  obtain l b where kl: "k = ref_key l b" using ref_key_eq_iff by blast
  have kn: "branch_known (ns_ledgers s) l b" using ns_okD(4) [OF ok k(1)] by (simp add: kl)
  show ?thesis
  proof (cases c)
    case (CreateBranch nb)
    then show ?thesis using kn k(2)
      by (auto simp: kl create_branch_def Let_def case_prod_beta branch_known_def split: option.splits)
  next
    case (ResetHead l b snap m)
    then show ?thesis using k by (auto simp: reset_head_def Let_def case_prod_beta split: option.splits)
  next
    case (ApplyHead sh)
    have "hm_get (ns_refs (fst (apply_head s i sh))) k = None"
    proof (rule apply_head_cases [OF ok refl refl, of sh i], goal_cases)
      case (4 e rest)
      then show ?case using head_state_refs(1) [OF 4(5), of k e rest i] k by auto
    qed (use k in auto)
    then show ?thesis by (simp add: ApplyHead)
  qed (use k in \<open>auto simp: fst_drop_branch fst_purge_branch remove_branch_get advance_index_head_def
        rewrite_index_head_def set_index_head_def apply_compare_and_set_ref_def Let_def
        split: option.splits RefKind.splits\<close>)
qed

lemma retracted_frozen:
  assumes ok: "ns_ok s" and k: "k \<in> ns_retracted s" "\<not> removes k c"
    and r: "hm_get (ns_refs s) k = Some r"
  shows "\<exists>n. hm_get (ns_refs (fst (ns_apply s c i))) k = Some (r\<lparr>re_branches := n\<rparr>)"
proof -
  have same: "\<exists>n. r = r\<lparr>re_branches := n\<rparr>" by (rule exI [of _ "re_branches r"]) simp
  show ?thesis
  proof (cases c)
    case (CreateBranch nb)
    then show ?thesis using create_branch_get [OF ok r, of i nb] same by auto
  next
    case (DropBranch l b m)
    then show ?thesis
      using remove_branch_get_other [OF r, of l b] k(2) r same by (auto simp: fst_drop_branch)
  next
    case (PurgeBranch l b m)
    then show ?thesis
      using remove_branch_get_other [OF r, of l b] k(2) r same by (auto simp: fst_purge_branch)
  next
    case (ResetHead l b snap m)
    then show ?thesis using k r same by (auto simp: reset_head_def Let_def case_prod_beta split: option.splits)
  next
    case (ApplyHead sh)
    have "hm_get (ns_refs (fst (apply_head s i sh))) k = Some r"
    proof (rule apply_head_cases [OF ok refl refl, of sh i], goal_cases)
      case (4 e rest)
      then show ?case using head_state_refs(1) [OF 4(5), of k e rest i] k r by auto
    qed (use k r in auto)
    then show ?thesis using same by (simp add: ApplyHead)
  qed (use k r same in \<open>auto simp: advance_index_head_def rewrite_index_head_def set_index_head_def
        apply_compare_and_set_ref_def Let_def split: option.splits RefKind.splits\<close>)
qed

definition frozen_as :: "NameServiceState \<Rightarrow> RefKey \<Rightarrow> RefEntry option \<Rightarrow> bool" where
  "frozen_as s k e \<longleftrightarrow> k \<in> ns_retracted s \<and>
     (case e of None \<Rightarrow> hm_get (ns_refs s) k = None
      | Some r \<Rightarrow> \<exists>n. hm_get (ns_refs s) k = Some (r\<lparr>re_branches := n\<rparr>))"

lemma frozen_step:
  assumes "ns_ok s" "frozen_as s k e" "\<not> removes k c"
  shows "frozen_as (fst (ns_apply s c i)) k e"
proof (cases e)
  case None
  with assms show ?thesis by (simp add: frozen_as_def retracted_kept retracted_absent)
next
  case (Some r)
  then obtain n where n: "hm_get (ns_refs s) k = Some (r\<lparr>re_branches := n\<rparr>)" "k \<in> ns_retracted s"
    using assms(2) by (auto simp: frozen_as_def)
  then show ?thesis using retracted_frozen [OF assms(1) n(2) assms(3) n(1), of i] assms Some
    by (simp add: frozen_as_def retracted_kept)
qed

lemma frozen_run:
  "ns_ok s \<Longrightarrow> frozen_as s k e \<Longrightarrow> \<forall>(i, c) \<in> set es. \<not> removes k c \<Longrightarrow> frozen_as (ns_run s es) k e"
  by (induction s es rule: ns_run.induct) (simp_all add: frozen_step ns_ok_apply)

section \<open>What puts the index ahead of the commits\<close>

definition index_ahead :: "NameServiceState \<Rightarrow> RefKey \<Rightarrow> bool" where
  "index_ahead s k \<longleftrightarrow> (\<exists>r ix. hm_get (ns_refs s) k = Some r \<and> re_index r = Some ix \<and> re_t r < ix_t ix)"

text \<open>A reset of a branch to a snapshot whose index is past its commit, and the answer that it was done.\<close>

fun ahead_reset :: "RefKey \<Rightarrow> Command \<Rightarrow> bool" where
  "ahead_reset k (ResetHead l b snap _) =
     (ref_key l b = k \<and> rs_commit_head_id snap \<noteq> None \<and> rs_index_head_id snap \<noteq> None \<and> rs_commit_t snap < rs_index_t snap)"
| "ahead_reset k _ = False"

fun was_reset :: "Response \<Rightarrow> bool" where
  "was_reset (HeadReset _ _) = True"
| "was_reset _ = False"

lemma index_behindD: "\<not> index_ahead s k \<Longrightarrow> hm_get (ns_refs s) k = Some r \<Longrightarrow> re_index r = Some ix \<Longrightarrow> ix_t ix \<le> re_t r"
  by (auto simp: index_ahead_def)

lemma index_behind_remove: "\<not> index_ahead s k \<Longrightarrow> \<not> index_ahead (remove_branch s l b why m) k"
  by (auto simp: index_ahead_def remove_branch_get split: if_splits option.splits)

lemma index_behind_create: "\<not> index_ahead s k \<Longrightarrow> \<not> index_ahead (fst (create_branch s i nb)) k"
  by (auto simp: index_ahead_def create_branch_def Let_def case_prod_beta split: option.splits if_splits)

lemma index_ahead_reset:
  "\<not> index_ahead s k \<Longrightarrow>
   index_ahead (fst (reset_head s l b snap m)) k \<longleftrightarrow> ahead_reset k (ResetHead l b snap m) \<and> was_reset (snd (reset_head s l b snap m))"
  by (auto simp: index_ahead_def reset_head_def Let_def case_prod_beta split: option.splits if_splits)

lemma index_behind_set: "\<not> index_ahead s k \<Longrightarrow> \<not> index_ahead (fst (set_index_head s ni stale)) k"
  by (auto simp: set_index_head_def Let_def index_ahead_def split: option.splits if_splits)

lemma index_behind_cas: "\<not> index_ahead s k \<Longrightarrow> \<not> index_ahead (fst (apply_compare_and_set_ref s i rc)) k"
  by (auto simp: apply_compare_and_set_ref_def Let_def current_ref_value_def index_ahead_def
      split: option.splits RefKind.splits if_splits)

lemma index_behind_apply_head:
  assumes ok: "ns_ok s" and ix: "\<not> index_ahead s k"
  shows "\<not> index_ahead (fst (apply_head s i sh)) k"
proof (rule apply_head_cases [OF ok refl refl, of sh i], goal_cases)
  case (4 e rest)
  let ?k = "ref_key (sh_ledger_id sh) (sh_branch sh)" and ?s = "head_state s (ref_key (sh_ledger_id sh) (sh_branch sh)) e rest i sh"
  obtain r' where r': "hm_get (ns_refs ?s) ?k = Some r'"
    "\<forall>r. hm_get (ns_refs s) ?k = Some r \<longrightarrow> re_index r' = re_index r \<and> head_le r r'"
    "hm_get (ns_refs s) ?k = None \<longrightarrow> re_index r' = None"
    using head_state_refs(2) [OF 4(5), of e rest i] by auto
  have "ix_t x \<le> re_t r'" if "k = ?k" "re_index r' = Some x" for x
    using that r'(2,3) index_behindD [OF ix] by (cases "hm_get (ns_refs s) ?k") (force simp: head_le_def)+
  then have "\<not> index_ahead ?s k"
    using r'(1) head_state_refs(1) [OF 4(5), of k e rest i] ix
    by (cases "k = ?k") (auto simp: index_ahead_def)
  with 4 show ?case by simp
qed (use ix in \<open>simp_all add: index_ahead_def\<close>)

lemma index_ahead_step:
  assumes "ns_ok s" "\<not> index_ahead s k"
  shows "index_ahead (fst (ns_apply s c i)) k \<longleftrightarrow> ahead_reset k c \<and> was_reset (snd (ns_apply s c i))"
proof -
  have frame: "\<not> index_ahead s' k" if "ns_refs s' = ns_refs s" for s'
    using that assms(2) by (simp add: index_ahead_def)
  show ?thesis
    using assms
    by (cases c) (simp_all add: frame index_behind_remove index_behind_create index_ahead_reset
        index_behind_set index_behind_cas index_behind_apply_head fst_drop_branch fst_purge_branch
        advance_index_head_def rewrite_index_head_def del: ahead_reset.simps(1))
qed

end
