(* ===== verification/Ns_Queue.thy ===== *)
theory Ns_Queue
  imports Ns_Heads
begin

text \<open>
  The per-branch request queues: how one command changes them, that their ids are assigned in
  order and used once, the depth caps, and the idempotency cache behind them.
\<close>

section \<open>How one command changes the queues\<close>

lemma queues_frame [simp]:
  "ns_queues (fst (push_status s lid ex st)) = ns_queues s"
  "ns_queues (fst (push_config s cu)) = ns_queues s"
  "ns_queues (fst (apply_publish_graph_source s n b ty cfg deps)) = ns_queues s"
  "ns_queues (fst (apply_publish_graph_source_index s n b ixid ixt)) = ns_queues s"
  "ns_queues (fst (apply_retract_graph_source s n b)) = ns_queues s"
  "ns_queues (fst (apply_evict_idempotency s c mc)) = ns_queues s"
  "ns_queues (fst (apply_set_worker_eligibility s we)) = ns_queues s"
  "ns_queues (fst (create_branch s i nb)) = ns_queues s"
  "ns_queues (fst (set_index_head s ni stale)) = ns_queues s"
  "ns_queues (fst (apply_compare_and_set_ref s i rc)) = ns_queues s"
  by (simp_all add: push_status_def push_config_def apply_publish_graph_source_def
      apply_publish_graph_source_index_def apply_retract_graph_source_def
      apply_evict_idempotency_def apply_set_worker_eligibility_def Let_def
      create_branch_def set_index_head_def apply_compare_and_set_ref_def
      case_prod_beta split: option.splits RefKind.splits)

lemma next_id_frame [simp]:
  "ns_next_queue_id (fst (push_status s lid ex st)) = ns_next_queue_id s"
  "ns_next_queue_id (fst (push_config s cu)) = ns_next_queue_id s"
  "ns_next_queue_id (fst (apply_publish_graph_source s n b ty cfg deps)) = ns_next_queue_id s"
  "ns_next_queue_id (fst (apply_publish_graph_source_index s n b ixid ixt)) = ns_next_queue_id s"
  "ns_next_queue_id (fst (apply_retract_graph_source s n b)) = ns_next_queue_id s"
  "ns_next_queue_id (fst (apply_evict_idempotency s c mc)) = ns_next_queue_id s"
  "ns_next_queue_id (fst (apply_set_worker_eligibility s we)) = ns_next_queue_id s"
  "ns_next_queue_id (fst (create_branch s i nb)) = ns_next_queue_id s"
  "ns_next_queue_id (fst (create_ledger s i nl)) = ns_next_queue_id s"
  "ns_next_queue_id (fst (set_index_head s ni stale)) = ns_next_queue_id s"
  "ns_next_queue_id (fst (apply_compare_and_set_ref s i rc)) = ns_next_queue_id s"
  "ns_next_queue_id (fst (retract_ledger s l b m)) = ns_next_queue_id s"
  "ns_next_queue_id (fst (reset_head s l b snap m)) = ns_next_queue_id s"
  by (simp_all add: push_status_def push_config_def apply_publish_graph_source_def
      apply_publish_graph_source_index_def apply_retract_graph_source_def create_ledger_def
      apply_evict_idempotency_def apply_set_worker_eligibility_def Let_def retract_ledger_def
      create_branch_def set_index_head_def apply_compare_and_set_ref_def reset_head_def
      case_prod_beta split: option.splits RefKind.splits)

lemma queue_of_update [simp]:
  "queue_of (s\<lparr>ns_refs := x\<rparr>) k = queue_of s k"
  "queue_of (s\<lparr>ns_recently_cleared := z\<rparr>) k = queue_of s k"
  "queue_of (s\<lparr>ns_idempotency := w\<rparr>) k = queue_of s k"
  by (simp_all add: queue_of_def)

lemma queue_of_cong: "ns_queues s' = ns_queues s \<Longrightarrow> queue_of s' k = queue_of s k"
  by (simp add: queue_of_def)

lemma queue_of_cleared:
  "ns_queues s' = hm_remove k (ns_queues s) \<Longrightarrow> queue_of s' j = (if j = k then [] else queue_of s j)"
  by (simp add: queue_of_def)

lemma queue_of_consume: "queue_of (consume_front s k rest) j = (if j = k then rest else queue_of s j)"
  by (simp add: queue_of_def consume_front_def)

lemma record_queues [simp]:
  "ns_queues (fst (record_outcome s e out)) = ns_queues s"
  "ns_next_queue_id (fst (record_outcome s e out)) = ns_next_queue_id s"
  "ns_queue_config (fst (record_outcome s e out)) = ns_queue_config s"
  by (simp_all add: record_outcome_def split: option.splits)

lemma head_state_queue [simp]:
  "queue_of (head_state s k e rest i sh) j = (if j = k then rest else queue_of s j)"
  "ns_next_queue_id (head_state s k e rest i sh) = ns_next_queue_id s"
  "ns_queue_config (head_state s k e rest i sh) = ns_queue_config s"
proof -
  have "ns_queues (head_state s k e rest i sh) = ns_queues (consume_front s k rest)"
    by (simp add: head_state_def Let_def advance_ref_entry_def)
  then show "queue_of (head_state s k e rest i sh) j = (if j = k then rest else queue_of s j)"
    using queue_of_cong queue_of_consume by metis
qed (simp_all add: head_state_def Let_def advance_ref_entry_def)

text \<open>The entry a submission appends.\<close>

definition new_entry :: "NameServiceState \<Rightarrow> u64 \<Rightarrow> QueueSubmission \<Rightarrow> QueueEntry" where
  "new_entry s i qs =
     \<lparr>qe_queue_id = ns_next_queue_id s, qe_enqueued_index = i,
      qe_enqueued_at_millis = qs_applied_at_millis qs, qe_idempotency = qs_idempotency qs,
      qe_request_cid = qs_request_cid qs, qe_body_cid = qs_body_cid qs, qe_body_kind = qs_body_kind qs\<rparr>"

abbreviation sub_key :: "QueueSubmission \<Rightarrow> RefKey" where
  "sub_key qs \<equiv> ref_key (qs_ledger_id qs) (qs_branch qs)"

text \<open>Every outcome of \<open>apply_enqueue_command\<close>: either nothing changes, or one entry is appended.\<close>

lemma enqueue_cases:
  obtains (kept) resp where "apply_enqueue_command s i qs = (s, resp)" "\<And>full q. resp \<noteq> Enqueued full q"
  | (appended) "apply_enqueue_command s i qs =
        (s\<lparr>ns_recently_cleared := hm_remove (sub_key qs) (ns_recently_cleared s),
           ns_next_queue_id := ns_next_queue_id s + 1,
           ns_queues := hm_insert (sub_key qs) (queue_of s (sub_key qs) @ [new_entry s i qs]) (ns_queues s)\<rparr>,
         Enqueued (format_ledger_id (qs_ledger_id qs) (qs_branch qs)) (ns_next_queue_id s))"
      "known s (sub_key qs)" "sub_key qs \<notin> ns_retracted s"
      "\<And>ck. qs_idempotency qs = Some ck \<Longrightarrow> hm_get (ns_idempotency s) ck = None \<and>
          (\<forall>e \<in> set (queue_of s (sub_key qs)). qe_idempotency e \<noteq> Some ck)"
      "length (queue_of s (sub_key qs)) < per_branch_cap (ns_queue_config s)"
      "global_depth s < global_cap (ns_queue_config s)"
proof (cases "\<exists>full q. snd (apply_enqueue_command s i qs) = Enqueued full q")
  case False
  then have "fst (apply_enqueue_command s i qs) = s"
    by (auto simp: apply_enqueue_command_def append_entry_def Let_def split: option.splits if_splits)
  with False show ?thesis using kept [of "snd (apply_enqueue_command s i qs)"] by (simp add: prod_eq_iff)
next
  case True
  have dedup: "(case qs_idempotency qs of
      Some ck \<Rightarrow> enqueue_dedup s (sub_key qs) (format_ledger_id (qs_ledger_id qs) (qs_branch qs)) ck (qs_body_cid qs)
    | None \<Rightarrow> None) = None"
    and checks: "known s (sub_key qs)" "sub_key qs \<notin> ns_retracted s"
      "length (queue_of s (sub_key qs)) < per_branch_cap (ns_queue_config s)"
      "global_depth s < global_cap (ns_queue_config s)"
    and res: "apply_enqueue_command s i qs = append_entry s i qs"
    using True
    by (auto simp: apply_enqueue_command_def enqueue_dedup_def Let_def
        split: option.splits if_splits ApplyOutcome.splits)
  show ?thesis
  proof (rule appended)
    show "apply_enqueue_command s i qs = (s\<lparr>ns_recently_cleared := hm_remove (sub_key qs) (ns_recently_cleared s),
           ns_next_queue_id := ns_next_queue_id s + 1,
           ns_queues := hm_insert (sub_key qs) (queue_of s (sub_key qs) @ [new_entry s i qs]) (ns_queues s)\<rparr>,
         Enqueued (format_ledger_id (qs_ledger_id qs) (qs_branch qs)) (ns_next_queue_id s))"
      by (simp add: res append_entry_def new_entry_def Let_def)
    show "hm_get (ns_idempotency s) ck = None \<and>
        (\<forall>e \<in> set (queue_of s (sub_key qs)). qe_idempotency e \<noteq> Some ck)"
      if "qs_idempotency qs = Some ck" for ck
      using dedup that
      by (auto simp: enqueue_dedup_def find_None_iff split: option.splits if_splits ApplyOutcome.splits)
  qed (use checks in auto)
qed

text \<open>The queues after a command that is not a successful submission: each lost a prefix.\<close>

definition shrunk :: "NameServiceState \<Rightarrow> NameServiceState \<Rightarrow> bool" where
  "shrunk s s' \<longleftrightarrow> ns_next_queue_id s' = ns_next_queue_id s \<and> (\<forall>k. \<exists>n. queue_of s' k = drop n (queue_of s k))"

lemma shrunk_same: "ns_queues s' = ns_queues s \<Longrightarrow> ns_next_queue_id s' = ns_next_queue_id s \<Longrightarrow> shrunk s s'"
  by (auto simp: shrunk_def queue_of_def intro!: exI [of _ 0])

lemma shrunk_clear:
  assumes "ns_queues s' = hm_remove k (ns_queues s)" "ns_next_queue_id s' = ns_next_queue_id s"
  shows "shrunk s s'"
proof -
  have "\<exists>n. queue_of s' j = drop n (queue_of s j)" for j
    using queue_of_cleared [OF assms(1), of j]
    by (auto intro: exI [of _ "if j = k then length (queue_of s j) else 0"])
  with assms(2) show ?thesis by (simp add: shrunk_def)
qed

lemma shrunk_pop:
  assumes "hm_get (ns_queues s) k = Some (e # rest)" "ns_next_queue_id s' = ns_next_queue_id s"
    and "\<And>j. queue_of s' j = (if j = k then rest else queue_of s j)"
  shows "shrunk s s'"
proof -
  have "\<exists>n. queue_of s' j = drop n (queue_of s j)" for j
    using assms(1,3) by (auto simp: queue_of_def intro: exI [of _ "if j = k then 1 else 0"])
  with assms(2) show ?thesis by (simp add: shrunk_def)
qed

lemma shrunk_retract: "shrunk s (fst (retract_ledger s l b m))"
proof (cases "branch_known (ns_ledgers s) l b \<and> ref_key l b \<notin> ns_retracted s")
  case True
  then show ?thesis
    by (intro shrunk_clear [of _ "ref_key l b"]) (simp_all add: retract_ledger_def Let_def case_prod_beta)
qed (auto simp: retract_ledger_def Let_def intro: shrunk_same)

lemma shrunk_reset: "shrunk s (fst (reset_head s l b snap m))"
proof (cases "branch_known (ns_ledgers s) l b \<and> ref_key l b \<notin> ns_retracted s")
  case True
  then show ?thesis
    by (intro shrunk_clear [of _ "ref_key l b"]) (simp_all add: reset_head_def Let_def case_prod_beta)
qed (auto simp: reset_head_def Let_def intro: shrunk_same)

lemma shrunk_remove: "shrunk s (remove_branch s l b why m)"
  by (intro shrunk_clear [of _ "ref_key l b"]) simp_all

lemma shrunk_apply_head: "ns_ok s \<Longrightarrow> shrunk s (fst (apply_head s i sh))"
  by (rule apply_head_cases [OF _ refl refl, of s sh i]) (auto intro: shrunk_same shrunk_pop)

lemma shrunk_poison: "shrunk s (fst (apply_poison_queue_entry s i ep))"
proof (rule poison_cases [OF refl refl, of s i ep], goal_cases)
  case (2 e rest out)
  have "queue_of (fst (record_outcome (consume_front s k rest) e out)) j = (if j = k then rest else queue_of s j)" for k j
    using queue_of_cong [OF record_queues(1)] queue_of_consume by metis
  with 2 show ?case by (intro shrunk_pop [OF 2(1)]) simp_all
qed (simp add: shrunk_same)

lemma queue_step:
  assumes "ns_ok s"
  obtains (shrink) "shrunk s (fst (ns_apply s c i))" "\<And>full q. snd (ns_apply s c i) \<noteq> Enqueued full q \<or> (\<forall>qs. c \<noteq> EnqueueCommand qs)"
  | (append) qs where "c = EnqueueCommand qs"
      "snd (ns_apply s c i) = Enqueued (format_ledger_id (qs_ledger_id qs) (qs_branch qs)) (ns_next_queue_id s)"
      "\<And>k. queue_of (fst (ns_apply s c i)) k =
         (if k = sub_key qs then queue_of s k @ [new_entry s i qs] else queue_of s k)"
      "ns_next_queue_id (fst (ns_apply s c i)) = ns_next_queue_id s + 1"
      "ns_idempotency (fst (ns_apply s c i)) = ns_idempotency s"
      "\<And>ck. qs_idempotency qs = Some ck \<Longrightarrow> hm_get (ns_idempotency s) ck = None \<and>
          (\<forall>e \<in> set (queue_of s (sub_key qs)). qe_idempotency e \<noteq> Some ck)"
      "length (queue_of s (sub_key qs)) < per_branch_cap (ns_queue_config s)"
      "global_depth s < global_cap (ns_queue_config s)"
proof (cases "\<exists>qs. c = EnqueueCommand qs")
  case True
  then obtain qs where c: "c = EnqueueCommand qs" by auto
  show ?thesis
  proof (rule enqueue_cases [of s i qs], goal_cases)
    case (1 resp)
    then show ?case using c shrink by (simp add: shrunk_same)
  next
    case 2
    show ?case by (rule append [OF c]) (use 2 c in \<open>auto simp: queue_of_def\<close>)
  qed
next
  case False
  have "shrunk s (fst (ns_apply s c i))"
    using False assms
    by (cases c) (auto simp: shrunk_retract shrunk_reset shrunk_apply_head shrunk_poison fst_drop_branch
        fst_purge_branch shrunk_remove advance_index_head_def rewrite_index_head_def intro: shrunk_same)
  with False show ?thesis by (intro shrink) auto
qed

section \<open>Queue ids\<close>

text \<open>
  Each queue holds strictly increasing ids below the generator.  The generator is a wrapping
  \<open>u64\<close>; \<open>n\<close> bounds the number of submissions so far.
\<close>

definition ids_ok :: "NameServiceState \<Rightarrow> nat \<Rightarrow> bool" where
  "ids_ok s n \<longleftrightarrow> unat (ns_next_queue_id s) \<le> n \<and>
     (\<forall>k. sorted_wrt (<) (map qe_queue_id (queue_of s k)) \<and>
          (\<forall>e \<in> set (queue_of s k). qe_queue_id e < ns_next_queue_id s))"

text \<open>An id that has been used up: assigned, and no longer in its branch's queue.\<close>

definition used_up :: "NameServiceState \<Rightarrow> RefKey \<Rightarrow> u64 \<Rightarrow> bool" where
  "used_up s k q \<longleftrightarrow> q < ns_next_queue_id s \<and> q \<notin> qe_queue_id ` set (queue_of s k)"

lemma succ_no_wrap:
  assumes "unat (w :: u64) < 2 ^ 64 - 1"
  shows "w < w + 1" "unat (w + 1) = Suc (unat w)"
proof -
  show "unat (w + 1) = Suc (unat w)" using assms by (simp add: unat_word_ariths)
  then show "w < w + 1" by (simp add: word_less_nat_alt)
qed

lemma ids_ok_step:
  assumes "ns_ok s" "ids_ok s n" "n < 2 ^ 64 - 1"
  shows "ids_ok (fst (ns_apply s c i)) (Suc n)"
proof (rule queue_step [OF assms(1), of c i])
  assume sh: "shrunk s (fst (ns_apply s c i))"
  have "sorted_wrt (<) (map qe_queue_id (drop m (queue_of s k)))" for m k
    using assms(2) by (simp add: ids_ok_def drop_map [symmetric] sorted_wrt_drop)
  then show ?thesis
    using assms(2) sh unfolding ids_ok_def shrunk_def by (metis in_set_dropD le_SucI)
next
  fix qs
  assume ap: "\<And>k. queue_of (fst (ns_apply s c i)) k =
      (if k = sub_key qs then queue_of s k @ [new_entry s i qs] else queue_of s k)"
    "ns_next_queue_id (fst (ns_apply s c i)) = ns_next_queue_id s + 1"
  have w: "ns_next_queue_id s < ns_next_queue_id s + 1" "unat (ns_next_queue_id s + 1) = Suc (unat (ns_next_queue_id s))"
    using assms(2,3) succ_no_wrap by (auto simp: ids_ok_def)
  have lt: "qe_queue_id e < ns_next_queue_id s + 1" if "e \<in> set (queue_of s k)" for e k
    using that assms(2) w(1) by (meson ids_ok_def less_trans)
  show ?thesis
    using assms(2) w lt by (auto simp: ids_ok_def ap new_entry_def sorted_wrt_append)
qed

lemma ids_ok_new: "ids_ok new_state 0"
  by (simp add: ids_ok_def new_state_def queue_of_def)

lemma ids_ok_run:
  "ns_ok s \<Longrightarrow> ids_ok s n \<Longrightarrow> n + length es < 2 ^ 64 \<Longrightarrow> ids_ok (ns_run s es) (n + length es)"
proof (induction s es arbitrary: n rule: ns_run.induct)
  case (2 s i c es)
  have "ids_ok (fst (ns_apply s c i)) (Suc n)" using 2 by (intro ids_ok_step) simp_all
  then show ?case using 2(1) [of "Suc n"] 2 by (simp add: ns_ok_apply)
qed simp

lemma used_up_step:
  assumes "ns_ok s" "ids_ok s n" "n < 2 ^ 64 - 1" "used_up s k q"
  shows "used_up (fst (ns_apply s c i)) k q"
proof (rule queue_step [OF assms(1), of c i])
  assume "shrunk s (fst (ns_apply s c i))"
  then show ?thesis using assms(4) unfolding used_up_def shrunk_def by (metis (mono_tags, lifting) image_iff in_set_dropD)
next
  fix qs
  assume ap: "\<And>k. queue_of (fst (ns_apply s c i)) k =
      (if k = sub_key qs then queue_of s k @ [new_entry s i qs] else queue_of s k)"
    "ns_next_queue_id (fst (ns_apply s c i)) = ns_next_queue_id s + 1"
  have "ns_next_queue_id s < ns_next_queue_id s + 1"
    using assms(2,3) succ_no_wrap by (auto simp: ids_ok_def)
  then show ?thesis using assms(4) by (auto simp: used_up_def ap new_entry_def)
qed

lemma used_up_run:
  "ns_ok s \<Longrightarrow> ids_ok s n \<Longrightarrow> n + length es < 2 ^ 64 \<Longrightarrow> used_up s k q \<Longrightarrow> used_up (ns_run s es) k q"
proof (induction s es arbitrary: n rule: ns_run.induct)
  case (2 s i c es)
  have "ids_ok (fst (ns_apply s c i)) (Suc n)" using 2 by (intro ids_ok_step) simp_all
  moreover have "used_up (fst (ns_apply s c i)) k q" using 2 by (intro used_up_step [of _ n]) simp_all
  ultimately show ?case using 2(1) [of "Suc n"] 2 by (simp add: ns_ok_apply)
qed simp

end
