(* ===== verification/Ns_Cache.thy ===== *)
theory Ns_Cache
  imports Ns_Queue
begin

text \<open>
  The depth caps of the queues and the idempotency cache: a cached outcome stays until it is
  evicted, a keyed request is in the queues or in the cache at most once, and the eviction
  batch is the oldest part of the cache whatever the iteration order of the map.
\<close>

section \<open>Depth caps\<close>

lemma config_step: "ns_queue_config (fst (ns_apply s c i)) = ns_queue_config s"
proof (cases c)
  case (ApplyHead sh)
  then show ?thesis
    by (auto simp: apply_head_def pop_validated_front_def Let_def case_prod_beta drop_queue_if_empty_def
        advance_ref_entry_def self_heal_branch_def split: option.splits list.splits sum.splits)
next
  case (PoisonQueueEntry ep)
  then show ?thesis by (rule_tac poison_cases [OF refl refl, of s i ep]) simp_all
next
  case (EnqueueCommand qs)
  then show ?thesis by (rule_tac enqueue_cases [of s i qs]) simp_all
qed (auto simp: fst_drop_branch fst_purge_branch advance_index_head_def rewrite_index_head_def
    set_index_head_def create_ledger_def create_branch_def reset_head_def retract_ledger_def
    apply_compare_and_set_ref_def push_status_def push_config_def apply_publish_graph_source_def
    apply_publish_graph_source_index_def apply_retract_graph_source_def apply_evict_idempotency_def
    apply_set_worker_eligibility_def Let_def case_prod_beta split: option.splits RefKind.splits)

lemma global_depth_keys:
  assumes "ns_ok s" "finite K" "fst ` set (ns_queues s) \<subseteq> K"
  shows "global_depth s = (\<Sum>k \<in> K. length (queue_of s k))"
proof -
  have "global_depth s = hm_sum length (ns_queues s)"
    by (simp add: global_depth_def hm_sum_def comp_def case_prod_unfold)
  also have "\<dots> = (\<Sum>k \<in> K. hm_at length (ns_queues s) k)"
    using assms ns_okD(1) [OF assms(1)] by (intro hm_sum_keys) (simp_all add: maps_ok_def)
  also have "\<dots> = (\<Sum>k \<in> K. length (queue_of s k))"
    by (intro sum.cong) (auto simp: hm_at_def queue_of_def split: option.splits)
  finally show ?thesis .
qed

definition caps_ok :: "NameServiceState \<Rightarrow> bool" where
  "caps_ok s \<longleftrightarrow>
     (\<forall>k. length (queue_of s k) \<le> per_branch_cap (ns_queue_config s)) \<and>
     global_depth s \<le> global_cap (ns_queue_config s)"

lemma caps_ok_step:
  assumes ok: "ns_ok s" and caps: "caps_ok s"
  shows "caps_ok (fst (ns_apply s c i))"
proof -
  define s' where "s' = fst (ns_apply s c i)"
  have ok': "ns_ok s'" using ok by (simp add: s'_def ns_ok_apply)
  define K where "K = fst ` set (ns_queues s) \<union> fst ` set (ns_queues s')"
  have K: "finite K" by (simp add: K_def)
  have d: "global_depth s = (\<Sum>k \<in> K. length (queue_of s k))"
    "global_depth s' = (\<Sum>k \<in> K. length (queue_of s' k))"
    using ok ok' K by (auto simp: K_def intro!: global_depth_keys)
  have cfg: "ns_queue_config s' = ns_queue_config s" by (simp add: s'_def config_step)
  show ?thesis
  proof (rule queue_step [OF ok, of c i], goal_cases)
    case 1
    then have le: "length (queue_of s' k) \<le> length (queue_of s k)" for k
      unfolding shrunk_def s'_def by (metis diff_le_self length_drop)
    then have "global_depth s' \<le> global_depth s" unfolding d by (simp add: sum_mono)
    with le caps show ?thesis unfolding s'_def [symmetric] caps_ok_def cfg by (meson le_trans)
  next
    case (2 qs)
    have q: "length (queue_of s' k) = length (queue_of s k) + (if k = sub_key qs then 1 else 0)" for k
      using 2(3) by (simp add: s'_def)
    have "(\<Sum>k \<in> K. (if k = sub_key qs then 1 else 0 :: nat)) \<le> 1"
      using K by (simp add: sum.delta)
    then have "global_depth s' \<le> global_depth s + 1" unfolding d by (simp add: q sum.distrib)
    then show ?thesis using caps 2(7,8) q unfolding s'_def [symmetric] caps_ok_def cfg
      by (auto split: if_splits)
  qed
qed

lemma caps_ok_run: "ns_ok s \<Longrightarrow> caps_ok s \<Longrightarrow> caps_ok (ns_run s es)"
  by (induction s es rule: ns_run.induct) (simp_all add: caps_ok_step ns_ok_apply)

section \<open>How one command changes the cache\<close>

lemma cache_frame [simp]:
  "ns_idempotency (fst (push_status s lid ex st)) = ns_idempotency s"
  "ns_idempotency (fst (push_config s cu)) = ns_idempotency s"
  "ns_idempotency (fst (apply_publish_graph_source s n b ty cfg deps)) = ns_idempotency s"
  "ns_idempotency (fst (apply_publish_graph_source_index s n b ixid ixt)) = ns_idempotency s"
  "ns_idempotency (fst (apply_retract_graph_source s n b)) = ns_idempotency s"
  "ns_idempotency (fst (apply_set_worker_eligibility s we)) = ns_idempotency s"
  "ns_idempotency (fst (create_branch s i nb)) = ns_idempotency s"
  "ns_idempotency (fst (set_index_head s ni stale)) = ns_idempotency s"
  "ns_idempotency (fst (apply_compare_and_set_ref s i rc)) = ns_idempotency s"
  "ns_idempotency (fst (retract_ledger s l b m)) = ns_idempotency s"
  "ns_idempotency (fst (reset_head s l b snap m)) = ns_idempotency s"
  by (simp_all add: push_status_def push_config_def apply_publish_graph_source_def
      apply_publish_graph_source_index_def apply_retract_graph_source_def
      apply_set_worker_eligibility_def Let_def retract_ledger_def
      create_branch_def set_index_head_def apply_compare_and_set_ref_def reset_head_def
      case_prod_beta split: option.splits RefKind.splits)

lemma enqueue_cache [simp]: "ns_idempotency (fst (apply_enqueue_command s i qs)) = ns_idempotency s"
  by (rule enqueue_cases [of s i qs]) simp_all

fun is_evict :: "Command \<Rightarrow> bool" where
  "is_evict (EvictIdempotency _ _) = True"
| "is_evict _ = False"

text \<open>An outcome recorded for the popped entry: what the cache then knows about it.\<close>

definition outcome_of :: "QueueEntry \<Rightarrow> u64 \<Rightarrow> ApplyOutcome \<Rightarrow> bool" where
  "outcome_of e i out \<longleftrightarrow>
     request_cid out = qe_request_cid e \<and> body_cid out = qe_body_cid e \<and> recorded_index out = i"

lemma cache_step:
  assumes ok: "ns_ok s" and "\<not> is_evict c"
  obtains (kept) "ns_idempotency (fst (ns_apply s c i)) = ns_idempotency s"
  | (recorded) k e rest ck out where "queue_of s k = e # rest" "qe_idempotency e = Some ck"
      "outcome_of e i out"
      "ns_idempotency (fst (ns_apply s c i)) = hm_insert ck out (ns_idempotency s)"
      "\<And>j. queue_of (fst (ns_apply s c i)) j = (if j = k then rest else queue_of s j)"
proof (cases c)
  case (ApplyHead sh)
  show ?thesis
  proof (rule apply_head_cases [OF ok refl refl, of sh i], goal_cases)
    case (4 e rest)
    then show ?thesis
    proof (cases "qe_idempotency e")
      case None
      with 4 show ?thesis
        by (intro kept) (simp add: ApplyHead head_state_def record_outcome_def Let_def advance_ref_entry_def)
    next
      case (Some ck)
      show ?thesis
        by (rule recorded [of "ref_key (sh_ledger_id sh) (sh_branch sh)" e rest ck "applied_outcome e i sh"])
          (use 4 Some in \<open>simp_all add: ApplyHead head_state_def record_outcome_def Let_def
            advance_ref_entry_def outcome_of_def applied_outcome_def queue_of_def consume_front_def\<close>)
    qed
  qed (use kept in \<open>simp_all add: ApplyHead\<close>)
next
  case (PoisonQueueEntry ep)
  show ?thesis
  proof (rule poison_cases [OF refl refl, of s i ep], goal_cases)
    case (2 e rest out)
    then show ?thesis
    proof (cases "qe_idempotency e")
      case None
      with 2 show ?thesis by (intro kept) (simp add: PoisonQueueEntry record_outcome_def)
    next
      case (Some ck)
      show ?thesis
        by (rule recorded [of "ref_key (ep_ledger_id ep) (ep_branch ep)" e rest ck out])
          (use 2 Some in \<open>simp_all add: PoisonQueueEntry record_outcome_def outcome_of_def
            queue_of_def consume_front_def\<close>)
    qed
  qed (use kept in \<open>simp add: PoisonQueueEntry\<close>)
qed (use assms(2) kept in \<open>auto simp: fst_drop_branch fst_purge_branch advance_index_head_def
    rewrite_index_head_def\<close>)

section \<open>A keyed request is processed once\<close>

text \<open>
  The proposers' side: a submission's idempotency key is scoped to the canonical identifier of
  its branch, and ledger names hold no colon (\<open>QueuedTransactor::enqueue_and_await\<close>).
\<close>

fun scoped :: "Command \<Rightarrow> bool" where
  "scoped (EnqueueCommand qs) =
     (CHR '':'' \<notin> set (qs_ledger_id qs) \<and>
      (\<forall>ck. qs_idempotency qs = Some ck \<longrightarrow>
         ck_ledger_id ck = format_ledger_id (qs_ledger_id qs) (qs_branch qs)))"
| "scoped _ = True"

abbreviation queued_keys :: "QueueEntry list \<Rightarrow> IdempotencyCacheKey list" where
  "queued_keys q \<equiv> List.map_filter qe_idempotency q"

definition cache_ok :: "NameServiceState \<Rightarrow> bool" where
  "cache_ok s \<longleftrightarrow>
     (\<forall>k. distinct (queued_keys (queue_of s k)) \<and>
          (queue_of s k \<noteq> [] \<longrightarrow> CHR '':'' \<notin> set (rk_ledger_name k)) \<and>
          (\<forall>ck \<in> set (queued_keys (queue_of s k)).
             hm_get (ns_idempotency s) ck = None \<and> ck_ledger_id ck = rk_ledger_id k))"

lemma in_queued_keys: "ck \<in> set (queued_keys q) \<longleftrightarrow> (\<exists>e \<in> set q. qe_idempotency e = Some ck)"
  by (induction q) (auto simp: List.map_filter_def)

lemma queued_keys_simps [simp]:
  "queued_keys [] = []"
  "queued_keys (e # q) = (case qe_idempotency e of None \<Rightarrow> queued_keys q | Some ck \<Rightarrow> ck # queued_keys q)"
  "queued_keys (q @ q') = queued_keys q @ queued_keys q'"
  by (simp_all add: List.map_filter_def split: option.splits)

lemma queued_keys_drop: "\<exists>m. queued_keys (drop n q) = drop m (queued_keys q)"
proof (induction q arbitrary: n)
  case (Cons e q)
  show ?case
  proof (cases n)
    case 0
    then show ?thesis by (intro exI [of _ 0]) simp
  next
    case (Suc n')
    obtain m where m: "queued_keys (drop n' q) = drop m (queued_keys q)" using Cons by blast
    show ?thesis
    proof (cases "qe_idempotency e")
      case None
      with m Suc show ?thesis by (intro exI [of _ m]) simp
    next
      case (Some ck)
      with m Suc show ?thesis by (intro exI [of _ "Suc m"]) simp
    qed
  qed
qed simp

lemma cache_okD:
  assumes "cache_ok s"
  shows "distinct (queued_keys (queue_of s k))"
    and "queue_of s k \<noteq> [] \<Longrightarrow> CHR '':'' \<notin> set (rk_ledger_name k)"
    and "ck \<in> set (queued_keys (queue_of s k)) \<Longrightarrow> hm_get (ns_idempotency s) ck = None"
    and "ck \<in> set (queued_keys (queue_of s k)) \<Longrightarrow> ck_ledger_id ck = rk_ledger_id k"
  using assms by (auto simp: cache_ok_def)

lemma new_entry_key [simp]: "qe_idempotency (new_entry s i qs) = qs_idempotency qs"
  by (simp add: new_entry_def)

text \<open>A key sits in the queue of one branch only.\<close>

lemma queued_key_branch:
  assumes "cache_ok s" "ck \<in> set (queued_keys (queue_of s k))" "ck \<in> set (queued_keys (queue_of s j))"
  shows "j = k"
proof -
  have "rk_ledger_id k = rk_ledger_id j" using cache_okD(4) [OF assms(1)] assms(2,3) by metis
  moreover have "queue_of s k \<noteq> []" "queue_of s j \<noteq> []" using assms(2,3) by auto
  then have "CHR '':'' \<notin> set (rk_ledger_name k)" "CHR '':'' \<notin> set (rk_ledger_name j)"
    by (simp_all add: cache_okD(2) [OF assms(1)])
  ultimately have "rk_ledger_name k = rk_ledger_name j \<and> rk_branch k = rk_branch j"
    unfolding rk_ledger_id_def by (rule format_inj)
  then show ?thesis by (simp add: RefKey.equality)
qed

lemma cache_ok_shrunk:
  assumes ok: "cache_ok s" and sh: "shrunk s s'"
    and cache: "\<And>k ck. ck \<in> set (queued_keys (queue_of s' k)) \<Longrightarrow> hm_get (ns_idempotency s') ck = None"
  shows "cache_ok s'"
  unfolding cache_ok_def
proof (intro allI conjI)
  fix k
  obtain n where n: "queue_of s' k = drop n (queue_of s k)" using sh by (auto simp: shrunk_def)
  obtain m where m: "queued_keys (queue_of s' k) = drop m (queued_keys (queue_of s k))"
    using n queued_keys_drop by metis
  show "distinct (queued_keys (queue_of s' k))" using cache_okD(1) [OF ok] m by simp
  show "queue_of s' k \<noteq> [] \<longrightarrow> CHR '':'' \<notin> set (rk_ledger_name k)"
    using cache_okD(2) [OF ok, of k] n by (cases "queue_of s k = []") auto
  show "\<forall>ck \<in> set (queued_keys (queue_of s' k)). hm_get (ns_idempotency s') ck = None \<and> ck_ledger_id ck = rk_ledger_id k"
  proof
    fix ck assume ck: "ck \<in> set (queued_keys (queue_of s' k))"
    then have "ck \<in> set (queued_keys (queue_of s k))" using m by (auto dest: in_set_dropD)
    then show "hm_get (ns_idempotency s') ck = None \<and> ck_ledger_id ck = rk_ledger_id k"
      using cache_okD(4) [OF ok] cache [OF ck] by simp
  qed
qed

lemma shrunk_keys: "shrunk s s' \<Longrightarrow> ck \<in> set (queued_keys (queue_of s' k)) \<Longrightarrow> ck \<in> set (queued_keys (queue_of s k))"
  unfolding shrunk_def in_queued_keys by (metis in_set_dropD)

lemma cache_ok_append:
  assumes ok: "cache_ok s" and sc: "scoped (EnqueueCommand qs)"
    and q: "\<And>k. queue_of s' k = (if k = sub_key qs then queue_of s k @ [new_entry s i qs] else queue_of s k)"
    and c: "ns_idempotency s' = ns_idempotency s"
    and new: "\<And>ck. qs_idempotency qs = Some ck \<Longrightarrow> hm_get (ns_idempotency s) ck = None \<and>
          (\<forall>e \<in> set (queue_of s (sub_key qs)). qe_idempotency e \<noteq> Some ck)"
  shows "cache_ok s'"
proof -
  have fresh: "ck \<notin> set (queued_keys (queue_of s (sub_key qs)))" if "qs_idempotency qs = Some ck" for ck
    using new [OF that] by (simp add: in_queued_keys)
  have sub: "rk_ledger_id (sub_key qs) = format_ledger_id (qs_ledger_id qs) (qs_branch qs)"
    by (simp add: rk_ledger_id_def)
  note D = cache_okD [OF ok]
  show ?thesis
    unfolding cache_ok_def c q
    using sc new fresh D by (auto simp: sub split: option.splits)
qed

lemma evict_keys_get: "hm_get (fst (evict_keys m ks)) ck = (if ck \<in> (snd \<circ> snd) ` set ks then None else hm_get m ck)"
  by (induction m ks rule: evict_keys.induct) (auto simp: case_prod_beta)

lemma cache_ok_step:
  assumes ok: "ns_ok s" and cok: "cache_ok s" and sc: "scoped c"
  shows "cache_ok (fst (ns_apply s c i))"
proof (rule queue_step [OF ok, of c i], goal_cases)
  case 1
  show ?case
  proof (cases "is_evict c")
    case True
    then obtain cut mcut where "c = EvictIdempotency cut mcut" by (cases c) auto
    then show ?thesis
      using shrunk_keys [OF 1(1)] cache_okD(3) [OF cok]
      by (intro cache_ok_shrunk [OF cok 1(1)])
        (simp add: apply_evict_idempotency_def Let_def case_prod_beta evict_keys_get queue_of_def)
  next
    case False
    show ?thesis
    proof (rule cache_step [OF ok False, of i], goal_cases)
      case 1
      have "hm_get (ns_idempotency s) j = None"
        if "j \<in> set (queued_keys (queue_of (fst (ns_apply s c i)) l))" for j l
        using shrunk_keys [OF \<open>shrunk s (fst (ns_apply s c i))\<close> that] cache_okD(3) [OF cok] by simp
      with 1 show ?case by (intro cache_ok_shrunk [OF cok \<open>shrunk s (fst (ns_apply s c i))\<close>]) simp
    next
      case (2 k e rest ck out)
      have ck: "ck \<in> set (queued_keys (queue_of s k))" using 2(1,2) by simp
      have "ck \<notin> set (queued_keys rest)" using cache_okD(1) [OF cok, of k] 2(1,2) by simp
      then have "j \<noteq> ck" if "j \<in> set (queued_keys (queue_of (fst (ns_apply s c i)) l))" for j l
        using that queued_key_branch [OF cok ck, of l] by (auto simp: 2(5) split: if_splits)
      moreover have "hm_get (ns_idempotency s) j = None"
        if "j \<in> set (queued_keys (queue_of (fst (ns_apply s c i)) l))" for j l
        using shrunk_keys [OF 1(1) that] cache_okD(3) [OF cok] by simp
      ultimately show ?case by (intro cache_ok_shrunk [OF cok 1(1)]) (simp add: 2(4))
    qed
  qed
next
  case (2 qs)
  have "scoped (EnqueueCommand qs)" using sc by (simp only: 2(1))
  then show ?case by (rule cache_ok_append [OF cok _ 2(3,5,6)])
qed

lemma cache_ok_run:
  "ns_ok s \<Longrightarrow> cache_ok s \<Longrightarrow> \<forall>(i, c) \<in> set es. scoped c \<Longrightarrow> cache_ok (ns_run s es)"
  by (induction s es rule: ns_run.induct) (simp_all add: cache_ok_step ns_ok_apply)

lemma cache_ok_new: "cache_ok new_state"
  by (simp add: cache_ok_def new_state_def queue_of_def)

text \<open>A cached outcome stays as it is until an eviction whose cutoff lies after it was recorded.\<close>

fun expires :: "u64 \<Rightarrow> Command \<Rightarrow> bool" where
  "expires recorded (EvictIdempotency cutoff _) = (recorded < cutoff)"
| "expires recorded _ = False"

lemma not_expired:
  assumes "hm_ok m" and "hm_get m ck = Some out" and "\<not> recorded_at_millis out < cutoff"
  shows "ck \<notin> (snd \<circ> snd) ` set (expired_outcomes m cutoff)"
proof
  assume "ck \<in> (snd \<circ> snd) ` set (expired_outcomes m cutoff)"
  then obtain out' where "(ck, out') \<in> set m" "recorded_at_millis out' < cutoff"
    by (auto simp: expired_outcomes_def List.map_filter_def dest!: in_set_takeD split: if_splits)
  then show False using assms by (simp add: hm_in_get)
qed

lemma cached_step:
  assumes ok: "ns_ok s" and cok: "cache_ok s" and ex: "\<not> expires (recorded_at_millis out) c"
    and h: "hm_get (ns_idempotency s) ck = Some out"
  shows "hm_get (ns_idempotency (fst (ns_apply s c i))) ck = Some out"
proof (cases "is_evict c")
  case True
  then obtain co mco where c: "c = EvictIdempotency co mco" by (cases c) auto
  have "hm_ok (ns_idempotency s)" using ns_okD(1) [OF ok] by (simp add: maps_ok_def)
  from not_expired [OF this h, of co] show ?thesis
    using h ex by (simp add: c apply_evict_idempotency_def Let_def case_prod_beta evict_keys_get)
next
  case False
  show ?thesis
  proof (rule cache_step [OF ok False, of i], goal_cases)
    case (2 k e rest ck' out')
    have "hm_get (ns_idempotency s) ck' = None" using cache_okD(3) [OF cok, of ck' k] 2(1,2) by simp
    then have "ck \<noteq> ck'" using h by auto
    then show ?case using h by (simp add: 2(4))
  qed (use h in simp)
qed

lemma cached_run:
  "ns_ok s \<Longrightarrow> cache_ok s \<Longrightarrow> \<forall>(i, c) \<in> set es. scoped c \<and> \<not> expires (recorded_at_millis out) c \<Longrightarrow>
   hm_get (ns_idempotency s) ck = Some out \<Longrightarrow> hm_get (ns_idempotency (ns_run s es)) ck = Some out"
  by (induction s es rule: ns_run.induct) (simp_all add: cached_step cache_ok_step ns_ok_apply)

end
