(* ===== verification/Ns_Envelopes.thy ===== *)
theory Ns_Envelopes
  imports Ns_Cache
begin

text \<open>
  Ownership of the request envelopes.  The queues and the idempotency cache hold the content ids
  of the envelope blobs; every response says which of them are to be released.  One command
  neither loses an envelope nor releases one twice: what is held afterwards together with what
  the response releases is what was held before together with what an accepted submission adds.
\<close>

section \<open>Held and released envelopes\<close>

definition entry_cids :: "QueueEntry list \<Rightarrow> ContentId multiset" where
  "entry_cids q = mset (map qe_request_cid q)"

lemma entry_cids_simps [simp]:
  "entry_cids [] = {#}"
  "entry_cids (e # q) = add_mset (qe_request_cid e) (entry_cids q)"
  "entry_cids (q @ q') = entry_cids q + entry_cids q'"
  "image_mset (\<lambda>e. qe_request_cid e) (mset q) = entry_cids q"
  by (simp_all add: entry_cids_def)

definition queued_cids :: "NameServiceState \<Rightarrow> ContentId multiset" where
  "queued_cids s = hm_sum entry_cids (ns_queues s)"

definition cached_cids :: "NameServiceState \<Rightarrow> ContentId multiset" where
  "cached_cids s = hm_sum (\<lambda>out. {#request_cid out#}) (ns_idempotency s)"

definition held :: "NameServiceState \<Rightarrow> ContentId multiset" where
  "held s = queued_cids s + cached_cids s"

fun released :: "Response \<Rightarrow> ContentId multiset" where
  "released (BranchDropped _ _ env) = mset (map snd env)"
| "released (HeadReset _ env) = mset (map snd env)"
| "released (Retracted _ env) = mset (map snd env)"
| "released (Purged _ env) = mset (map snd env)"
| "released (HeadApplied _ _ _ r) = (case r of Some cid \<Rightarrow> {#cid#} | None \<Rightarrow> {#})"
| "released (Poisoned _ _ _ r) = (case r of Some cid \<Rightarrow> {#cid#} | None \<Rightarrow> {#})"
| "released (EvictionApplied _ env) = mset (map snd env)"
| "released _ = {#}"

fun is_enqueued :: "Response \<Rightarrow> bool" where
  "is_enqueued (Enqueued _ _) = True"
| "is_enqueued _ = False"

fun submitted :: "Command \<Rightarrow> Response \<Rightarrow> ContentId multiset" where
  "submitted (EnqueueCommand qs) resp = (if is_enqueued resp then {#qs_request_cid qs#} else {#})"
| "submitted _ resp = {#}"

lemma queued_at: "hm_at entry_cids (ns_queues s) k = entry_cids (queue_of s k)"
  by (simp add: hm_at_def queue_of_def split: option.splits)

section \<open>The four ways a queue changes\<close>

lemma held_clear:
  assumes "ns_ok s" "ns_queues s' = hm_remove k (ns_queues s)" "ns_idempotency s' = ns_idempotency s"
  shows "held s' + entry_cids (queue_of s k) = held s"
proof -
  have "queued_cids s' + entry_cids (queue_of s k) = queued_cids s"
    using hm_sum_remove [of "ns_queues s" entry_cids k] ns_okD(1) [OF assms(1)]
    by (simp add: queued_cids_def assms(2) queued_at maps_ok_def)
  then show ?thesis by (simp add: held_def cached_cids_def assms(3) ac_simps flip: add.assoc)
qed

lemma queued_consume:
  assumes "ns_ok s" "hm_get (ns_queues s) k = Some (e # rest)"
  shows "queued_cids (consume_front s k rest) + {#qe_request_cid e#} = queued_cids s"
proof -
  let ?f = entry_cids
  have at: "hm_at ?f (ns_queues s) k = ?f (e # rest)" using assms(2) by (simp add: hm_at_def)
  have "hm_sum ?f (ns_queues (consume_front s k rest)) + ?f (e # rest) = hm_sum ?f (ns_queues s) + ?f rest"
  proof (cases "rest = []")
    case True
    then show ?thesis
      using hm_sum_remove [of "ns_queues s" ?f k] ns_okD(1) [OF assms(1)] at
      by (simp add: consume_front_def maps_ok_def)
  next
    case False
    then show ?thesis using hm_sum_insert [of ?f k rest "ns_queues s"] at by (simp add: consume_front_def)
  qed
  then show ?thesis by (simp add: queued_cids_def)
qed

lemma cached_record:
  assumes "\<And>ck. qe_idempotency e = Some ck \<Longrightarrow> hm_get (ns_idempotency s) ck = None"
    and "request_cid out = qe_request_cid e"
  shows "held (fst (record_outcome s e out)) +
           (if qe_idempotency e = None then {#qe_request_cid e#} else {#}) = held s + {#qe_request_cid e#}"
proof (cases "qe_idempotency e")
  case None
  then show ?thesis by (simp add: record_outcome_def)
next
  case (Some ck)
  have "hm_sum (\<lambda>out. {#request_cid out#}) (hm_insert ck out (ns_idempotency s)) =
      hm_sum (\<lambda>out. {#request_cid out#}) (ns_idempotency s) + {#qe_request_cid e#}"
    using hm_sum_insert [of "\<lambda>out. {#request_cid out#}" ck out "ns_idempotency s"] assms(1) [OF Some] assms(2)
    by (simp add: hm_at_def)
  with Some show ?thesis by (simp add: record_outcome_def held_def queued_cids_def cached_cids_def)
qed

lemma held_consume:
  assumes "ns_ok s" "cache_ok s" "hm_get (ns_queues s) k = Some (e # rest)"
    and "ns_queues s1 = ns_queues (consume_front s k rest)" "ns_idempotency s1 = ns_idempotency s"
    and "request_cid out = qe_request_cid e"
  shows "held (fst (record_outcome s1 e out)) +
           (if qe_idempotency e = None then {#qe_request_cid e#} else {#}) = held s"
proof -
  have "held s1 + {#qe_request_cid e#} = held s"
    using queued_consume [OF assms(1,3)]
    by (simp add: held_def queued_cids_def cached_cids_def assms(4,5))
  moreover have "hm_get (ns_idempotency s1) ck = None" if "qe_idempotency e = Some ck" for ck
    using cache_okD(3) [OF assms(2), of ck k] assms(3,5) that by (simp add: queue_of_def)
  ultimately show ?thesis using cached_record [of e s1 out] assms(6) by simp
qed

section \<open>Conservation, handler by handler\<close>

lemma held_retract: "ns_ok s \<Longrightarrow> held (fst (retract_ledger s l b m)) + released (snd (retract_ledger s l b m)) = held s"
proof (cases "branch_known (ns_ledgers s) l b \<and> ref_key l b \<notin> ns_retracted s")
  case True
  assume "ns_ok s"
  with held_clear [OF this, of "fst (retract_ledger s l b m)" "ref_key l b"] True show ?thesis
    by (simp add: retract_ledger_def Let_def case_prod_beta queue_of_def comp_def)
qed (auto simp: retract_ledger_def Let_def)

lemma held_reset: "ns_ok s \<Longrightarrow> held (fst (reset_head s l b snap m)) + released (snd (reset_head s l b snap m)) = held s"
proof (cases "branch_known (ns_ledgers s) l b \<and> ref_key l b \<notin> ns_retracted s")
  case True
  assume "ns_ok s"
  with held_clear [OF this, of "fst (reset_head s l b snap m)" "ref_key l b"] True show ?thesis
    by (simp add: reset_head_def Let_def case_prod_beta queue_of_def comp_def)
qed (auto simp: reset_head_def Let_def)

lemma held_remove:
  assumes "ns_ok s"
  shows "held (remove_branch s l b why m) + entry_cids (queue_of s (ref_key l b)) = held s"
  using assms by (rule held_clear) simp_all

lemma drop_released:
  "known s (ref_key l b) \<Longrightarrow> \<not> has_children s (ref_key l b) \<Longrightarrow>
   released (snd (drop_branch s l b m)) = entry_cids (queue_of s (ref_key l b))"
  by (auto simp: drop_branch_def has_children_def Let_def case_prod_beta queue_of_def comp_def split: option.splits)

lemma held_drop: "ns_ok s \<Longrightarrow> held (fst (drop_branch s l b m)) + released (snd (drop_branch s l b m)) = held s"
proof (cases "known s (ref_key l b) \<and> \<not> has_children s (ref_key l b)")
  case True
  assume "ns_ok s"
  then show ?thesis using True held_remove [of s l b] by (simp add: fst_drop_branch drop_released)
next
  case False
  then have "snd (drop_branch s l b m) = LedgerNotFound (format_ledger_id l b) \<or>
      (\<exists>n. snd (drop_branch s l b m) = BranchHasChildren (format_ledger_id l b) n)"
    by (auto simp: drop_branch_def has_children_def Let_def split: option.splits)
  with False show ?thesis by (auto simp: fst_drop_branch)
qed

lemma purge_released:
  assumes "ns_ok s" "\<not> has_children s (ref_key l b)"
  shows "released (snd (purge_branch s l b m)) = entry_cids (queue_of s (ref_key l b))"
proof (cases "queue_of s (ref_key l b) = []")
  case True
  with assms(2) show ?thesis
    by (auto simp: purge_branch_def has_children_def Let_def case_prod_beta queue_of_def comp_def
        split: option.splits)
next
  case False
  then obtain q where "hm_get (ns_queues s) (ref_key l b) = Some q" by (auto simp: queue_of_def split: option.splits)
  then have "known s (ref_key l b)" using ns_okD(5) [OF assms(1)] by blast
  then obtain r where r: "hm_get (ns_ledgers s) l = Some r" "b \<in> set (lr_branches r)"
    by (auto simp: branch_known_def split: option.splits)
  then have "length (filter (\<lambda>c. c \<noteq> b) (lr_branches r)) < length (lr_branches r)"
    by (intro length_filter_less [of b]) auto
  with r assms(2) show ?thesis
    by (auto simp: purge_branch_def has_children_def unregister_branch_def Let_def case_prod_beta queue_of_def comp_def
        split: option.splits)
qed

lemma held_purge: "ns_ok s \<Longrightarrow> held (fst (purge_branch s l b m)) + released (snd (purge_branch s l b m)) = held s"
proof (cases "has_children s (ref_key l b)")
  case True
  then show ?thesis by (auto simp: purge_branch_def has_children_def Let_def split: option.splits)
next
  case False
  assume "ns_ok s"
  then show ?thesis using False held_remove [of s l b] by (simp add: fst_purge_branch purge_released)
qed

lemma held_apply_head:
  assumes "ns_ok s" "cache_ok s"
  shows "held (fst (apply_head s i sh)) + released (snd (apply_head s i sh)) = held s"
proof (rule apply_head_cases [OF assms(1) refl refl, of sh i], goal_cases)
  case (4 e rest)
  have "request_cid (applied_outcome e i sh) = qe_request_cid e" by (simp add: applied_outcome_def)
  from held_consume [OF assms 4(3) _ _ this]
  show ?case using 4(6) by (auto simp: head_state_def Let_def advance_ref_entry_def)
qed (simp_all add: held_def queued_cids_def cached_cids_def)

lemma held_poison:
  assumes "ns_ok s" "cache_ok s"
  shows "held (fst (apply_poison_queue_entry s i ep)) + released (snd (apply_poison_queue_entry s i ep)) = held s"
proof (rule poison_cases [OF refl refl, of s i ep], goal_cases)
  case (2 e rest out)
  from held_consume [OF assms 2(1) refl consume_front_simps(4) 2(3)]
  show ?case using 2(7) by auto
qed (simp add: held_def queued_cids_def cached_cids_def)

lemma evict_keys_cids:
  "hm_ok m \<Longrightarrow> hm_sum (\<lambda>out. {#request_cid out#}) (fst (evict_keys m ks)) + mset (map snd (snd (evict_keys m ks))) =
     hm_sum (\<lambda>out. {#request_cid out#}) m"
proof (induction m ks rule: evict_keys.induct)
  case (2 m a b key ks)
  have "hm_sum (\<lambda>out. {#request_cid out#}) (hm_remove key m) + hm_at (\<lambda>out. {#request_cid out#}) m key =
      hm_sum (\<lambda>out. {#request_cid out#}) m"
    using 2(2) by (rule hm_sum_remove)
  with 2 show ?case by (auto simp: case_prod_beta hm_at_def split: option.splits)
qed simp

lemma held_evict:
  assumes "ns_ok s"
  shows "held (fst (apply_evict_idempotency s c mc)) + released (snd (apply_evict_idempotency s c mc)) = held s"
  using evict_keys_cids [of "ns_idempotency s" "expired_outcomes (ns_idempotency s) c"] ns_okD(1) [OF assms]
  by (simp add: apply_evict_idempotency_def Let_def case_prod_beta held_def queued_cids_def cached_cids_def
      maps_ok_def ac_simps)

lemma enqueue_releases_nothing: "released (snd (apply_enqueue_command s i qs)) = {#}"
  by (auto simp: apply_enqueue_command_def enqueue_dedup_def append_entry_def Let_def
      split: option.splits ApplyOutcome.splits)

lemma held_enqueue:
  "held (fst (apply_enqueue_command s i qs)) + released (snd (apply_enqueue_command s i qs)) =
   held s + submitted (EnqueueCommand qs) (snd (apply_enqueue_command s i qs))"
proof (rule enqueue_cases [of s i qs], goal_cases)
  case (1 resp)
  have "released resp = {#}" using 1 enqueue_releases_nothing [of s i qs] by simp
  moreover have "\<not> is_enqueued resp" using 1(2) by (cases resp) auto
  ultimately show ?case using 1 by simp
next
  case 2
  have "hm_sum entry_cids (hm_insert (sub_key qs) (queue_of s (sub_key qs) @ [new_entry s i qs]) (ns_queues s)) =
      queued_cids s + {#qs_request_cid qs#}"
    using hm_sum_insert [of entry_cids "sub_key qs" "queue_of s (sub_key qs) @ [new_entry s i qs]" "ns_queues s"]
    by (simp add: queued_cids_def queued_at new_entry_def)
  with 2(1) show ?case by (simp add: held_def queued_cids_def cached_cids_def)
qed

text \<open>The handlers that touch neither the queues nor the cache.\<close>

lemma other_releases_nothing [simp]:
  "released (snd (push_status s lid ex st)) = {#}"
  "released (snd (push_config s cu)) = {#}"
  "released (snd (apply_publish_graph_source s n b ty cfg deps)) = {#}"
  "released (snd (apply_publish_graph_source_index s n b ixid ixt)) = {#}"
  "released (snd (apply_retract_graph_source s n b)) = {#}"
  "released (snd (apply_set_worker_eligibility s we)) = {#}"
  "released (snd (create_ledger s i nl)) = {#}"
  "released (snd (create_branch s i nb)) = {#}"
  "released (snd (set_index_head s ni stale)) = {#}"
  "released (snd (apply_compare_and_set_ref s i rc)) = {#}"
  by (simp_all add: push_status_def push_config_def apply_versioned_push_def apply_publish_graph_source_def
      apply_publish_graph_source_index_def apply_retract_graph_source_def apply_set_worker_eligibility_def
      create_ledger_def create_branch_def set_index_head_def apply_compare_and_set_ref_def Let_def
      case_prod_beta split: option.splits RefKind.splits sum.splits)

lemma held_step:
  assumes "ns_ok s" "cache_ok s"
  shows "held (fst (ns_apply s c i)) + released (snd (ns_apply s c i)) =
         held s + submitted c (snd (ns_apply s c i))"
proof (cases c)
  case (RetractLedger l b m)
  then show ?thesis using held_retract [OF assms(1)] by simp
next
  case (ResetHead l b snap m)
  then show ?thesis using held_reset [OF assms(1)] by simp
next
  case (DropBranch l b m)
  then show ?thesis using held_drop [OF assms(1)] by simp
next
  case (PurgeBranch l b m)
  then show ?thesis using held_purge [OF assms(1)] by simp
next
  case (ApplyHead sh)
  then show ?thesis using held_apply_head [OF assms] by simp
next
  case (PoisonQueueEntry ep)
  then show ?thesis using held_poison [OF assms] by simp
next
  case (EvictIdempotency cut mcut)
  then show ?thesis using held_evict [OF assms(1)] by simp
next
  case (EnqueueCommand qs)
  then show ?thesis using held_enqueue by (simp del: submitted.simps)
qed (simp_all add: held_def queued_cids_def cached_cids_def advance_index_head_def rewrite_index_head_def)

section \<open>Conservation over a log\<close>

text \<open>The responses of a log, with the commands they answer.\<close>

fun ns_responses :: "NameServiceState \<Rightarrow> (u64 \<times> Command) list \<Rightarrow> (Command \<times> Response) list" where
  "ns_responses s [] = []"
| "ns_responses s ((i, c) # es) = (c, snd (ns_apply s c i)) # ns_responses (fst (ns_apply s c i)) es"

definition all_released :: "(Command \<times> Response) list \<Rightarrow> ContentId multiset" where
  "all_released rs = sum_list (map (released \<circ> snd) rs)"

definition all_submitted :: "(Command \<times> Response) list \<Rightarrow> ContentId multiset" where
  "all_submitted rs = sum_list (map (\<lambda>(c, r). submitted c r) rs)"

lemma held_run:
  "ns_ok s \<Longrightarrow> cache_ok s \<Longrightarrow> \<forall>(i, c) \<in> set es. scoped c \<Longrightarrow>
   held (ns_run s es) + all_released (ns_responses s es) = held s + all_submitted (ns_responses s es)"
proof (induction s es rule: ns_run.induct)
  case (2 s i c es)
  let ?s = "fst (ns_apply s c i)"
  let ?r = "released (snd (ns_apply s c i))" and ?x = "submitted c (snd (ns_apply s c i))"
  let ?R = "all_released (ns_responses ?s es)" and ?X = "all_submitted (ns_responses ?s es)"
  have rest: "held (ns_run ?s es) + ?R = held ?s + ?X" using 2 by (simp add: ns_ok_apply cache_ok_step)
  have step: "held ?s + ?r = held s + ?x" using 2 by (intro held_step)
  have "held (ns_run ?s es) + (?r + ?R) = (held ?s + ?r) + ?X"
    using arg_cong [OF rest, of "\<lambda>m. m + ?r"] by (simp only: ac_simps)
  then have "held (ns_run ?s es) + (?r + ?R) = held s + (?x + ?X)"
    by (simp only: step add.assoc)
  then show ?case by (simp add: all_released_def all_submitted_def)
qed (simp add: all_released_def all_submitted_def)

end
