(* ===== verification/Ns_Replicas.thy ===== *)
theory Ns_Replicas
  imports Ns_Cache
begin

text \<open>
  Replicas agree.  Two nodes hold equal maps, but the iteration order of a \<open>HashMap\<close> differs
  between them.  Two states that are equal up to the order of their maps stay so under every
  command and give the same response; for the eviction batch, the one place where the source
  iterates and truncates, this rests on the recorded log indices being distinct.
\<close>

section \<open>Equality up to iteration order\<close>

definition hm_eq :: "('k, 'v) hmap \<Rightarrow> ('k, 'v) hmap \<Rightarrow> bool" where
  "hm_eq a b \<longleftrightarrow> hm_ok a \<and> hm_ok b \<and> hm_get a = hm_get b"

lemma hm_eq_insert [simp]: "hm_eq a b \<Longrightarrow> hm_eq (hm_insert k v a) (hm_insert k v b)"
  by (simp add: hm_eq_def fun_eq_iff)

lemma hm_eq_remove [simp]: "hm_eq a b \<Longrightarrow> hm_eq (hm_remove k a) (hm_remove k b)"
  by (simp add: hm_eq_def fun_eq_iff)

lemma hm_eq_filter:
  "hm_eq a b \<Longrightarrow> hm_eq (filter (\<lambda>(k, v). P v) a) (filter (\<lambda>(k, v). P v) b)"
  by (simp add: hm_eq_def hm_ok_filter hm_get_filter fun_eq_iff)

lemma hm_eq_get: "hm_eq a b \<Longrightarrow> hm_get a k = hm_get b k"
  by (simp add: hm_eq_def)

lemma hm_eq_mset:
  assumes "hm_eq a b"
  shows "mset a = mset b"
proof -
  have "distinct a" "distinct b" using assms by (auto simp: hm_eq_def hm_ok_def distinct_map)
  moreover have "set a = set b"
    using assms unfolding hm_eq_def by (metis hm_get_in hm_in_get subrelI subset_antisym)
  ultimately show ?thesis by (simp add: set_eq_iff_mset_eq_distinct)
qed

definition replica_eq :: "NameServiceState \<Rightarrow> NameServiceState \<Rightarrow> bool" where
  "replica_eq s t \<longleftrightarrow>
     hm_eq (ns_refs s) (ns_refs t) \<and> hm_eq (ns_ledgers s) (ns_ledgers t) \<and>
     ns_retracted s = ns_retracted t \<and> hm_eq (ns_idempotency s) (ns_idempotency t) \<and>
     hm_eq (ns_queues s) (ns_queues t) \<and> ns_next_queue_id s = ns_next_queue_id t \<and>
     hm_eq (ns_recently_cleared s) (ns_recently_cleared t) \<and>
     ns_evicted_idempotency_count s = ns_evicted_idempotency_count t \<and>
     ns_queue_config s = ns_queue_config t \<and> hm_eq (ns_status s) (ns_status t) \<and>
     hm_eq (ns_config s) (ns_config t) \<and> hm_eq (ns_graph_sources s) (ns_graph_sources t) \<and>
     ns_worker_eligible_voters s = ns_worker_eligible_voters t \<and>
     ns_configured_voters s = ns_configured_voters t"

abbreviation agree :: "NameServiceState \<times> 'a \<Rightarrow> NameServiceState \<times> 'a \<Rightarrow> bool" where
  "agree x y \<equiv> replica_eq (fst x) (fst y) \<and> snd x = snd y"

lemma replica_get:
  assumes "replica_eq s t"
  shows "hm_get (ns_refs s) = hm_get (ns_refs t)" "hm_get (ns_ledgers s) = hm_get (ns_ledgers t)"
    "hm_get (ns_idempotency s) = hm_get (ns_idempotency t)" "hm_get (ns_queues s) = hm_get (ns_queues t)"
    "hm_get (ns_recently_cleared s) = hm_get (ns_recently_cleared t)"
    "hm_get (ns_status s) = hm_get (ns_status t)" "hm_get (ns_config s) = hm_get (ns_config t)"
    "hm_get (ns_graph_sources s) = hm_get (ns_graph_sources t)"
  using assms by (simp_all add: replica_eq_def hm_eq_def)

lemma replica_scalars:
  assumes "replica_eq s t"
  shows "ns_retracted s = ns_retracted t" "ns_next_queue_id s = ns_next_queue_id t"
    "ns_queue_config s = ns_queue_config t" "ns_worker_eligible_voters s = ns_worker_eligible_voters t"
    "ns_configured_voters s = ns_configured_voters t" "queue_of s = queue_of t"
    "branch_known (ns_ledgers s) = branch_known (ns_ledgers t)" "global_depth s = global_depth t"
proof -
  have "mset (ns_queues s) = mset (ns_queues t)" using assms by (intro hm_eq_mset) (simp add: replica_eq_def)
  then show "global_depth s = global_depth t"
    unfolding global_depth_def by (metis mset_map sum_mset_sum_list)
qed (use assms in \<open>simp_all add: replica_eq_def hm_eq_def queue_of_def branch_known_def fun_eq_iff\<close>)

section \<open>Handler by handler\<close>

lemma agree_eligibility:
  "replica_eq s t \<Longrightarrow> agree (apply_set_worker_eligibility s we) (apply_set_worker_eligibility t we)"
  by (simp add: apply_set_worker_eligibility_def Let_def replica_scalars) (simp add: replica_eq_def)

lemma agree_create_ledger: "replica_eq s t \<Longrightarrow> agree (create_ledger s i nl) (create_ledger t i nl)"
  by (simp add: create_ledger_def Let_def replica_get split: option.splits) (simp add: replica_eq_def)

lemma agree_clear:
  "replica_eq s t \<Longrightarrow> agree (clear_queue_for_admin s k r m) (clear_queue_for_admin t k r m)"
  by (simp add: clear_queue_for_admin_def Let_def replica_get split: option.splits) (simp add: replica_eq_def)

lemma replica_retracted_insert: "replica_eq s t \<Longrightarrow> ns_retracted s = ns_retracted t \<Longrightarrow>
  replica_eq (s\<lparr>ns_retracted := x\<rparr>) (t\<lparr>ns_retracted := x\<rparr>)"
  by (simp add: replica_eq_def)

lemma agree_retract: "replica_eq s t \<Longrightarrow> agree (retract_ledger s l b m) (retract_ledger t l b m)"
proof -
  assume eq: "replica_eq s t"
  let ?u = "\<lambda>s. s\<lparr>ns_retracted := insert (ref_key l b) (ns_retracted t)\<rparr>"
  have "replica_eq (?u s) (?u t)" using eq by (simp add: replica_eq_def)
  from agree_clear [OF this, of "ref_key l b" BranchRetractedReason m] eq show ?thesis
    by (simp add: retract_ledger_def Let_def case_prod_beta replica_scalars)
qed

lemma agree_unregister: "replica_eq s t \<Longrightarrow> agree (unregister_branch s l b) (unregister_branch t l b)"
  by (simp add: unregister_branch_def Let_def replica_get split: option.splits) (simp add: replica_eq_def)

lemma agree_decrement: "replica_eq s t \<Longrightarrow> agree (decrement_child_count s l p) (decrement_child_count t l p)"
  by (simp add: decrement_child_count_def Let_def replica_get split: option.splits) (simp add: replica_eq_def)

definition detach :: "NameServiceState \<Rightarrow> string \<Rightarrow> string \<Rightarrow> NameServiceState \<times> bool" where
  "detach s l b = unregister_branch
     (s\<lparr>ns_refs := hm_remove (ref_key l b) (ns_refs s), ns_retracted := ns_retracted s - {ref_key l b}\<rparr>) l b"

lemma agree_detach: "replica_eq s t \<Longrightarrow> agree (detach s l b) (detach t l b)"
  unfolding detach_def by (intro agree_unregister) (simp add: replica_eq_def)

lemma purge_unfold:
  "purge_branch s l b m =
     (let entry = hm_get (ns_refs s) (ref_key l b); full = format_ledger_id l b; d = detach s l b;
          u = (case Option.bind entry re_source_branch of
                 Some p \<Rightarrow> fst (decrement_child_count (fst d) l p) | None \<Rightarrow> fst d);
          c = clear_queue_for_admin u (ref_key l b) BranchPurgedReason m in
      if (case entry of Some e \<Rightarrow> 0 < re_branches e | None \<Rightarrow> False)
      then (s, BranchHasChildren full (re_branches (the entry)))
      else (fst c, if entry \<noteq> None \<or> ref_key l b \<in> ns_retracted s \<or> snd d
                   then Purged full (snd c) else AlreadyPurged full))"
  by (simp only: purge_branch_def detach_def Let_def case_prod_beta if_distrib [of "Pair _"] if_distrib [of fst])

lemma drop_unfold:
  "drop_branch s l b m =
     (let entry = hm_get (ns_refs s) (ref_key l b); full = format_ledger_id l b; d = fst (detach s l b);
          u = (case Option.bind entry re_source_branch of
                 Some p \<Rightarrow> (fst (decrement_child_count d l p), Some (snd (decrement_child_count d l p)))
               | None \<Rightarrow> (d, None));
          c = clear_queue_for_admin (fst u) (ref_key l b) BranchDroppedReason m in
      if \<not> branch_known (ns_ledgers s) l b then (s, LedgerNotFound full)
      else if (case entry of Some e \<Rightarrow> 0 < re_branches e | None \<Rightarrow> False)
      then (s, BranchHasChildren full (re_branches (the entry)))
      else (fst c, BranchDropped full (snd u) (snd c)))"
  by (simp only: drop_branch_def detach_def Let_def case_prod_beta)

lemma agree_purge:
  assumes eq: "replica_eq s t"
  shows "agree (purge_branch s l b m) (purge_branch t l b m)"
proof -
  let ?src = "Option.bind (hm_get (ns_refs t) (ref_key l b)) re_source_branch"
  let ?u = "\<lambda>s. case ?src of Some p \<Rightarrow> fst (decrement_child_count (fst (detach s l b)) l p) | None \<Rightarrow> fst (detach s l b)"
  have d: "agree (detach s l b) (detach t l b)" using eq by (rule agree_detach)
  then have "replica_eq (?u s) (?u t)" using agree_decrement by (auto split: option.splits)
  then have "agree (clear_queue_for_admin (?u s) (ref_key l b) BranchPurgedReason m)
      (clear_queue_for_admin (?u t) (ref_key l b) BranchPurgedReason m)" by (rule agree_clear)
  with d eq show ?thesis
    by (simp add: purge_unfold Let_def replica_get replica_scalars del: clear_queue_released)
qed

lemma agree_drop:
  assumes eq: "replica_eq s t"
  shows "agree (drop_branch s l b m) (drop_branch t l b m)"
proof -
  let ?src = "Option.bind (hm_get (ns_refs t) (ref_key l b)) re_source_branch"
  let ?d = "\<lambda>s. fst (detach s l b)"
  let ?u = "\<lambda>s. case ?src of
      Some p \<Rightarrow> (fst (decrement_child_count (?d s) l p), Some (snd (decrement_child_count (?d s) l p)))
    | None \<Rightarrow> (?d s, None)"
  have u: "agree (?u s) (?u t)"
    using agree_detach [OF eq] agree_decrement by (auto split: option.splits)
  have "agree (clear_queue_for_admin (fst (?u s)) (ref_key l b) BranchDroppedReason m)
      (clear_queue_for_admin (fst (?u t)) (ref_key l b) BranchDroppedReason m)"
    by (rule agree_clear [OF conjunct1 [OF u]])
  with u eq show ?thesis
    by (simp add: drop_unfold Let_def replica_get replica_scalars del: clear_queue_released)
qed

lemma agree_create_branch: "replica_eq s t \<Longrightarrow> agree (create_branch s i nb) (create_branch t i nb)"
  by (simp add: create_branch_def Let_def case_prod_beta replica_get split: option.splits)
    (simp add: replica_eq_def)

lemma agree_reset:
  assumes eq: "replica_eq s t"
  shows "agree (reset_head s l b snap m) (reset_head t l b snap m)"
proof -
  let ?u = "\<lambda>s. s\<lparr>ns_refs := (case rs_commit_head_id snap of
        None \<Rightarrow> hm_remove (ref_key l b) (ns_refs s)
      | Some head \<Rightarrow>
          (let (src, n) = (case hm_get (ns_refs t) (ref_key l b) of
                Some r \<Rightarrow> (re_source_branch r, re_branches r) | None \<Rightarrow> (None, 0)) in
           hm_insert (ref_key l b)
             \<lparr>re_head = head, re_t = rs_commit_t snap, re_last_advanced_at_millis = 0, re_last_advanced_index = 0,
              re_index = map_option (\<lambda>h. \<lparr>ix_head = h, ix_t = rs_index_t snap\<rparr>) (rs_index_head_id snap),
              re_source_branch = src, re_branches = n\<rparr> (ns_refs s)))\<rparr>"
  have "replica_eq (?u s) (?u t)"
    using eq by (simp add: replica_eq_def case_prod_beta split: option.splits)
  from agree_clear [OF this, of "ref_key l b" BranchHeadResetReason m] eq show ?thesis
    by (cases "rs_commit_head_id snap")
      (simp_all add: reset_head_def Let_def case_prod_beta replica_get replica_scalars)
qed

lemma agree_set_index: "replica_eq s t \<Longrightarrow> agree (set_index_head s ni stale) (set_index_head t ni stale)"
  by (simp add: set_index_head_def Let_def replica_get replica_scalars split: option.splits)
    (simp add: replica_eq_def)

lemma agree_current: "replica_eq s t \<Longrightarrow> current_ref_value s k kind = current_ref_value t k kind"
  by (simp add: current_ref_value_def Let_def replica_get replica_scalars)

lemma agree_cas:
  "replica_eq s t \<Longrightarrow> agree (apply_compare_and_set_ref s i rc) (apply_compare_and_set_ref t i rc)"
  by (simp add: apply_compare_and_set_ref_def Let_def agree_current replica_get replica_scalars case_prod_beta
      split: option.splits RefKind.splits)
    (simp add: replica_eq_def)

lemma agree_push:
  "hm_eq a b \<Longrightarrow> branch_known ls = branch_known ls' \<Longrightarrow>
   hm_eq (fst (apply_versioned_push ab v cf up ls a l ex new)) (fst (apply_versioned_push ab v cf up ls' b l ex new)) \<and>
   snd (apply_versioned_push ab v cf up ls a l ex new) = snd (apply_versioned_push ab v cf up ls' b l ex new)"
  by (simp add: apply_versioned_push_def Let_def hm_eq_get split: sum.splits prod.splits)

lemma agree_status: "replica_eq s t \<Longrightarrow> agree (push_status s l ex new) (push_status t l ex new)"
  using agree_push [of "ns_status s" "ns_status t" "ns_ledgers s" "ns_ledgers t" initial_status ss_v
      StatusConflict StatusUpdated l ex new] replica_scalars(7) [of s t]
  by (simp add: push_status_def case_prod_beta replica_eq_def)

lemma agree_config: "replica_eq s t \<Longrightarrow> agree (push_config s cu) (push_config t cu)"
  using agree_push [of "ns_config s" "ns_config t" "ns_ledgers s" "ns_ledgers t" unborn_config sc_v
      ConfigConflict ConfigUpdated "cu_ledger_id cu" "cu_expected cu" "cu_new cu"] replica_scalars(7) [of s t]
  by (simp add: push_config_def case_prod_beta replica_eq_def)

lemma agree_graph:
  assumes eq: "replica_eq s t"
  shows "agree (apply_publish_graph_source s n b ty cfg deps) (apply_publish_graph_source t n b ty cfg deps)"
    "agree (apply_publish_graph_source_index s n b ixid ixt) (apply_publish_graph_source_index t n b ixid ixt)"
    "agree (apply_retract_graph_source s n b) (apply_retract_graph_source t n b)"
  using eq
  by (simp_all add: apply_publish_graph_source_def apply_publish_graph_source_index_def
      apply_retract_graph_source_def Let_def replica_get split: option.splits)
    (simp_all add: replica_eq_def)

lemma agree_enqueue:
  "replica_eq s t \<Longrightarrow> agree (apply_enqueue_command s i qs) (apply_enqueue_command t i qs)"
  by (simp add: apply_enqueue_command_def append_entry_def enqueue_dedup_def Let_def replica_get replica_scalars
      split: option.splits)
    (simp add: replica_eq_def)

section \<open>The consumers of the queue\<close>

lemma agree_pop:
  "replica_eq s t \<Longrightarrow> agree (pop_validated_front s k full q) (pop_validated_front t k full q)"
  by (simp add: pop_validated_front_def replica_get replica_scalars split: option.splits list.splits)
    (simp add: replica_eq_def)

lemma agree_consume:
  assumes eq: "replica_eq s t"
  shows "replica_eq (drop_queue_if_empty s k) (drop_queue_if_empty t k)"
    "replica_eq (advance_ref_entry s k i sh) (advance_ref_entry t k i sh)"
    "replica_eq (self_heal_branch s l b) (self_heal_branch t l b)"
    "replica_eq (s\<lparr>ns_queues := hm_insert k q (ns_queues s)\<rparr>) (t\<lparr>ns_queues := hm_insert k q (ns_queues t)\<rparr>)"
    "agree (record_outcome s e out) (record_outcome t e out)"
  using eq
  by (simp_all add: drop_queue_if_empty_def advance_ref_entry_def self_heal_branch_def record_outcome_def
      replica_get split: option.splits)
    (simp_all add: replica_eq_def)

lemma agree_apply_head:
  assumes eq: "replica_eq s t"
  shows "agree (apply_head s i sh) (apply_head t i sh)"
proof (cases "ref_key (sh_ledger_id sh) (sh_branch sh) \<in> ns_retracted t")
  case True
  then show ?thesis using eq by (simp add: apply_head_def replica_scalars)
next
  case False
  let ?k = "ref_key (sh_ledger_id sh) (sh_branch sh)"
  let ?full = "format_ledger_id (sh_ledger_id sh) (sh_branch sh)"
  obtain s' r where s': "pop_validated_front s ?k ?full (sh_queue_id sh) = (s', r)" by (cases "pop_validated_front s ?k ?full (sh_queue_id sh)")
  obtain t' r' where t': "pop_validated_front t ?k ?full (sh_queue_id sh) = (t', r')" by (cases "pop_validated_front t ?k ?full (sh_queue_id sh)")
  have eq': "replica_eq s' t'" and r: "r = r'" using agree_pop [OF eq, of ?k ?full "sh_queue_id sh"] s' t' by simp_all
  show ?thesis
  proof (cases r')
    case (Inl resp)
    then show ?thesis using False eq eq' r by (simp add: apply_head_def s' t' Let_def replica_scalars)
  next
    case (Inr e)
    have "replica_eq (drop_queue_if_empty s' ?k) (drop_queue_if_empty t' ?k)"
      "ns_retracted s = ns_retracted t" "queue_of s' = queue_of t'" "hm_get (ns_refs s') = hm_get (ns_refs t')"
      using eq eq' by (simp_all add: agree_consume replica_scalars replica_get)
    then show ?thesis using False r Inr eq'
      by (cases "hm_get (ns_refs t') ?k")
        (simp_all add: apply_head_def s' t' Let_def case_prod_beta agree_consume)
  qed
qed

lemma agree_poison:
  assumes eq: "replica_eq s t"
  shows "agree (apply_poison_queue_entry s i ep) (apply_poison_queue_entry t i ep)"
proof -
  let ?k = "ref_key (ep_ledger_id ep) (ep_branch ep)"
  let ?full = "format_ledger_id (ep_ledger_id ep) (ep_branch ep)"
  obtain s' r where s': "pop_validated_front s ?k ?full (ep_queue_id ep) = (s', r)" by (cases "pop_validated_front s ?k ?full (ep_queue_id ep)")
  obtain t' r' where t': "pop_validated_front t ?k ?full (ep_queue_id ep) = (t', r')" by (cases "pop_validated_front t ?k ?full (ep_queue_id ep)")
  have "replica_eq s' t'" "r = r'" using agree_pop [OF eq, of ?k ?full "ep_queue_id ep"] s' t' by simp_all
  then show ?thesis
    by (cases r') (simp_all add: apply_poison_queue_entry_def s' t' Let_def case_prod_beta agree_consume)
qed

section \<open>Eviction\<close>

definition indices_distinct :: "NameServiceState \<Rightarrow> bool" where
  "indices_distinct s \<longleftrightarrow>
     (\<forall>k o1 k' o2. hm_get (ns_idempotency s) k = Some o1 \<longrightarrow> hm_get (ns_idempotency s) k' = Some o2 \<longrightarrow>
        recorded_index o1 = recorded_index o2 \<longrightarrow> k = k')"

lemma expired_eq:
  assumes eq: "hm_eq a b"
    and inj: "\<And>k o1 k' o2. hm_get a k = Some o1 \<Longrightarrow> hm_get a k' = Some o2 \<Longrightarrow>
        recorded_index o1 = recorded_index o2 \<Longrightarrow> k = k'"
  shows "expired_outcomes a cutoff = expired_outcomes b cutoff"
proof -
  let ?f = "\<lambda>(k, out). if recorded_at_millis out < cutoff
      then Some (recorded_at_millis out, recorded_index out, k :: IdempotencyCacheKey) else None"
  let ?key = "\<lambda>(ts :: u64, idx :: u64, _ :: IdempotencyCacheKey). (ts, idx)"
  have m: "mset (List.map_filter ?f a) = mset (List.map_filter ?f b)"
    using hm_eq_mset [OF eq] by (simp add: List.map_filter_def)
  have el: "\<exists>out. hm_get a k = Some out \<and> ts = recorded_at_millis out \<and> ix = recorded_index out"
    if "(ts, ix, k) \<in> set (List.map_filter ?f a)" for ts ix k
  proof -
    from that obtain k' out where "(k', out) \<in> set a" "?f (k', out) = Some (ts, ix, k)"
      by (auto simp: List.map_filter_def)
    then have "(k, out) \<in> set a" "ts = recorded_at_millis out" "ix = recorded_index out"
      by (auto split: if_splits)
    moreover have "hm_ok a" using eq by (simp add: hm_eq_def)
    ultimately show ?thesis by (intro exI [of _ out]) (simp add: hm_in_get)
  qed
  have "inj_on ?key (set (List.map_filter ?f a))"
  proof (rule inj_onI)
    fix x y assume x: "x \<in> set (List.map_filter ?f a)" and y: "y \<in> set (List.map_filter ?f a)" and xy: "?key x = ?key y"
    obtain ts ix k k' where e: "x = (ts, ix, k)" "y = (ts, ix, k')" using xy by (cases x, cases y) auto
    have "k = k'" using el [of ts ix k] el [of ts ix k'] x y inj unfolding e by metis
    then show "x = y" by (simp add: e)
  qed
  then have "sort_key ?key (List.map_filter ?f a) = sort_key ?key (List.map_filter ?f b)"
    by (intro sort_key_inj_key_eq) (simp_all add: m)
  then show ?thesis by (simp add: expired_outcomes_def)
qed

lemma agree_evict_keys:
  "hm_eq a b \<Longrightarrow> hm_eq (fst (evict_keys a ks)) (fst (evict_keys b ks)) \<and> snd (evict_keys a ks) = snd (evict_keys b ks)"
  by (induction a ks arbitrary: b rule: evict_keys.induct) (simp_all add: case_prod_beta hm_eq_get split: option.split)

lemma agree_evict:
  assumes eq: "replica_eq s t" and d: "indices_distinct s"
  shows "agree (apply_evict_idempotency s co mco) (apply_evict_idempotency t co mco)"
proof -
  have c: "hm_eq (ns_idempotency s) (ns_idempotency t)" and cl: "hm_eq (ns_recently_cleared s) (ns_recently_cleared t)"
    using eq by (simp_all add: replica_eq_def)
  have "expired_outcomes (ns_idempotency s) co = expired_outcomes (ns_idempotency t) co"
    using d by (intro expired_eq [OF c]) (auto simp: indices_distinct_def)
  then show ?thesis
    using agree_evict_keys [OF c] hm_eq_filter [OF cl] eq
    by (simp add: apply_evict_idempotency_def Let_def case_prod_beta replica_eq_def)
qed

section \<open>Every command, every log\<close>

lemma agree_apply:
  "replica_eq s t \<Longrightarrow> indices_distinct s \<Longrightarrow> agree (ns_apply s c i) (ns_apply t c i)"
  by (cases c) (simp_all only: ns_apply.simps advance_index_head_def rewrite_index_head_def agree_eligibility
      agree_create_ledger agree_retract agree_purge agree_drop agree_create_branch agree_reset agree_set_index
      agree_cas agree_status agree_config agree_graph agree_enqueue agree_apply_head agree_poison agree_evict
      fst_conv snd_conv simp_thms)

text \<open>
  Log indices increase, so each entry of the cache carries an index of its own.
\<close>

definition stamped :: "NameServiceState \<Rightarrow> u64 \<Rightarrow> bool" where
  "stamped s n \<longleftrightarrow> indices_distinct s \<and>
     (\<forall>k out. hm_get (ns_idempotency s) k = Some out \<longrightarrow> recorded_index out \<le> n)"

lemma stamped_step:
  assumes ok: "ns_ok s" and st: "stamped s n" and "n < i"
  shows "stamped (fst (ns_apply s c i)) i"
proof (cases "is_evict c")
  case True
  then obtain co mco where "c = EvictIdempotency co mco" by (cases c) auto
  then have "\<And>k out. hm_get (ns_idempotency (fst (ns_apply s c i))) k = Some out \<Longrightarrow> hm_get (ns_idempotency s) k = Some out"
    by (auto simp: apply_evict_idempotency_def Let_def case_prod_beta evict_keys_get split: if_splits)
  then show ?thesis using st \<open>n < i\<close> unfolding stamped_def indices_distinct_def by (meson less_imp_le order_trans)
next
  case False
  show ?thesis
  proof (rule cache_step [OF ok False, of i], goal_cases)
    case 1
    then show ?case using st \<open>n < i\<close> unfolding stamped_def indices_distinct_def by (metis less_imp_le order_trans)
  next
    case (2 k e rest ck out)
    have ix: "recorded_index out = i" using 2(3) by (simp add: outcome_of_def)
    have old: "recorded_index o' < i" if "hm_get (ns_idempotency s) k' = Some o'" for k' o'
      using st \<open>n < i\<close> that unfolding stamped_def by (meson le_less_trans)
    show ?case
      using st by (auto simp: stamped_def indices_distinct_def 2(4) ix dest: old less_imp_le split: if_splits)
  qed
qed

fun increasing :: "u64 \<Rightarrow> (u64 \<times> 'a) list \<Rightarrow> bool" where
  "increasing n [] = True"
| "increasing n ((i, _) # es) = (n < i \<and> increasing i es)"

lemma stamped_new: "stamped new_state n"
  by (simp add: stamped_def indices_distinct_def new_state_def)

lemma stamped_run:
  "ns_ok s \<Longrightarrow> stamped s n \<Longrightarrow> increasing n es \<Longrightarrow> indices_distinct (ns_run s es)"
proof (induction s es arbitrary: n rule: ns_run.induct)
  case (2 s i c es)
  then show ?case using 2(1) [OF ns_ok_apply [OF 2(2)] stamped_step [OF 2(2,3)]] by simp
qed (simp add: stamped_def)

lemma replicas_run:
  "ns_ok s \<Longrightarrow> stamped s n \<Longrightarrow> increasing n es \<Longrightarrow> replica_eq s t \<Longrightarrow> replica_eq (ns_run s es) (ns_run t es)"
proof (induction s es arbitrary: n t rule: ns_run.induct)
  case (2 s i c es)
  have "replica_eq (fst (ns_apply s c i)) (fst (ns_apply t c i))"
    using agree_apply 2(3,5) by (simp add: stamped_def)
  then show ?case using 2(1) [OF ns_ok_apply [OF 2(2)] stamped_step [OF 2(2,3)]] 2(4) by simp
qed simp

lemma replica_refl: "ns_ok s \<Longrightarrow> replica_eq s s"
  using ns_okD(1) by (simp add: replica_eq_def hm_eq_def maps_ok_def)

end
