(* ===== verification/Ns_Props.thy ===== *)
theory Ns_Props
  imports Ns_Envelopes Ns_Replicas
begin

text \<open>
  The guarantees of the replicated nameservice over arbitrary logs from the empty state, with a
  small log on which the ones with hypotheses are instantiated.
\<close>

section \<open>Derived facts\<close>

lemma ns_ok_reached [simp]: "ns_ok (ns_run new_state es)"
  by (intro ns_ok_run ns_ok_new)

lemma cache_ok_reached: "\<forall>(i, c) \<in> set es. scoped c \<Longrightarrow> cache_ok (ns_run new_state es)"
  by (intro cache_ok_run ns_ok_new cache_ok_new)

lemma head_state_cached:
  "qe_idempotency e = Some ck \<Longrightarrow>
   hm_get (ns_idempotency (head_state s k e rest i sh)) ck = Some (applied_outcome e i sh)"
  by (simp add: head_state_def record_outcome_def Let_def)

lemma retry_answer:
  assumes "hm_get (ns_idempotency s) ck = Some (Applied r)"
    and "qs_idempotency qs = Some ck" and "qs_body_cid qs = ar_body_cid r"
  shows "apply_enqueue_command s j qs =
    (s, if \<not> known s (sub_key qs) then LedgerNotFound (format_ledger_id (qs_ledger_id qs) (qs_branch qs))
        else if sub_key qs \<in> ns_retracted s then LedgerRetracted (format_ledger_id (qs_ledger_id qs) (qs_branch qs))
        else IdempotencyHit r)"
  using assms by (simp add: apply_enqueue_command_def Let_def enqueue_dedup_def)

lemma head_applied:
  assumes "ns_ok s" and "apply_head s i sh = (s', HeadApplied full h t rel)"
    and "k = ref_key (sh_ledger_id sh) (sh_branch sh)"
  obtains e rest where "hm_get (ns_queues s) k = Some (e # rest)" "qe_queue_id e = sh_queue_id sh"
    "s' = head_state s k e rest i sh" "h = sh_commit_id sh" "t = sh_commit_t sh"
  by (rule apply_head_cases [OF assms(1,3) refl, of i]) (use assms(2) that in auto)

text \<open>The queue entry a consumer's command names, and whether the response says it was consumed.\<close>

fun claimed_entry :: "Command \<Rightarrow> (RefKey \<times> u64) option" where
  "claimed_entry (ApplyHead sh) = Some (ref_key (sh_ledger_id sh) (sh_branch sh), sh_queue_id sh)"
| "claimed_entry (PoisonQueueEntry ep) = Some (ref_key (ep_ledger_id ep) (ep_branch ep), ep_queue_id ep)"
| "claimed_entry _ = None"

fun completes :: "Response \<Rightarrow> bool" where
  "completes (HeadApplied _ _ _ _) = True"
| "completes (Poisoned _ _ _ _) = True"
| "completes _ = False"

lemma queue_of_get: "hm_get (ns_queues s) k = Some q \<Longrightarrow> queue_of s k = q"
  by (simp add: queue_of_def)

lemma completed_front:
  assumes ok: "ns_ok s" and c: "claimed_entry c = Some (k, q)" and "completes (snd (ns_apply s c i))"
  obtains e rest where "queue_of s k = e # rest" "qe_queue_id e = q"
    "queue_of (fst (ns_apply s c i)) k = rest" "ns_next_queue_id (fst (ns_apply s c i)) = ns_next_queue_id s"
proof (cases c)
  case (ApplyHead sh)
  then have k: "k = ref_key (sh_ledger_id sh) (sh_branch sh)" and q: "q = sh_queue_id sh" using c by simp_all
  show ?thesis
    by (rule apply_head_cases [OF ok k refl, of i]) (use assms(3) ApplyHead q that in \<open>auto simp: queue_of_get\<close>)
next
  case (PoisonQueueEntry ep)
  then have k: "k = ref_key (ep_ledger_id ep) (ep_branch ep)" and q: "q = ep_queue_id ep" using c by simp_all
  have pop: "queue_of (fst (record_outcome (consume_front s k rest) e out)) k = rest" for e out rest
    using queue_of_cong [OF record_queues(1)] queue_of_consume by metis
  show ?thesis
    by (rule poison_cases [OF k refl, of s i])
      (use assms(3) PoisonQueueEntry q that pop in \<open>auto simp: queue_of_get consume_front_def\<close>)
qed (use c in auto)

lemma completed_used_up:
  assumes ok: "ns_ok s" and ids: "ids_ok s n" and "claimed_entry c = Some (k, q)" "completes (snd (ns_apply s c i))"
  shows "used_up (fst (ns_apply s c i)) k q"
proof (rule completed_front [OF ok assms(3,4)])
  fix e rest
  assume q: "queue_of s k = e # rest" "qe_queue_id e = q" "queue_of (fst (ns_apply s c i)) k = rest"
    "ns_next_queue_id (fst (ns_apply s c i)) = ns_next_queue_id s"
  have "sorted_wrt (<) (map qe_queue_id (e # rest))" "\<forall>x \<in> set (e # rest). qe_queue_id x < ns_next_queue_id s"
    using ids unfolding ids_ok_def q(1) [symmetric] by blast+
  then show ?thesis using q by (auto simp: used_up_def)
qed

lemma used_up_not_completed:
  assumes "ns_ok s" "used_up s k q" "claimed_entry c = Some (k, q)"
  shows "\<not> completes (snd (ns_apply s c i))"
  using completed_front [OF assms(1,3)] assms(2) by (metis image_eqI list.set_intros(1) used_up_def)

lemma ns_run_append: "ns_run s (es @ es') = ns_run (ns_run s es) es'"
  by (induction s es rule: ns_run.induct) simp_all

lemma same_branches: "\<exists>n. r = r\<lparr>re_branches := n\<rparr>"
  by (intro exI [of _ "re_branches r"]) simp

lemma replicas_responses:
  "ns_ok s \<Longrightarrow> stamped s n \<Longrightarrow> increasing n es \<Longrightarrow> replica_eq s t \<Longrightarrow> ns_responses s es = ns_responses t es"
proof (induction s es arbitrary: n t rule: ns_run.induct)
  case (2 s i c es)
  have eq: "agree (ns_apply s c i) (ns_apply t c i)" using agree_apply 2(3,5) by (simp add: stamped_def)
  then show ?case using 2(1) [OF ns_ok_apply [OF 2(2)] stamped_step [OF 2(2,3)]] 2(4) by simp
qed simp

lemma increasing_append: "increasing n (es @ es') \<Longrightarrow> increasing n es \<and> (\<forall>s. ns_ok s \<longrightarrow> stamped s n \<longrightarrow>
  (\<exists>m. stamped (ns_run s es) m \<and> increasing m es'))"
proof (induction es arbitrary: n)
  case (Cons e es)
  obtain i c where e: "e = (i, c)" by (cases e)
  show ?case using Cons(1) [of i] Cons(2) stamped_step [of _ n i c] ns_ok_apply by (auto simp: e)
qed auto

section \<open>A sample log\<close>

definition ns_cid :: "nat \<Rightarrow> ContentId" where
  "ns_cid n = ContentId [of_nat n]"

definition ns_key :: IdempotencyCacheKey where
  "ns_key = \<lparr>ck_ledger_id = ''db:main'', ck_key = IdempotencyKey ''k''\<rparr>"

definition ns_sub :: "nat \<Rightarrow> QueueSubmission" where
  "ns_sub n = \<lparr>qs_ledger_id = ''db'', qs_branch = ''main'', qs_idempotency = Some ns_key,
     qs_request_cid = ns_cid n, qs_body_cid = ns_cid 9, qs_body_kind = JsonLdInsert, qs_applied_at_millis = 10\<rparr>"

definition ns_staged :: "u64 \<Rightarrow> StagedHead" where
  "ns_staged q = \<lparr>sh_ledger_id = ''db'', sh_branch = ''main'', sh_queue_id = q, sh_commit_id = ns_cid 7,
     sh_commit_t = 1, sh_applied_at_millis = 11, sh_tally = None, sh_flake_count = 3\<rparr>"

definition ns_ledger :: NewLedger where
  "ns_ledger = \<lparr>nl_ledger_id = ''db'', nl_branch = ''main'', nl_created_at_millis = 5\<rparr>"

definition ns_log :: "(u64 \<times> Command) list" where
  "ns_log = [(1, CreateLedger ns_ledger), (2, EnqueueCommand (ns_sub 1))]"

lemmas ns_sample = ns_cid_def ns_key_def ns_sub_def ns_staged_def ns_ledger_def ns_log_def

lemmas ns_eval = Let_def new_state_def default_queue_config_def create_ledger_def apply_enqueue_command_def
  append_entry_def enqueue_dedup_def queue_of_def global_depth_def branch_known_def ref_key_def format_ledger_id_def
  apply_head_def pop_validated_front_def drop_queue_if_empty_def advance_ref_entry_def self_heal_branch_def
  record_outcome_def applied_outcome_def

lemma ns_log_state:
  "ns_run new_state ns_log = new_state
     \<lparr>ns_ledgers := [(''db'', \<lparr>lr_created_at_millis = 5, lr_created_index = 1, lr_branches = [''main'']\<rparr>)],
      ns_queues := [(ref_key ''db'' ''main'',
        [\<lparr>qe_queue_id = 0, qe_enqueued_index = 2, qe_enqueued_at_millis = 10, qe_idempotency = Some ns_key,
          qe_request_cid = ns_cid 1, qe_body_cid = ns_cid 9, qe_body_kind = JsonLdInsert\<rparr>])],
      ns_next_queue_id := 1\<rparr>"
  by (simp add: ns_log_def ns_sub_def ns_ledger_def ns_eval)

lemma ns_log_applied:
  "snd (apply_head (ns_run new_state ns_log) 3 (ns_staged 0)) = HeadApplied ''db:main'' (ns_cid 7) 1 None"
  unfolding ns_log_state by (simp add: ns_staged_def ns_eval)

section \<open>Properties\<close>

text \<open>
  C29: after any log whatever, the state is well formed: the maps have unique keys, every ledger
  record lists at least one branch and no branch twice, heads, tombstones and queues belong to
  registered branches only, no queue is empty, no tombstoned branch has a queue, and no branch
  with queued work carries a clear marker.
\<close>

theorem nameservice_well_formed: "ns_ok (ns_run new_state es)"
  by (intro ns_ok_run ns_ok_new)

text \<open>
  C14: replicas agree.  If two nodes hold the same state up to the iteration order of their hash
  maps, as after a snapshot is installed on one of them, then under any further log with
  increasing indices they give the same responses and stay the same up to iteration order.
\<close>

theorem replicas_agree:
  assumes "increasing 0 (es @ es')" and "s = ns_run new_state es" and "replica_eq s t"
  shows "ns_responses s es' = ns_responses t es' \<and> replica_eq (ns_run s es') (ns_run t es')"
proof -
  obtain m where "stamped s m" "increasing m es'"
    using increasing_append [OF assms(1)] ns_ok_new stamped_new unfolding assms(2) by blast
  then show ?thesis using replicas_responses replicas_run assms(2,3) ns_ok_reached by blast
qed

definition ns_two :: NameServiceState where
  "ns_two = ns_run new_state (ns_log @ [(3, CreateLedger (ns_ledger\<lparr>nl_ledger_id := ''other''\<rparr>))])"

lemma hm_eq_rev: "hm_ok a \<Longrightarrow> hm_eq a (rev a)"
  by (auto simp: hm_eq_def hm_ok_def rev_map [symmetric] intro!: map_of_inject_set [THEN iffD2])

theorem replicas_agree_witness:
  "replica_eq (fst (ns_apply ns_two (ApplyHead (ns_staged 0)) 4))
     (fst (ns_apply (ns_two\<lparr>ns_ledgers := rev (ns_ledgers ns_two)\<rparr>) (ApplyHead (ns_staged 0)) 4))"
proof -
  let ?es = "ns_log @ [(3, CreateLedger (ns_ledger\<lparr>nl_ledger_id := ''other''\<rparr>))]"
  have "ns_ok ns_two" by (simp add: ns_two_def)
  then have "replica_eq ns_two (ns_two\<lparr>ns_ledgers := rev (ns_ledgers ns_two)\<rparr>)"
    using replica_refl [of ns_two] hm_eq_rev [of "ns_ledgers ns_two"] ns_okD(1) [of ns_two]
    by (simp add: replica_eq_def maps_ok_def)
  moreover have "increasing 0 (?es @ [(4, ApplyHead (ns_staged 0))])" by (simp add: ns_log_def)
  ultimately show ?thesis
    using replicas_agree [of ?es "[(4, ApplyHead (ns_staged 0))]" ns_two] by (simp add: ns_two_def)
qed

text \<open>
  C1: a retry within the retention period is answered, not executed.  Once a keyed submission has
  been applied, resubmitting its body under the same key changes nothing after any log of scoped
  submissions (a key is paired with the identifier of its own branch, as the transactor forms it)
  in which no eviction has a cutoff past the time the outcome was recorded: the answer is the
  recorded commit while the branch is registered and not tombstoned, and otherwise the refusal of
  the branch.
\<close>

theorem retry_not_executed:
  assumes "\<forall>(i, c) \<in> set es. scoped c" and "s = ns_run new_state es"
    and "queue_of s (ref_key (sh_ledger_id sh) (sh_branch sh)) = e # rest" and "qe_idempotency e = Some ck"
    and "apply_head s i sh = (s1, HeadApplied full h t rel)"
    and "\<forall>(i, c) \<in> set es'. scoped c \<and> \<not> expires (sh_applied_at_millis sh) c" and "s2 = ns_run s1 es'"
    and "qs_idempotency qs = Some ck" and "qs_body_cid qs = qe_body_cid e"
  shows "\<exists>r. ar_head r = h \<and> ar_t r = t \<and> ar_request_cid r = qe_request_cid e \<and>
    apply_enqueue_command s2 j qs =
      (s2, if \<not> known s2 (sub_key qs) then LedgerNotFound (format_ledger_id (qs_ledger_id qs) (qs_branch qs))
           else if sub_key qs \<in> ns_retracted s2 then LedgerRetracted (format_ledger_id (qs_ledger_id qs) (qs_branch qs))
           else IdempotencyHit r)"
proof -
  have ok: "ns_ok s" and cok: "cache_ok s" using assms(1,2) by (simp_all add: cache_ok_reached)
  obtain rest' where s1: "s1 = head_state s (ref_key (sh_ledger_id sh) (sh_branch sh)) e rest' i sh"
    and h: "h = sh_commit_id sh" "t = sh_commit_t sh"
    by (rule head_applied [OF ok assms(5) refl]) (use assms(3) in \<open>auto simp: queue_of_def\<close>)
  have ok1: "ns_ok s1" and cok1: "cache_ok s1"
    using ns_ok_apply [OF ok, of "ApplyHead sh" i] cache_ok_step [OF ok cok, of "ApplyHead sh" i] assms(5) by simp_all
  have "hm_get (ns_idempotency s1) ck = Some (applied_outcome e i sh)"
    unfolding s1 by (rule head_state_cached [OF assms(4)])
  moreover have "recorded_at_millis (applied_outcome e i sh) = sh_applied_at_millis sh" by (simp add: applied_outcome_def)
  ultimately have "hm_get (ns_idempotency s2) ck = Some (applied_outcome e i sh)"
    unfolding assms(7) using assms(6) by (intro cached_run ok1 cok1) simp_all
  note hit = retry_answer [OF this [unfolded applied_outcome_def] assms(8), of j]
  show ?thesis by (intro exI conjI, rule_tac [4] hit) (simp_all add: h assms(9))
qed

definition ns_applied :: NameServiceState where
  "ns_applied = fst (apply_head (ns_run new_state ns_log) 3 (ns_staged 0))"

text \<open>The retry comes after an eviction whose cutoff is the very time of the outcome.\<close>

theorem retry_not_executed_witness:
  "\<exists>r. ar_head r = ns_cid 7 \<and>
     apply_enqueue_command (ns_run ns_applied [(4, EvictIdempotency 11 0)]) 5 (ns_sub 2) =
       (ns_run ns_applied [(4, EvictIdempotency 11 0)], IdempotencyHit r)"
proof -
  let ?s = "ns_run new_state ns_log" and ?q = "queue_of (ns_run new_state ns_log) (ref_key ''db'' ''main'')"
  let ?s2 = "ns_run ns_applied [(4, EvictIdempotency 11 0)]"
  have "\<forall>(i, c) \<in> set ns_log. scoped c" by (simp add: ns_sample format_ledger_id_def)
  moreover have "queue_of ?s (ref_key (sh_ledger_id (ns_staged 0)) (sh_branch (ns_staged 0))) = hd ?q # tl ?q"
    by (simp add: ns_log_state queue_of_def ns_staged_def)
  moreover have "qe_idempotency (hd ?q) = Some ns_key" by (simp add: ns_log_state queue_of_def)
  moreover have "apply_head ?s 3 (ns_staged 0) = (ns_applied, HeadApplied ''db:main'' (ns_cid 7) 1 None)"
    by (simp add: prod_eq_iff ns_applied_def ns_log_applied)
  moreover have "qs_body_cid (ns_sub 2) = qe_body_cid (hd ?q)" by (simp add: ns_log_state queue_of_def ns_sub_def)
  moreover have "qs_idempotency (ns_sub 2) = Some ns_key" by (simp add: ns_sub_def)
  moreover have "\<forall>(i, c) \<in> set [(4 :: u64, EvictIdempotency 11 0)]. scoped c \<and> \<not> expires (sh_applied_at_millis (ns_staged 0)) c"
    by (simp add: ns_staged_def)
  ultimately obtain r where r: "ar_head r = ns_cid 7" "apply_enqueue_command ?s2 5 (ns_sub 2) =
      (?s2, if \<not> known ?s2 (sub_key (ns_sub 2)) then LedgerNotFound (format_ledger_id (qs_ledger_id (ns_sub 2)) (qs_branch (ns_sub 2)))
           else if sub_key (ns_sub 2) \<in> ns_retracted ?s2 then LedgerRetracted (format_ledger_id (qs_ledger_id (ns_sub 2)) (qs_branch (ns_sub 2)))
           else IdempotencyHit r)"
    using retry_not_executed [OF _ refl _ _ _ _ refl, of ns_log "ns_staged 0" "hd ?q" "tl ?q" ns_key 3 ns_applied _ _ _ _
        "[(4, EvictIdempotency 11 0)]" "ns_sub 2" 5] by blast
  moreover have "known ?s2 (sub_key (ns_sub 2))" "sub_key (ns_sub 2) \<notin> ns_retracted ?s2"
    unfolding ns_applied_def ns_log_state
    by (simp_all add: ns_sub_def ns_staged_def ns_eval apply_evict_idempotency_def case_prod_beta known_def)
  ultimately show ?thesis by auto
qed

text \<open>
  C17: a queue entry is consumed at most once.  After an \<open>ApplyHead\<close> or a \<open>PoisonQueueEntry\<close> has
  consumed an entry, no later command of either kind that names the same branch and queue id
  consumes anything, in any continuation shorter than the range of the \<open>u64\<close> id generator.
\<close>

theorem entry_consumed_once:
  assumes "s = ns_run new_state es" and "claimed_entry c = Some (k, q)" and "completes (snd (ns_apply s c i))"
    and "s' = ns_run (fst (ns_apply s c i)) es'" and "length es + length es' + 1 < 2 ^ 64"
    and "claimed_entry c' = Some (k, q)"
  shows "\<not> completes (snd (ns_apply s' c' j))"
proof -
  have ids: "ids_ok s (length es)" using ids_ok_run [OF ns_ok_new ids_ok_new, of es] assms(1,5) by simp
  have ok: "ns_ok s" by (simp add: assms(1))
  have "ids_ok (fst (ns_apply s c i)) (Suc (length es))" using ids assms(5) by (intro ids_ok_step ok) simp_all
  moreover have "used_up (fst (ns_apply s c i)) k q" by (rule completed_used_up [OF ok ids assms(2,3)])
  ultimately have "used_up s' k q"
    unfolding assms(4) using ok assms(5) by (intro used_up_run [of _ "Suc (length es)"] ns_ok_apply) simp_all
  moreover have "ns_ok s'" unfolding assms(4) by (intro ns_ok_run ns_ok_apply ok)
  ultimately show ?thesis using used_up_not_completed assms(6) by blast
qed

theorem entry_consumed_once_witness: "\<not> completes (snd (ns_apply ns_applied (ApplyHead (ns_staged 0)) 4))"
proof -
  have "length ns_log + length ([] :: (u64 \<times> Command) list) + 1 < 2 ^ 64" by (simp add: ns_log_def)
  then show ?thesis
    using entry_consumed_once [of "ns_run new_state ns_log" ns_log "ApplyHead (ns_staged 0)"
        "ref_key ''db'' ''main''" 0 3 ns_applied "[]" "ApplyHead (ns_staged 0)" 4]
    by (simp add: ns_applied_def ns_log_applied) (simp add: ns_staged_def)
qed

text \<open>
  C3: a branch head never regresses.  As long as the branch is not dropped, purged or reset by an
  administrator, its commit head is after any log the same commit or one with a larger \<open>t\<close>.
\<close>

theorem head_never_regresses:
  assumes "s = ns_run new_state es" and "hm_get (ns_refs s) k = Some r"
    and "\<forall>(i, c) \<in> set es'. \<not> resets k c"
  shows "\<exists>r'. hm_get (ns_refs (ns_run s es')) k = Some r' \<and>
           (re_t r < re_t r' \<or> re_t r = re_t r' \<and> re_head r = re_head r')"
  using ns_run_head_le [OF _ assms(2,3)] assms(1) by (simp add: head_le_def)

theorem head_never_regresses_witness:
  "\<exists>r'. hm_get (ns_refs (ns_run (ns_run new_state (ns_log @ [(3, ApplyHead (ns_staged 0))]))
      [(4, ApplyHead ((ns_staged 0)\<lparr>sh_commit_t := 0\<rparr>)), (5, RetractLedger ''db'' ''main'' 20)])) (ref_key ''db'' ''main'') = Some r' \<and>
     1 \<le> re_t r'"
proof -
  let ?s = "ns_run new_state (ns_log @ [(3, ApplyHead (ns_staged 0))])"
  have "\<exists>r. hm_get (ns_refs ?s) (ref_key ''db'' ''main'') = Some r \<and> re_t r = 1"
    by (simp add: ns_log_def ns_sub_def ns_ledger_def ns_staged_def ns_eval)
  then obtain r where "hm_get (ns_refs ?s) (ref_key ''db'' ''main'') = Some r" "re_t r = 1" by blast
  then show ?thesis
    using head_never_regresses [OF refl, of "ns_log @ [(3, ApplyHead (ns_staged 0))]" "ref_key ''db'' ''main''" r
      "[(4, ApplyHead ((ns_staged 0)\<lparr>sh_commit_t := 0\<rparr>)), (5, RetractLedger ''db'' ''main'' 20)]"]
    by (auto simp del: ns_run.simps)
qed

text \<open>
  C9: only an administrative reset can put an index ahead of its branch.  After any log that leaves
  the index head of a branch at or behind its commit head, the next command puts it ahead exactly
  when it is a \<open>ResetHead\<close> of that branch that is carried out and whose snapshot has an index past
  its commit, which \<open>reset_head\<close> does not check; publishing an index, compare-and-set, branching and
  every other command never do.
\<close>

theorem index_ahead_only_by_reset:
  assumes "\<not> index_ahead (ns_run new_state es) k"
  shows "index_ahead (ns_run new_state (es @ [(i, c)])) k \<longleftrightarrow>
    ahead_reset k c \<and> was_reset (snd (ns_apply (ns_run new_state es) c i))"
  using index_ahead_step [OF ns_ok_run [OF ns_ok_new] assms] by (simp add: ns_run_append)

definition ns_ahead :: ResetHeadSnapshot where
  "ns_ahead = \<lparr>rs_commit_head_id = Some (ns_cid 7), rs_commit_t = 1, rs_index_head_id = Some (ns_cid 8), rs_index_t = 5\<rparr>"

theorem index_ahead_only_by_reset_witness:
  "index_ahead (ns_run new_state (ns_log @ [(3, ResetHead ''db'' ''main'' ns_ahead 20)])) (ref_key ''db'' ''main'')"
proof -
  have "\<not> index_ahead (ns_run new_state ns_log) (ref_key ''db'' ''main'')"
    unfolding ns_log_state by (simp add: index_ahead_def new_state_def)
  moreover have "was_reset (snd (ns_apply (ns_run new_state ns_log) (ResetHead ''db'' ''main'' ns_ahead 20) 3))"
    unfolding ns_log_state by (simp add: reset_head_def ns_ahead_def ns_eval case_prod_beta)
  ultimately show ?thesis using index_ahead_only_by_reset [of ns_log "ref_key ''db'' ''main''" 3 "ResetHead ''db'' ''main'' ns_ahead 20"]
    by (simp add: ns_ahead_def)
qed

text \<open>
  C30: a tombstone freezes its branch.  Until the branch is dropped or purged it stays tombstoned,
  its queue stays empty, and its head, index and lineage stay as they were at the retraction;
  only the number of its child branches can still change.
\<close>

theorem tombstone_freezes:
  assumes "s = ns_run new_state es" and "k \<in> ns_retracted s" and "\<forall>(i, c) \<in> set es'. \<not> removes k c"
    and "s' = ns_run s es'"
  shows "k \<in> ns_retracted s' \<and> queue_of s' k = [] \<and>
         map_option (re_branches_update (\<lambda>_. 0)) (hm_get (ns_refs s') k) =
         map_option (re_branches_update (\<lambda>_. 0)) (hm_get (ns_refs s) k)"
proof -
  have "frozen_as s k (hm_get (ns_refs s) k)"
    using assms(2) same_branches by (auto simp: frozen_as_def split: option.splits)
  then have "frozen_as s' k (hm_get (ns_refs s) k)"
    unfolding assms(4) using assms(1,3) by (intro frozen_run) simp_all
  moreover have "ns_ok s'" by (simp add: assms(1,4) ns_ok_run)
  ultimately show ?thesis
    using ns_okD(5) [of s' k] by (auto simp: frozen_as_def queue_of_def split: option.splits)
qed

theorem tombstone_freezes_witness:
  "queue_of (ns_run (ns_run new_state (ns_log @ [(3, RetractLedger ''db'' ''main'' 20)]))
     [(4, EnqueueCommand (ns_sub 3))]) (ref_key ''db'' ''main'') = []"
proof -
  have "ref_key ''db'' ''main'' \<in> ns_retracted (ns_run new_state (ns_log @ [(3, RetractLedger ''db'' ''main'' 20)]))"
    by (simp add: ns_log_def ns_sub_def ns_ledger_def ns_eval retract_ledger_def clear_queue_for_admin_def)
  from tombstone_freezes [OF refl this _ refl, of "[(4, EnqueueCommand (ns_sub 3))]"] show ?thesis by simp
qed

text \<open>
  C10: the queue caps hold.  After any log no branch has more queued entries than
  \<open>per_branch_cap\<close>, and all branches together no more than \<open>global_cap\<close>.
\<close>

theorem queue_caps_hold:
  "length (queue_of (ns_run new_state es) k) \<le> per_branch_cap default_queue_config \<and>
   global_depth (ns_run new_state es) \<le> global_cap default_queue_config"
proof -
  have "caps_ok new_state" by (simp add: caps_ok_def new_state_def queue_of_def global_depth_def)
  then have "caps_ok (ns_run new_state es)" by (intro caps_ok_run ns_ok_new)
  moreover have "ns_queue_config (ns_run s es) = ns_queue_config s" for s
    by (induction s es rule: ns_run.induct) (simp_all add: config_step)
  ultimately show ?thesis by (simp add: caps_ok_def new_state_def)
qed

text \<open>
  C15: no envelope is lost and none is released twice.  Over any log whose submissions are scoped to
  their own branch, the envelopes of the accepted submissions are exactly, as multisets, those
  handed back for release and those still referenced by a queue or by the idempotency cache.
\<close>

theorem envelopes_conserved:
  assumes "\<forall>(i, c) \<in> set es. scoped c"
  shows "all_submitted (ns_responses new_state es) =
         all_released (ns_responses new_state es) + held (ns_run new_state es)"
proof -
  have "held new_state = {#}" by (simp add: held_def queued_cids_def cached_cids_def new_state_def)
  then show ?thesis using held_run [OF ns_ok_new cache_ok_new assms] by (simp add: add.commute)
qed

theorem envelopes_conserved_witness:
  "all_submitted (ns_responses new_state ns_log) =
   all_released (ns_responses new_state ns_log) + held (ns_run new_state ns_log)"
  by (rule envelopes_conserved) (simp add: ns_sample format_ledger_id_def)

end
