(* ===== verification/Ns_Evict.thy ===== *)
theory Ns_Evict
  imports Ns_Props
begin

text \<open>
  The eviction batch of the idempotency cache: which outcomes it removes, that it takes the
  oldest first and at most \<open>EVICT_BATCH_SIZE\<close> of them, and that repeating it drains the backlog.
\<close>

section \<open>The candidates\<close>

abbreviation cache_of :: "NameServiceState \<Rightarrow> (IdempotencyCacheKey, ApplyOutcome) hmap" where
  "cache_of s \<equiv> ns_idempotency s"

definition age :: "ApplyOutcome \<Rightarrow> u64 \<times> u64" where
  "age out = (recorded_at_millis out, recorded_index out)"

definition expired_keys :: "(IdempotencyCacheKey, ApplyOutcome) hmap \<Rightarrow> u64 \<Rightarrow> IdempotencyCacheKey set" where
  "expired_keys m cutoff = {k. \<exists>out. hm_get m k = Some out \<and> recorded_at_millis out < cutoff}"

definition candidates ::
  "(IdempotencyCacheKey, ApplyOutcome) hmap \<Rightarrow> u64 \<Rightarrow> (u64 \<times> u64 \<times> IdempotencyCacheKey) list" where
  "candidates m cutoff =
     List.map_filter (\<lambda>(key, outcome).
       if recorded_at_millis outcome < cutoff
       then Some (recorded_at_millis outcome, recorded_index outcome, key) else None) m"

lemma candidates_simps [simp]:
  "candidates [] cutoff = []"
  "candidates ((k, out) # m) cutoff =
     (if recorded_at_millis out < cutoff
      then (recorded_at_millis out, recorded_index out, k) # candidates m cutoff else candidates m cutoff)"
  by (simp_all add: candidates_def List.map_filter_def)

lemma expired_outcomes_candidates:
  "expired_outcomes m cutoff = take EVICT_BATCH_SIZE (sort_key (\<lambda>(ts, idx, _). (ts, idx)) (candidates m cutoff))"
  by (simp add: expired_outcomes_def candidates_def)

abbreviation cand_key :: "u64 \<times> u64 \<times> IdempotencyCacheKey \<Rightarrow> IdempotencyCacheKey" where
  "cand_key \<equiv> snd \<circ> snd"

lemma in_candidates0:
  "x \<in> set (candidates m cutoff) \<longleftrightarrow>
     (\<exists>out. (cand_key x, out) \<in> set m \<and> recorded_at_millis out < cutoff \<and> age out = (fst x, fst (snd x)))"
proof (induction m)
  case (Cons e m)
  obtain k out where e: "e = (k, out)" by (cases e)
  show ?case unfolding e candidates_simps using Cons by (cases x) (auto simp: age_def)
qed simp

lemma in_candidates:
  "hm_ok m \<Longrightarrow> x \<in> set (candidates m cutoff) \<longleftrightarrow>
     (\<exists>out. hm_get m (cand_key x) = Some out \<and> recorded_at_millis out < cutoff \<and> age out = (fst x, fst (snd x)))"
  unfolding in_candidates0 using hm_in_get hm_get_in by metis

lemma distinct_candidates: "hm_ok m \<Longrightarrow> distinct (map cand_key (candidates m cutoff))"
proof (induction m)
  case (Cons e m)
  obtain k out where e: "e = (k, out)" by (cases e)
  have "k \<notin> cand_key ` set (candidates m cutoff)" using Cons(2) by (force simp: e hm_ok_def in_candidates0)
  then show ?case using Cons by (simp add: e hm_ok_def)
qed simp

lemma candidate_keys:
  assumes "hm_ok m"
  shows "cand_key ` set (candidates m cutoff) = expired_keys m cutoff"
proof (intro equalityI subsetI)
  fix k assume "k \<in> expired_keys m cutoff"
  then obtain out where "hm_get m k = Some out" "recorded_at_millis out < cutoff" by (auto simp: expired_keys_def)
  then have "(recorded_at_millis out, recorded_index out, k) \<in> set (candidates m cutoff)"
    by (simp add: in_candidates [OF assms] age_def)
  then show "k \<in> cand_key ` set (candidates m cutoff)" by force
qed (auto simp: expired_keys_def in_candidates [OF assms])

section \<open>The batch\<close>

text \<open>What one batch takes, as a set of keys: the oldest expired ones, up to the batch size.\<close>

definition batch_keys :: "(IdempotencyCacheKey, ApplyOutcome) hmap \<Rightarrow> u64 \<Rightarrow> IdempotencyCacheKey set" where
  "batch_keys m cutoff = cand_key ` set (expired_outcomes m cutoff)"

lemma batch:
  assumes "hm_ok m" and "R = batch_keys m cutoff"
  shows "R \<subseteq> expired_keys m cutoff"
    and "card R = min EVICT_BATCH_SIZE (card (expired_keys m cutoff))"
    and "length (expired_outcomes m cutoff) = card R"
    and "k \<in> R \<Longrightarrow> hm_get m k = Some a \<Longrightarrow> j \<in> expired_keys m cutoff - R \<Longrightarrow> hm_get m j = Some b \<Longrightarrow> age a \<le> age b"
proof -
  let ?key = "\<lambda>(ts :: u64, idx :: u64, _ :: IdempotencyCacheKey). (ts, idx)"
  define L where "L = sort_key ?key (candidates m cutoff)"
  define N where "N = EVICT_BATCH_SIZE"
  have set_L: "set L = set (candidates m cutoff)" by (simp add: L_def)
  have ex: "expired_outcomes m cutoff = take N L" by (simp add: expired_outcomes_candidates L_def N_def)
  have R: "R = cand_key ` set (take N L)" by (simp add: assms(2) batch_keys_def ex)
  have "mset (map cand_key L) = mset (map cand_key (candidates m cutoff))" by (simp add: L_def)
  then have d: "distinct (map cand_key L)" using distinct_candidates [OF assms(1)] mset_eq_imp_distinct_iff by blast
  have keys: "cand_key ` set L = expired_keys m cutoff" by (simp only: set_L candidate_keys [OF assms(1)])
  have len: "length L = card (expired_keys m cutoff)" using distinct_card [OF d] keys by simp
  have dt: "distinct (map cand_key (take N L))" using d by (simp add: take_map [symmetric])
  show "R \<subseteq> expired_keys m cutoff" using set_take_subset [of N L] unfolding R keys [symmetric] by (rule image_mono)
  show "card R = min EVICT_BATCH_SIZE (card (expired_keys m cutoff))"
    using distinct_card [OF dt] len by (simp add: R N_def min.commute)
  show "length (expired_outcomes m cutoff) = card R" using distinct_card [OF dt] by (simp add: R ex)
  have "sorted (map ?key (take N L @ drop N L))" by (simp add: L_def)
  then have le: "?key x \<le> ?key y" if "x \<in> set (take N L)" "y \<in> set (drop N L)" for x y
    using that unfolding map_append sorted_append by auto
  show "age a \<le> age b" if kR: "k \<in> R" and "hm_get m k = Some a" "j \<in> expired_keys m cutoff - R" "hm_get m j = Some b"
  proof -
    obtain x where x: "k = cand_key x" "x \<in> set (take N L)" using kR unfolding R by (rule imageE)
    from that(3) have j: "j \<in> cand_key ` set L" by (simp only: keys Diff_iff)
    obtain y where y: "j = cand_key y" "y \<in> set L" using j by (rule imageE)
    have "y \<notin> set (take N L)" using that(3) unfolding y(1) R by blast
    then have "y \<in> set (drop N L)" using y(2) by (metis append_take_drop_id Un_iff set_append)
    moreover have "?key x = age a" "?key y = age b"
      using in_set_takeD [OF x(2)] y(2) that(2,4) unfolding set_L x(1) y(1)
      by (auto simp: in_candidates [OF assms(1)] case_prod_beta)
    ultimately show ?thesis using le [OF x(2)] by metis
  qed
qed

lemma evict_unfold:
  "apply_evict_idempotency s co mco =
     (s\<lparr>ns_idempotency := fst (evict_keys (cache_of s) (expired_outcomes (cache_of s) co)),
        ns_evicted_idempotency_count :=
          ns_evicted_idempotency_count s + of_nat (length (expired_outcomes (cache_of s) co)),
        ns_recently_cleared := filter (\<lambda>(_, marker). mco \<le> cm_applied_at_millis marker) (ns_recently_cleared s)\<rparr>,
      EvictionApplied (length (expired_outcomes (cache_of s) co))
        (snd (evict_keys (cache_of s) (expired_outcomes (cache_of s) co))))"
  by (simp add: apply_evict_idempotency_def Let_def case_prod_beta)

lemma evict_cache:
  "hm_get (cache_of (fst (apply_evict_idempotency s co mco))) k =
     (if k \<in> batch_keys (cache_of s) co then None else hm_get (cache_of s) k)"
  by (simp add: evict_unfold evict_keys_get batch_keys_def)

text \<open>Each batch takes away a full batch of the backlog, or all of it.\<close>

lemma cache_backlog:
  assumes "hm_ok (cache_of s)"
  shows "card (expired_keys (cache_of (fst (apply_evict_idempotency s co mco))) co) =
         card (expired_keys (cache_of s) co) - EVICT_BATCH_SIZE"
proof -
  let ?R = "batch_keys (cache_of s) co"
  note b = batch [OF assms, of ?R co, OF refl]
  have "expired_keys (cache_of (fst (apply_evict_idempotency s co mco))) co = expired_keys (cache_of s) co - ?R"
    by (auto simp: expired_keys_def evict_cache split: if_splits)
  moreover have "finite ?R" by (simp add: batch_keys_def)
  ultimately show ?thesis using card_Diff_subset [OF _ b(1)] b(2) by simp
qed

fun evict_rounds :: "NameServiceState \<Rightarrow> u64 \<Rightarrow> u64 \<Rightarrow> nat \<Rightarrow> NameServiceState" where
  "evict_rounds s co mco 0 = s"
| "evict_rounds s co mco (Suc n) = evict_rounds (fst (apply_evict_idempotency s co mco)) co mco n"

lemma rounds_backlog:
  "ns_ok s \<Longrightarrow> card (expired_keys (cache_of (evict_rounds s co mco n)) co) =
     card (expired_keys (cache_of s) co) - n * EVICT_BATCH_SIZE"
proof (induction n arbitrary: s)
  case (Suc n)
  have "ns_ok (fst (apply_evict_idempotency s co mco))"
    using ns_ok_apply [OF Suc(2), of "EvictIdempotency co mco"] by simp
  moreover have "hm_ok (cache_of s)" using ns_okD(1) [OF Suc(2)] by (simp add: maps_ok_def)
  ultimately show ?case by (simp add: Suc(1) cache_backlog)
qed simp

section \<open>Properties\<close>

text \<open>
  C33: an eviction takes the oldest first and never more than a batch.  It removes only outcomes
  recorded before the cutoff, as many as there are up to \<open>EVICT_BATCH_SIZE\<close>, reports how many,
  leaves every other cached outcome as it was, and no outcome it leaves behind although expired is
  older than one it removed.
\<close>

theorem eviction_oldest_first:
  assumes "s = ns_run new_state es" and "apply_evict_idempotency s co mco = (s', EvictionApplied n env)"
    and "R = {k. hm_get (ns_idempotency s) k \<noteq> None \<and> hm_get (ns_idempotency s') k = None}"
  shows "n = card R \<and> card R = min EVICT_BATCH_SIZE (card (expired_keys (ns_idempotency s) co)) \<and>
         R \<subseteq> expired_keys (ns_idempotency s) co \<and>
         (\<forall>k. k \<notin> R \<longrightarrow> hm_get (ns_idempotency s') k = hm_get (ns_idempotency s) k) \<and>
         (\<forall>k a j b. k \<in> R \<longrightarrow> hm_get (ns_idempotency s) k = Some a \<longrightarrow>
            hm_get (ns_idempotency s') j = Some b \<longrightarrow> recorded_at_millis b < co \<longrightarrow> age a \<le> age b)"
proof -
  have ok: "hm_ok (cache_of s)" using ns_okD(1) [OF ns_ok_reached] by (simp add: assms(1) maps_ok_def)
  define T where "T = batch_keys (cache_of s) co"
  note b = batch [OF ok T_def]
  have s': "s' = fst (apply_evict_idempotency s co mco)" and n: "n = length (expired_outcomes (cache_of s) co)"
    using assms(2) arg_cong [OF assms(2), of fst] by (simp_all add: evict_unfold [of s co mco])
  have get: "hm_get (cache_of s') k = (if k \<in> T then None else hm_get (cache_of s) k)" for k
    by (simp add: s' evict_cache T_def)
  have R: "R = T" unfolding assms(3) using b(1) by (auto simp: get expired_keys_def)
  have old: "age a \<le> age c" if "k \<in> T" "hm_get (cache_of s) k = Some a" "hm_get (cache_of s') j = Some c"
    "recorded_at_millis c < co" for k a j c
  proof -
    have "j \<notin> T" "hm_get (cache_of s) j = Some c" using that(3) by (auto simp: get split: if_splits)
    then have "j \<in> expired_keys (cache_of s) co - T" using that(4) by (auto simp: expired_keys_def)
    then show ?thesis using b(4) that(1,2) \<open>hm_get (cache_of s) j = Some c\<close> by blast
  qed
  show ?thesis using b(1,2,3) old by (simp add: R n get)
qed

lemma applied_expired: "expired_keys (ns_idempotency ns_applied) 50 = {ns_key}"
  unfolding ns_applied_def ns_log_state by (auto simp: expired_keys_def ns_staged_def ns_eval)

lemma applied_run: "ns_applied = ns_run new_state (ns_log @ [(3, ApplyHead (ns_staged 0))])"
  by (simp add: ns_applied_def ns_log_def)

theorem eviction_oldest_first_witness:
  "card {k. hm_get (ns_idempotency ns_applied) k \<noteq> None \<and>
      hm_get (ns_idempotency (fst (apply_evict_idempotency ns_applied 50 0))) k = None} = 1"
  using eviction_oldest_first [OF applied_run evict_unfold [of _ 50 0] refl]
  by (simp add: evict_unfold applied_expired EVICT_BATCH_SIZE_def)

text \<open>
  C34: repeated eviction drains the cache.  After \<open>n\<close> batches at one cutoff the backlog of expired
  outcomes has shrunk by \<open>n\<close> times the batch size, so enough batches leave no expired outcome.
\<close>

theorem eviction_drains:
  assumes "s = ns_run new_state es" and "card (expired_keys (ns_idempotency s) co) \<le> n * EVICT_BATCH_SIZE"
  shows "expired_keys (ns_idempotency (evict_rounds s co mco n)) co = {}"
proof -
  have "finite (expired_keys m co)" for m
    by (rule finite_subset [of _ "fst ` set m"]) (auto simp: expired_keys_def rev_image_eqI dest!: map_of_SomeD)
  then show ?thesis using rounds_backlog [of s co mco n] assms by simp
qed

theorem eviction_drains_witness: "expired_keys (ns_idempotency (evict_rounds ns_applied 50 0 1)) 50 = {}"
proof -
  have "card (expired_keys (ns_idempotency ns_applied) 50) \<le> 1 * EVICT_BATCH_SIZE"
    by (simp add: applied_expired EVICT_BATCH_SIZE_def)
  then show ?thesis by (rule eviction_drains [OF applied_run])
qed

end
