(* ===== verification/Ns_Errors.thy ===== *)
theory Ns_Errors
  imports Ns_Props
begin

text \<open>
  The error paths of the nameservice: a command that is refused leaves the state as it was, and a
  desynchronised worker at most consumes the one-shot clear marker of its branch.
\<close>

section \<open>Refusals\<close>

fun refusal :: "Response \<Rightarrow> bool" where
  "refusal (IndexStale _) = True"
| "refusal (IndexAhead _ _) = True"
| "refusal (RefCasConflict _) = True"
| "refusal (StatusConflict _) = True"
| "refusal (ConfigConflict _) = True"
| "refusal (GraphSourceIndexStale _) = True"
| "refusal (GraphSourceNotFound _) = True"
| "refusal (GraphSourceAlreadyRetracted _) = True"
| "refusal (AlreadyExists _) = True"
| "refusal (SourceBranchNotFound _) = True"
| "refusal (BranchHasChildren _ _) = True"
| "refusal (AlreadyRetracted _) = True"
| "refusal (LedgerRetracted _) = True"
| "refusal (AlreadyPurged _) = True"
| "refusal (LedgerNotFound _) = True"
| "refusal BodyHashMismatch = True"
| "refusal (IdempotencyHit _) = True"
| "refusal (IdempotencyFailed _) = True"
| "refusal (InFlight _ _) = True"
| "refusal (QueueFull _ _ _ _) = True"
| "refusal (WorkerEligibilityRefused _ _ _) = True"
| "refusal _ = False"

lemma refused_create_ledger:
  "refusal (snd (create_ledger s i nl)) \<Longrightarrow> fst (create_ledger s i nl) = s"
  by (cases "hm_get (ns_ledgers s) (nl_ledger_id nl)")
    (simp_all add: create_ledger_def Let_def hm_insert_same split: if_splits)

lemma unregister_found: "snd (unregister_branch s l b) = branch_known (ns_ledgers s) l b"
proof -
  have "length (filter (\<lambda>c. c \<noteq> b) bs) < length bs \<longleftrightarrow> b \<in> set bs" for bs
    by (induction bs) (auto simp: less_Suc_eq_le)
  then show ?thesis by (simp add: unregister_branch_def branch_known_def Let_def split: option.splits)
qed

lemma unregister_absent:
  assumes "ledgers_ok s" "\<not> branch_known (ns_ledgers s) l b"
  shows "fst (unregister_branch s l b) = s"
proof (cases "hm_get (ns_ledgers s) l")
  case (Some r)
  then have "filter (\<lambda>c. c \<noteq> b) (lr_branches r) = lr_branches r" "lr_branches r \<noteq> []"
    using assms by (auto simp: branch_known_def ledgers_ok_def filter_id_conv)
  then show ?thesis using Some by (simp add: unregister_branch_def Let_def hm_insert_same)
qed (simp add: unregister_branch_def)

lemma refused_purge:
  assumes ok: "ns_ok s" and r: "refusal (snd (purge_branch s l b m))"
  shows "fst (purge_branch s l b m) = s"
proof (cases "has_children s (ref_key l b)")
  case True
  then show ?thesis by (simp add: fst_purge_branch)
next
  case False
  let ?k = "ref_key l b"
  have gone: "hm_get (ns_refs s) ?k = None" "?k \<notin> ns_retracted s" "\<not> branch_known (ns_ledgers s) l b"
    using r False
    by (auto simp: purge_unfold Let_def has_children_def detach_def unregister_found split: if_splits option.splits)
  then have q: "hm_get (ns_queues s) ?k = None" using ns_okD(5) [OF ok, of ?k] by fastforce
  have "remove_branch s l b BranchPurgedReason m = s"
    using gone q ns_okD(2) [OF ok]
    by (simp add: remove_branch_def Let_def hm_remove_absent unregister_absent clear_queue_for_admin_def)
  then show ?thesis by (simp add: fst_purge_branch)
qed

lemma refused_drop: "refusal (snd (drop_branch s l b m)) \<Longrightarrow> fst (drop_branch s l b m) = s"
  by (simp add: drop_branch_def Let_def case_prod_beta split: if_splits)

lemma refused_enqueue: "refusal (snd (apply_enqueue_command s i qs)) \<Longrightarrow> fst (apply_enqueue_command s i qs) = s"
  by (rule enqueue_cases [of s i qs]) simp_all

lemma refused_apply_head: "ns_ok s \<Longrightarrow> refusal (snd (apply_head s i sh)) \<Longrightarrow> fst (apply_head s i sh) = s"
  by (rule apply_head_cases [OF _ refl refl, of s sh i]) simp_all

lemma refused_poison: "\<not> refusal (snd (apply_poison_queue_entry s i ep))"
  by (rule poison_cases [OF refl refl, of s i ep]) simp_all

lemma refused_push:
  "refusal (snd (push_status s l ex new)) \<Longrightarrow> fst (push_status s l ex new) = s"
  "refusal (snd (push_config s cu)) \<Longrightarrow> fst (push_config s cu) = s"
  by (simp_all add: push_status_def push_config_def apply_versioned_push_def Let_def
      split: sum.splits prod.splits if_splits)

lemma refused_index: "refusal (snd (set_index_head s ni st)) \<Longrightarrow> fst (set_index_head s ni st) = s"
  by (auto simp: set_index_head_def Let_def split: option.splits if_splits)

lemma refused_cas: "refusal (snd (apply_compare_and_set_ref s i rc)) \<Longrightarrow> fst (apply_compare_and_set_ref s i rc) = s"
  by (auto simp: apply_compare_and_set_ref_def Let_def case_prod_beta split: option.splits RefKind.splits if_splits)

lemma refused_branch:
  "refusal (snd (create_branch s i nb)) \<Longrightarrow> fst (create_branch s i nb) = s"
  "refusal (snd (reset_head s l b snap m)) \<Longrightarrow> fst (reset_head s l b snap m) = s"
  "refusal (snd (retract_ledger s l b m)) \<Longrightarrow> fst (retract_ledger s l b m) = s"
  by (auto simp: create_branch_def reset_head_def retract_ledger_def Let_def case_prod_beta
      split: option.splits if_splits)

lemma refused_graph_source:
  "\<not> refusal (snd (apply_publish_graph_source s n b ty cfg deps))"
  "refusal (snd (apply_publish_graph_source_index s n b ixid ixt)) \<Longrightarrow> fst (apply_publish_graph_source_index s n b ixid ixt) = s"
  "refusal (snd (apply_retract_graph_source s n b)) \<Longrightarrow> fst (apply_retract_graph_source s n b) = s"
  by (auto simp: apply_publish_graph_source_def apply_publish_graph_source_index_def apply_retract_graph_source_def
      Let_def split: option.splits if_splits)

lemma refused_other:
  "\<not> refusal (snd (apply_evict_idempotency s co mco))"
  "refusal (snd (apply_set_worker_eligibility s we)) \<Longrightarrow> fst (apply_set_worker_eligibility s we) = s"
  by (simp add: apply_evict_idempotency_def case_prod_beta Let_def)
    (cases "we_voter we \<in> set (ns_configured_voters s)"; cases "we_eligible we";
      simp add: apply_set_worker_eligibility_def Let_def)

lemmas refused = refused_create_ledger refused_purge refused_drop refused_enqueue refused_apply_head refused_poison
  refused_push refused_index refused_cas refused_branch refused_graph_source refused_other

section \<open>Properties\<close>

text \<open>
  C31: a refused command changes nothing.  Whenever a command is answered by a conflict, a stale or
  unknown target, a tombstone, a duplicate, a full queue or a cached outcome, the state after it is
  the state before it.
\<close>

theorem refused_changes_nothing:
  assumes "s = ns_run new_state es" and "refusal (snd (ns_apply s c i))"
  shows "fst (ns_apply s c i) = s"
  using assms(2) ns_ok_reached [of es, folded assms(1)]
  by (cases c) (simp_all add: refused advance_index_head_def rewrite_index_head_def)

theorem refused_changes_nothing_witness:
  "fst (ns_apply (ns_run new_state ns_log) (EnqueueCommand (ns_sub 2)) 3) = ns_run new_state ns_log"
proof -
  have "snd (ns_apply (ns_run new_state ns_log) (EnqueueCommand (ns_sub 2)) 3) = InFlight ''db:main'' 0"
    unfolding ns_log_state by (simp add: ns_sub_def ns_eval)
  then show ?thesis using refused_changes_nothing [OF refl, of ns_log "EnqueueCommand (ns_sub 2)" 3] by simp
qed

text \<open>
  C32: a desynchronised worker does no harm.  When \<open>ApplyHead\<close> or \<open>PoisonQueueEntry\<close> is answered by
  \<open>QueueDesync\<close>, heads, queues, registrations and cached outcomes are untouched: the only change
  is that the one-shot clear marker of that branch is used up.
\<close>

theorem desync_harmless:
  assumes "s = ns_run new_state es" and "claimed_entry c = Some (k, q)" and "\<not> completes (snd (ns_apply s c i))"
  shows "fst (ns_apply s c i) = s \<or>
         fst (ns_apply s c i) = s\<lparr>ns_recently_cleared := hm_remove k (ns_recently_cleared s)\<rparr>"
proof (cases c)
  case (ApplyHead sh)
  then have k: "k = ref_key (sh_ledger_id sh) (sh_branch sh)" using assms(2) by simp
  have "ns_ok s" by (simp add: assms(1))
  then show ?thesis
    by (rule apply_head_cases [OF _ k refl, of _ i]) (use assms(3) ApplyHead in simp_all)
next
  case (PoisonQueueEntry ep)
  then have k: "k = ref_key (ep_ledger_id ep) (ep_branch ep)" using assms(2) by simp
  show ?thesis
    by (rule poison_cases [OF k refl, of s i]) (use assms(3) PoisonQueueEntry in simp_all)
qed (use assms(2) in simp_all)

theorem desync_harmless_witness:
  "fst (ns_apply (ns_run new_state ns_log) (ApplyHead (ns_staged 5)) 3) = ns_run new_state ns_log \<or>
   fst (ns_apply (ns_run new_state ns_log) (ApplyHead (ns_staged 5)) 3) =
     (ns_run new_state ns_log)\<lparr>ns_recently_cleared := hm_remove (ref_key ''db'' ''main'') (ns_recently_cleared (ns_run new_state ns_log))\<rparr>"
proof -
  have "\<not> completes (snd (ns_apply (ns_run new_state ns_log) (ApplyHead (ns_staged 5)) 3))"
    unfolding ns_log_state by (simp add: ns_staged_def ns_eval)
  moreover have "claimed_entry (ApplyHead (ns_staged 5)) = Some (ref_key ''db'' ''main'', 5)" by (simp add: ns_staged_def)
  ultimately show ?thesis using desync_harmless [OF refl] by blast
qed

end
