(* ===== verification/Ns_Versioned.thy ===== *)
theory Ns_Versioned
  imports Ns_Props
begin

text \<open>
  Status and configuration values.  The trait \<open>VersionedValue\<close> of the source is the locale
  \<open>versioned_value\<close>; what the shared body \<open>apply_versioned_push\<close> promises is proved once there and
  used for both implementations.
\<close>

section \<open>The interface\<close>

locale versioned_value =
  fixes absent :: 'a and v :: "'a \<Rightarrow> i64" and conflict :: "'a option \<Rightarrow> Response" and updated :: Response
  assumes conflict_not_updated: "conflict actual \<noteq> updated"
begin

definition current :: "(string, 'a) hmap \<Rightarrow> string \<Rightarrow> 'a" where
  "current vals ledger_id = (case hm_get vals ledger_id of Some x \<Rightarrow> x | None \<Rightarrow> absent)"

abbreviation push where
  "push \<equiv> apply_versioned_push absent v conflict updated"

lemma push_cases:
  obtains (refused) actual where "push ledgers vals l expected new = (vals, conflict actual)"
  | (stored) "push ledgers vals l expected new = (hm_insert l new vals, updated)"
      "expected = Some (current vals l)" "v (current vals l) < v new"
proof -
  have "(\<exists>actual. push ledgers vals l expected new = (vals, conflict actual)) \<or>
      push ledgers vals l expected new = (hm_insert l new vals, updated) \<and>
      expected = Some (current vals l) \<and> v (current vals l) < v new"
    by (auto simp: apply_versioned_push_def current_def [symmetric] Let_def split: sum.split)
  then show ?thesis using refused stored by blast
qed

lemma push_updated:
  assumes "push ledgers vals l expected new = (vals', updated)"
  shows "expected = Some (current vals l) \<and> v (current vals l) < v new \<and> current vals' l = new"
  by (rule push_cases [of ledgers vals l expected new])
    (use assms conflict_not_updated in \<open>auto simp: current_def\<close>)

lemma push_version: "v (current vals k) \<le> v (current (fst (push ledgers vals l expected new)) k)"
  by (rule push_cases [of ledgers vals l expected new]) (auto simp: current_def split: if_splits)

text \<open>Once a push that expected \<open>a\<close> is stored, no push that expects \<open>a\<close> is stored again.\<close>

lemma push_not_again:
  assumes "push ledgers vals l (Some a) b = (vals1, updated)" and "v (current vals1 l) \<le> v (current vals2 l)"
  shows "snd (push ledgers2 vals2 l (Some a) c) \<noteq> updated"
proof
  assume "snd (push ledgers2 vals2 l (Some a) c) = updated"
  then have "push ledgers2 vals2 l (Some a) c = (fst (push ledgers2 vals2 l (Some a) c), updated)"
    by (simp add: prod_eq_iff)
  from push_updated [OF this] push_updated [OF assms(1)] assms(2) show False by simp
qed

end

interpretation status: versioned_value initial_status ss_v StatusConflict StatusUpdated
  by unfold_locales simp

interpretation config: versioned_value unborn_config sc_v ConfigConflict ConfigUpdated
  by unfold_locales simp

section \<open>Over a log\<close>

lemma status_frame:
  assumes "\<forall>l ex new. c \<noteq> PushStatus l ex new"
  shows "ns_status (fst (ns_apply s c i)) = ns_status s"
proof (cases c)
  case (ApplyHead sh)
  then show ?thesis
    by (auto simp: apply_head_def pop_validated_front_def Let_def case_prod_beta drop_queue_if_empty_def
        advance_ref_entry_def self_heal_branch_def record_outcome_def split: option.splits list.splits sum.splits)
next
  case (PoisonQueueEntry ep)
  then show ?thesis
    by (rule_tac poison_cases [OF refl refl, of s i ep]) (simp_all add: record_outcome_def consume_front_def split: option.splits)
next
  case (EnqueueCommand qs)
  then show ?thesis by (rule_tac enqueue_cases [of s i qs]) simp_all
qed (use assms in \<open>auto simp: fst_drop_branch fst_purge_branch advance_index_head_def rewrite_index_head_def
    set_index_head_def create_ledger_def create_branch_def reset_head_def retract_ledger_def
    apply_compare_and_set_ref_def push_config_def apply_publish_graph_source_def apply_publish_graph_source_index_def
    apply_retract_graph_source_def apply_evict_idempotency_def apply_set_worker_eligibility_def Let_def
    case_prod_beta split: option.splits RefKind.splits\<close>)

lemma config_frame:
  assumes "\<forall>cu. c \<noteq> PushConfig cu"
  shows "ns_config (fst (ns_apply s c i)) = ns_config s"
proof (cases c)
  case (ApplyHead sh)
  then show ?thesis
    by (auto simp: apply_head_def pop_validated_front_def Let_def case_prod_beta drop_queue_if_empty_def
        advance_ref_entry_def self_heal_branch_def record_outcome_def split: option.splits list.splits sum.splits)
next
  case (PoisonQueueEntry ep)
  then show ?thesis
    by (rule_tac poison_cases [OF refl refl, of s i ep]) (simp_all add: record_outcome_def consume_front_def split: option.splits)
next
  case (EnqueueCommand qs)
  then show ?thesis by (rule_tac enqueue_cases [of s i qs]) simp_all
qed (use assms in \<open>auto simp: fst_drop_branch fst_purge_branch advance_index_head_def rewrite_index_head_def
    set_index_head_def create_ledger_def create_branch_def reset_head_def retract_ledger_def
    apply_compare_and_set_ref_def push_status_def apply_publish_graph_source_def apply_publish_graph_source_index_def
    apply_retract_graph_source_def apply_evict_idempotency_def apply_set_worker_eligibility_def Let_def
    case_prod_beta split: option.splits RefKind.splits\<close>)

lemma status_version_step:
  "ss_v (status.current (ns_status s) l) \<le> ss_v (status.current (ns_status (fst (ns_apply s c i))) l)"
proof (cases "\<exists>l ex new. c = PushStatus l ex new")
  case True
  then show ?thesis using status.push_version by (auto simp: push_status_def case_prod_beta)
qed (simp add: status_frame)

lemma config_version_step:
  "sc_v (config.current (ns_config s) l) \<le> sc_v (config.current (ns_config (fst (ns_apply s c i))) l)"
proof (cases "\<exists>cu. c = PushConfig cu")
  case True
  then show ?thesis using config.push_version by (auto simp: push_config_def case_prod_beta)
qed (simp add: config_frame)

lemma status_version_run: "ss_v (status.current (ns_status s) l) \<le> ss_v (status.current (ns_status (ns_run s es)) l)"
  by (induction s es rule: ns_run.induct) (auto intro: order_trans [OF status_version_step])

lemma config_version_run: "sc_v (config.current (ns_config s) l) \<le> sc_v (config.current (ns_config (ns_run s es)) l)"
  by (induction s es rule: ns_run.induct) (auto intro: order_trans [OF config_version_step])

lemma push_status_updated:
  "push_status s l ex new = (s', StatusUpdated) \<Longrightarrow>
   apply_versioned_push initial_status ss_v StatusConflict StatusUpdated (ns_ledgers s) (ns_status s) l ex new =
     (ns_status s', StatusUpdated)"
  by (auto simp: push_status_def case_prod_beta prod_eq_iff)

lemma push_config_updated:
  "push_config s cu = (s', ConfigUpdated) \<Longrightarrow>
   apply_versioned_push unborn_config sc_v ConfigConflict ConfigUpdated (ns_ledgers s) (ns_config s)
     (cu_ledger_id cu) (cu_expected cu) (cu_new cu) = (ns_config s', ConfigUpdated)"
  by (auto simp: push_config_def case_prod_beta prod_eq_iff)

text \<open>Of the pushes computed from one configuration value at most one is ever stored.\<close>

lemma config_no_lost_update:
  assumes "push_config s cu = (s1, ConfigUpdated)" and "cu_ledger_id cu' = cu_ledger_id cu"
    and "cu_expected cu' = cu_expected cu" and "cu_expected cu \<noteq> None"
  shows "snd (push_config (ns_run s1 es) cu') \<noteq> ConfigUpdated \<and>
         sc_v (config.current (ns_config s1) l) \<le> sc_v (config.current (ns_config (ns_run s1 es)) l)"
proof -
  obtain a where a: "cu_expected cu = Some a" using assms(4) by auto
  have "snd (apply_versioned_push unborn_config sc_v ConfigConflict ConfigUpdated (ns_ledgers (ns_run s1 es))
      (ns_config (ns_run s1 es)) (cu_ledger_id cu) (Some a) (cu_new cu')) \<noteq> ConfigUpdated"
    by (rule config.push_not_again [OF push_config_updated [OF assms(1), unfolded a] config_version_run])
  then show ?thesis using assms(2,3) a config_version_run by (simp add: push_config_def case_prod_beta)
qed

section \<open>Properties\<close>

text \<open>
  C36: no status update is lost.  When a push that expected the status \<open>a\<close> has been stored, a
  concurrent push that was computed from the same \<open>a\<close> is refused, whatever commands are ordered
  between them, so at most one of the writers that read a value replaces it.
\<close>

theorem status_no_lost_update:
  assumes "push_status s l (Some a) b = (s1, StatusUpdated)"
  shows "snd (push_status (ns_run s1 es) l (Some a) c) \<noteq> StatusUpdated"
proof -
  have "snd (apply_versioned_push initial_status ss_v StatusConflict StatusUpdated (ns_ledgers (ns_run s1 es))
      (ns_status (ns_run s1 es)) l (Some a) c) \<noteq> StatusUpdated"
    by (rule status.push_not_again [OF push_status_updated [OF assms] status_version_run])
  then show ?thesis by (simp add: push_status_def case_prod_beta)
qed

definition ns_busy :: StoredStatus where
  "ns_busy = \<lparr>ss_v = 2, ss_state = ''busy'', ss_extra = []\<rparr>"

theorem status_no_lost_update_witness:
  "snd (push_status (fst (push_status (ns_run new_state ns_log) ''db:main'' (Some initial_status) ns_busy))
     ''db:main'' (Some initial_status) ns_busy) \<noteq> StatusUpdated"
proof -
  have "snd (push_status (ns_run new_state ns_log) ''db:main'' (Some initial_status) ns_busy) = StatusUpdated"
    unfolding ns_log_state
    by (simp add: push_status_def apply_versioned_push_def split_ledger_id_def ns_eval ns_busy_def initial_status_def)
  then have "push_status (ns_run new_state ns_log) ''db:main'' (Some initial_status) ns_busy =
      (fst (push_status (ns_run new_state ns_log) ''db:main'' (Some initial_status) ns_busy), StatusUpdated)"
    by (simp add: prod_eq_iff)
  from status_no_lost_update [OF this, of "[]"] show ?thesis by simp
qed

end
