(* ===== verification/Ns_Lineage.thy ===== *)
theory Ns_Lineage
  imports Ns_Props
begin

text \<open>
  The lineage of branches.  Every head entry counts the branches forked from it; the count
  guards \<open>drop_branch\<close> and \<open>purge_branch\<close>.  It is exact after any log without a reset to an
  unborn head, as long as the log is shorter than the range of the saturating \<open>u32\<close> counter.
\<close>

section \<open>How one command changes the heads\<close>

text \<open>An entry that takes the place of another keeps its lineage; a fresh one has none.\<close>

definition keeps_lineage :: "RefEntry option \<Rightarrow> RefEntry \<Rightarrow> bool" where
  "keeps_lineage old e \<longleftrightarrow>
     (case old of Some r \<Rightarrow> re_source_branch e = re_source_branch r \<and> re_branches e = re_branches r
      | None \<Rightarrow> re_source_branch e = None \<and> re_branches e = 0)"

definition without_branch :: "(RefKey \<rightharpoonup> RefEntry) \<Rightarrow> string \<Rightarrow> string \<Rightarrow> (RefKey \<rightharpoonup> RefEntry)" where
  "without_branch m l b k =
     (if k = ref_key l b then None
      else case m k of
             None \<Rightarrow> None
           | Some e \<Rightarrow>
               Some (if Option.bind (m (ref_key l b)) re_source_branch = Some (rk_branch k) \<and> rk_ledger_name k = l
                     then e\<lparr>re_branches := saturating_sub (re_branches e) 1\<rparr> else e))"

fun unborn_reset :: "Command \<Rightarrow> bool" where
  "unborn_reset (ResetHead _ _ snap _) = (rs_commit_head_id snap = None)"
| "unborn_reset _ = False"

abbreviation heads :: "NameServiceState \<Rightarrow> RefKey \<rightharpoonup> RefEntry" where
  "heads s \<equiv> hm_get (ns_refs s)"

lemma heads_create_branch:
  obtains (same) "heads (fst (create_branch s i nb)) = heads s"
  | (fork) l b p r e where "heads s (ref_key l p) = Some r" "\<not> known s (ref_key l b)"
      "re_source_branch e = Some p" "re_branches e = 0"
      "heads (fst (create_branch s i nb)) =
         (heads s)(ref_key l p \<mapsto> r\<lparr>re_branches := saturating_add (re_branches r) 1\<rparr>, ref_key l b \<mapsto> e)"
proof (cases "\<exists>l r. hm_get (ns_ledgers s) (nb_ledger_id nb) = Some l \<and> nb_branch nb \<notin> set (lr_branches l) \<and>
    heads s (ref_key (nb_ledger_id nb) (nb_source_branch nb)) = Some r")
  case True
  then obtain l r where lr: "hm_get (ns_ledgers s) (nb_ledger_id nb) = Some l" "nb_branch nb \<notin> set (lr_branches l)"
    "heads s (ref_key (nb_ledger_id nb) (nb_source_branch nb)) = Some r" by blast
  show ?thesis
    by (rule fork [OF lr(3), of "nb_branch nb"
        "\<lparr>re_head = fst (case nb_at_commit nb of Some ht \<Rightarrow> ht | None \<Rightarrow> (re_head r, re_t r)),
          re_t = snd (case nb_at_commit nb of Some ht \<Rightarrow> ht | None \<Rightarrow> (re_head r, re_t r)),
          re_last_advanced_at_millis = nb_applied_at_millis nb, re_last_advanced_index = i, re_index = None,
          re_source_branch = Some (nb_source_branch nb), re_branches = 0\<rparr>"])
      (use lr in \<open>simp_all add: create_branch_def Let_def case_prod_beta branch_known_def fun_eq_iff\<close>)
next
  case False
  then have "fst (create_branch s i nb) = s"
    by (auto simp: create_branch_def Let_def split: option.splits)
  then show ?thesis using same by simp
qed

lemma heads_reset:
  obtains (same) "heads (fst (reset_head s l b snap m)) = heads s"
  | (put) e where "keeps_lineage (heads s (ref_key l b)) e" "heads (fst (reset_head s l b snap m)) = (heads s)(ref_key l b \<mapsto> e)"
  | (unborn) "rs_commit_head_id snap = None"
proof (cases "branch_known (ns_ledgers s) l b \<and> ref_key l b \<notin> ns_retracted s")
  case True
  show ?thesis
  proof (cases "rs_commit_head_id snap")
    case (Some h)
    show ?thesis
      by (cases "heads s (ref_key l b)")
        (rule put; use True Some in \<open>simp add: reset_head_def Let_def case_prod_beta fun_eq_iff keeps_lineage_def\<close>)+
  qed (rule unborn)
next
  case False
  then have "fst (reset_head s l b snap m) = s" by (auto simp: reset_head_def Let_def)
  then show ?thesis using same by simp
qed

text \<open>A command that at most puts one entry in place of another.\<close>

definition puts :: "NameServiceState \<Rightarrow> NameServiceState \<Rightarrow> bool" where
  "puts s s' \<longleftrightarrow> heads s' = heads s \<or> (\<exists>k e. keeps_lineage (heads s k) e \<and> heads s' = (heads s)(k \<mapsto> e))"

lemma puts_same: "ns_refs s' = ns_refs s \<Longrightarrow> puts s s'"
  by (simp add: puts_def)

lemma puts_insert: "ns_refs s' = hm_insert k e (ns_refs s) \<Longrightarrow> keeps_lineage (heads s k) e \<Longrightarrow> puts s s'"
  unfolding puts_def by (rule disjI2, rule exI [of _ k], rule exI [of _ e]) (simp add: fun_eq_iff)

lemma puts_update: "keeps_lineage (heads s k) e \<Longrightarrow> puts s (s\<lparr>ns_refs := hm_insert k e (ns_refs s)\<rparr>)"
  by (rule puts_insert) simp_all

lemma puts_set_index: "puts s (fst (set_index_head s ni stale))"
  by (auto simp: set_index_head_def Let_def puts_same keeps_lineage_def intro!: puts_update split: option.splits)

lemma puts_cas: "puts s (fst (apply_compare_and_set_ref s i rc))"
  by (auto simp: apply_compare_and_set_ref_def Let_def puts_same keeps_lineage_def intro!: puts_update
      split: option.splits RefKind.splits)

lemma puts_advance: "ns_refs s' = ns_refs s \<Longrightarrow> puts s (advance_ref_entry s' k i sh)"
  by (cases "heads s k"; rule puts_insert, simp add: advance_ref_entry_def, simp add: keeps_lineage_def)

lemma puts_refs: "puts s s' \<Longrightarrow> ns_refs s'' = ns_refs s' \<Longrightarrow> puts s s''"
  by (simp add: puts_def)

lemma puts_head_state: "puts s (head_state s k e rest i sh)"
proof (cases "ns_refs (head_state s k e rest i sh) = ns_refs s")
  case False
  then have "ns_refs (head_state s k e rest i sh) = ns_refs (advance_ref_entry (consume_front s k rest) k i sh)"
    by (simp add: head_state_def Let_def split: if_splits)
  then show ?thesis using puts_refs [OF puts_advance [of "consume_front s k rest" s k i sh]] by simp
qed (rule puts_same)

lemma puts_apply_head: "ns_ok s \<Longrightarrow> puts s (fst (apply_head s i sh))"
  by (rule apply_head_cases [OF _ refl refl, of s sh i]) (simp_all add: puts_same puts_head_state)

lemma heads_step:
  assumes ok: "ns_ok s"
  obtains (puts) "puts s (fst (ns_apply s c i))"
  | (fork) l b p r e where "heads s (ref_key l p) = Some r" "heads s (ref_key l b) = None"
      "re_source_branch e = Some p" "re_branches e = 0"
      "heads (fst (ns_apply s c i)) =
         (heads s)(ref_key l p \<mapsto> r\<lparr>re_branches := saturating_add (re_branches r) 1\<rparr>, ref_key l b \<mapsto> e)"
  | (gone) l b where "\<not> has_children s (ref_key l b)" "heads (fst (ns_apply s c i)) = without_branch (heads s) l b"
  | (unborn) "unborn_reset c"
proof (cases c)
  case (CreateBranch nb)
  show ?thesis
  proof (rule heads_create_branch [of s i nb], goal_cases)
    case 1
    then show ?case using CreateBranch puts by (simp add: puts_def)
  next
    case (2 l b p r e)
    then have "heads s (ref_key l b) = None" using ns_okD(3) [OF ok, of "ref_key l b"] by fastforce
    with 2 show ?case using CreateBranch fork by simp
  qed
next
  case (ResetHead l b snap m)
  show ?thesis
    by (rule heads_reset [of s l b snap m]) (use ResetHead puts unborn in \<open>auto simp: puts_def\<close>)
next
  case (DropBranch l b m)
  then show ?thesis using puts gone [of l b]
    by (cases "\<not> known s (ref_key l b) \<or> has_children s (ref_key l b)")
      (auto simp: fst_drop_branch puts_same fun_eq_iff remove_branch_get without_branch_def)
next
  case (PurgeBranch l b m)
  then show ?thesis using puts gone [of l b]
    by (cases "has_children s (ref_key l b)")
      (auto simp: fst_purge_branch puts_same fun_eq_iff remove_branch_get without_branch_def)
qed (use puts ok in \<open>simp_all add: puts_same puts_set_index puts_cas puts_apply_head advance_index_head_def
    rewrite_index_head_def\<close>)

section \<open>The counts are exact\<close>

definition children :: "(RefKey \<rightharpoonup> RefEntry) \<Rightarrow> RefKey \<Rightarrow> RefKey set" where
  "children m k =
     {j. rk_ledger_name j = rk_ledger_name k \<and> (\<exists>r. m j = Some r \<and> re_source_branch r = Some (rk_branch k))}"

definition lineage :: "(RefKey \<rightharpoonup> RefEntry) \<Rightarrow> bool" where
  "lineage m \<longleftrightarrow> (\<forall>k. case m k of Some r \<Rightarrow> unat (re_branches r) = card (children m k) | None \<Rightarrow> children m k = {})"

lemma lineageD:
  "lineage m \<Longrightarrow> m k = Some r \<Longrightarrow> unat (re_branches r) = card (children m k)"
  "lineage m \<Longrightarrow> m k = None \<Longrightarrow> children m k = {}"
  unfolding lineage_def by (drule spec [of _ k], simp)+

lemma lineageI:
  assumes "\<And>k r. m k = Some r \<Longrightarrow> unat (re_branches r) = card (children m k)"
    and "\<And>k. m k = None \<Longrightarrow> children m k = {}"
  shows "lineage m"
  using assms by (auto simp: lineage_def split: option.splits)

lemma finite_children: "finite (dom m) \<Longrightarrow> finite (children m k)"
  by (rule finite_subset [of _ "dom m"]) (auto simp: children_def)

lemma card_children_le: "finite (dom m) \<Longrightarrow> card (children m k) \<le> card (dom m)"
  by (rule card_mono) (auto simp: children_def)

lemma lineage_put:
  assumes lin: "lineage m" and keeps: "keeps_lineage (m k) e"
  shows "lineage (m(k \<mapsto> e))"
proof -
  have ch: "children (m(k \<mapsto> e)) j = children m j" for j
    using keeps by (auto simp: children_def keeps_lineage_def split: option.splits if_splits)
  show ?thesis
  proof (rule lineageI)
    fix j r assume "(m(k \<mapsto> e)) j = Some r"
    then show "unat (re_branches r) = card (children (m(k \<mapsto> e)) j)"
      using lineageD [OF lin] keeps
      by (cases "m k") (auto simp: ch keeps_lineage_def split: if_splits)
  qed (use lineageD(2) [OF lin] in \<open>auto simp: ch split: if_splits\<close>)
qed

lemma saturating_add_one: "unat (n :: u32) + 1 < 2 ^ 32 \<Longrightarrow> unat (saturating_add n 1) = Suc (unat n)"
proof -
  assume "unat n + 1 < 2 ^ 32"
  then have "unat (n + 1) = Suc (unat n)" by (simp add: unat_word_ariths)
  then show ?thesis by (simp add: saturating_add_def word_le_nat_alt)
qed

lemma saturating_sub_one: "0 < unat (n :: u32) \<Longrightarrow> unat (saturating_sub n 1) = unat n - 1"
  by (simp add: saturating_sub_def word_le_nat_alt unat_sub_if_size)

lemma lineage_fork:
  assumes lin: "lineage m" and fin: "finite (dom m)" "card (dom m) + 1 < 2 ^ 32"
    and p: "m p = Some r" and k: "m k = None" "rk_ledger_name k = rk_ledger_name p"
    and e: "re_source_branch e = Some (rk_branch p)" "re_branches e = 0"
  shows "lineage (m(p \<mapsto> r\<lparr>re_branches := saturating_add (re_branches r) 1\<rparr>, k \<mapsto> e))" (is "lineage ?m")
proof -
  have ch: "children ?m j = (if j = p then insert k (children m p) else children m j)" for j
  proof -
    have jp: "rk_ledger_name k = rk_ledger_name j \<and> rk_branch p = rk_branch j \<longleftrightarrow> j = p"
      using k(2) by (metis RefKey.equality old.unit.exhaust)
    have mem: "x \<in> children ?m j \<longleftrightarrow>
        (if x = k then rk_ledger_name k = rk_ledger_name j \<and> rk_branch p = rk_branch j else x \<in> children m j)" for x
      using p e by (simp add: children_def)
    have "k \<notin> children m j" using k(1) by (simp add: children_def)
    then show ?thesis by (intro set_eqI, unfold mem jp) (cases "j = p"; simp)
  qed
  have "k \<notin> children m p" using k by (simp add: children_def)
  then have cp: "card (children ?m p) = Suc (card (children m p))" using finite_children [OF fin(1)] by (simp add: ch)
  have n: "unat (re_branches r) = card (children m p)" using lineageD(1) [OF lin p] .
  then have "unat (re_branches r) + 1 < 2 ^ 32" using card_children_le [OF fin(1), of p] fin(2) by linarith
  then have pc: "unat (saturating_add (re_branches r) 1) = card (children ?m p)"
    using saturating_add_one n cp by simp
  show ?thesis
  proof (rule lineageI)
    fix j x assume j: "?m j = Some x"
    show "unat (re_branches x) = card (children ?m j)"
    proof (cases "j = k \<or> j = p")
      case True
      then show ?thesis using j pc p k e lineageD(2) [OF lin k(1)] by (auto simp: ch split: if_splits)
    next
      case False
      then show ?thesis using j lineageD(1) [OF lin] by (simp add: ch)
    qed
  qed (use p lineageD(2) [OF lin] in \<open>auto simp: ch split: if_splits\<close>)
qed

lemma lineage_gone:
  assumes lin: "lineage m" and fin: "finite (dom m)"
    and leaf: "\<And>r. m (ref_key l b) = Some r \<Longrightarrow> re_branches r = 0"
  shows "lineage (without_branch m l b)" (is "lineage ?m")
proof (cases "m (ref_key l b)")
  case None
  then have "?m = m" by (auto simp: without_branch_def fun_eq_iff split: option.splits)
  then show ?thesis using lin by simp
next
  case (Some r)
  let ?k = "ref_key l b"
  have nochild: "children m ?k = {}" using lineageD(1) [OF lin Some] leaf [OF Some] finite_children [OF fin] by simp
  have src: "(\<exists>r. ?m j = Some r \<and> re_source_branch r = x) \<longleftrightarrow> (\<exists>r. m j = Some r \<and> re_source_branch r = x)"
    and none: "?m j = None \<longleftrightarrow> m j = None" if "j \<noteq> ?k" for j x
    using that by (simp_all add: without_branch_def split: option.split)
  have ch: "children ?m j = children m j - {?k}" for j
  proof (rule set_eqI)
    fix x
    have "?m ?k = None" by (simp add: without_branch_def)
    then show "x \<in> children ?m j \<longleftrightarrow> x \<in> children m j - {?k}"
      by (cases "x = ?k") (simp_all add: children_def src)
  qed
  show ?thesis
  proof (rule lineageI)
    fix j x assume j: "?m j = Some x"
    then have jk: "j \<noteq> ?k" by (auto simp: without_branch_def)
    then obtain y where y: "m j = Some y" using none j by fastforce
    have n: "unat (re_branches y) = card (children m j)" using lineageD(1) [OF lin y] .
    show "unat (re_branches x) = card (children ?m j)"
    proof (cases "?k \<in> children m j")
      case True
      then have "re_source_branch r = Some (rk_branch j)" "rk_ledger_name j = l" using Some by (auto simp: children_def)
      then have x: "re_branches x = saturating_sub (re_branches y) 1" using j y jk Some by (auto simp: without_branch_def)
      have "0 < card (children m j)" using True finite_children [OF fin] by (auto simp: card_gt_0_iff)
      then show ?thesis using saturating_sub_one [of "re_branches y"] n True by (simp add: x ch)
    next
      case False
      then have "x = y" using j y jk Some by (auto simp: without_branch_def children_def split: if_splits)
      then show ?thesis using n False by (simp add: ch)
    qed
  next
    fix j assume "?m j = None"
    then show "children ?m j = {}"
      using lineageD(2) [OF lin, of j] nochild none [of j] by (cases "j = ?k") (simp_all add: ch)
  qed
qed

section \<open>Over a log\<close>

text \<open>Exact counts, with \<open>n\<close> a bound on the number of head entries.\<close>

definition lineage_ok :: "NameServiceState \<Rightarrow> nat \<Rightarrow> bool" where
  "lineage_ok s n \<longleftrightarrow> lineage (heads s) \<and> card (dom (heads s)) \<le> n"

lemma finite_heads: "finite (dom (heads s))"
  by (rule finite_dom_map_of)

lemma card_dom_upd: "finite (dom m) \<Longrightarrow> card (dom (m(k \<mapsto> e))) \<le> Suc (card (dom m))"
  by (simp add: card_insert_if)

lemma lineage_ok_step:
  assumes ok: "ns_ok s" and lin: "lineage_ok s n" and n: "n + 1 < 2 ^ 32" and born: "\<not> unborn_reset c"
  shows "lineage_ok (fst (ns_apply s c i)) (Suc n)"
proof -
  have l: "lineage (heads s)" and d: "card (dom (heads s)) \<le> n" using lin by (simp_all add: lineage_ok_def)
  let ?s = "fst (ns_apply s c i)"
  show ?thesis
  proof (rule heads_step [OF ok, of c i], goal_cases)
    case 1
    consider "heads ?s = heads s" | k e where "keeps_lineage (heads s k) e" "heads ?s = (heads s)(k \<mapsto> e)"
      using 1 unfolding puts_def by blast
    then show ?case
    proof cases
      case 1
      then show ?thesis using l d by (simp add: lineage_ok_def)
    next
      case 2
      then show ?thesis
        using lineage_put [OF l 2(1)] card_dom_upd [OF finite_heads, of s k e] d by (simp add: lineage_ok_def)
    qed
  next
    case (2 l' b p r e)
    have "lineage (heads ?s)"
      unfolding 2(5) using n d 2 by (intro lineage_fork l finite_heads) simp_all
    moreover have "dom (heads ?s) = insert (ref_key l' b) (dom (heads s))" using 2(1) by (auto simp: 2(5))
    ultimately show ?case using d finite_heads [of s] by (simp add: lineage_ok_def card_insert_if)
  next
    case (3 l' b)
    have "lineage (heads ?s)"
      unfolding 3(2) using 3(1) by (intro lineage_gone l finite_heads) (simp add: has_children_def word_gt_0)
    moreover have "dom (heads ?s) \<subseteq> dom (heads s)" by (auto simp: 3(2) without_branch_def split: if_splits option.splits)
    then have "card (dom (heads ?s)) \<le> card (dom (heads s))" by (rule card_mono [OF finite_heads])
    ultimately show ?case using d by (simp add: lineage_ok_def)
  qed (use born in simp)
qed

lemma lineage_ok_run:
  "ns_ok s \<Longrightarrow> lineage_ok s n \<Longrightarrow> n + length es < 2 ^ 32 \<Longrightarrow> \<forall>(i, c) \<in> set es. \<not> unborn_reset c \<Longrightarrow>
   lineage_ok (ns_run s es) (n + length es)"
proof (induction s es arbitrary: n rule: ns_run.induct)
  case (2 s i c es)
  have "lineage_ok (fst (ns_apply s c i)) (Suc n)" using 2 by (intro lineage_ok_step) simp_all
  then show ?case using 2(1) [of "Suc n"] 2 by (simp add: ns_ok_apply)
qed simp

lemma lineage_ok_new: "lineage_ok new_state 0"
  by (simp add: lineage_ok_def lineage_def children_def new_state_def)

section \<open>A reset to an unborn head strands the count\<close>

text \<open>
  \<open>reset_head\<close> with a snapshot that has no commit removes the
  head entry, and with it the record of the source branch, without touching the parent's counter;
  once the child is dropped nothing decrements it, and the parent can no longer be dropped.
\<close>

definition ns_fork :: NewBranch where
  "ns_fork = \<lparr>nb_ledger_id = ''db'', nb_branch = ''dev'', nb_source_branch = ''main'', nb_at_commit = None,
     nb_applied_at_millis = 15\<rparr>"

definition unborn_snapshot :: ResetHeadSnapshot where
  "unborn_snapshot = \<lparr>rs_commit_head_id = None, rs_commit_t = 0, rs_index_head_id = None, rs_index_t = 0\<rparr>"

definition stranding_log :: "(u64 \<times> Command) list" where
  "stranding_log = ns_log @ [(3, ApplyHead (ns_staged 0)), (4, CreateBranch ns_fork),
     (5, ResetHead ''db'' ''dev'' unborn_snapshot 20), (6, DropBranch ''db'' ''dev'' 21)]"

lemmas stranding_eval = stranding_log_def ns_log_def ns_sub_def ns_ledger_def ns_staged_def ns_fork_def unborn_snapshot_def
  ns_eval create_branch_def reset_head_def drop_branch_def unregister_branch_def clear_queue_for_admin_def saturating_add_def

lemma unborn_reset_strands_parent:
  "snd (ns_apply (ns_run new_state stranding_log) (DropBranch ''db'' ''main'' 22) 7) = BranchHasChildren ''db:main'' 1"
  "children (hm_get (ns_refs (ns_run new_state stranding_log))) (ref_key ''db'' ''main'') = {}"
  by (simp add: stranding_eval) (simp add: stranding_eval children_def)

section \<open>Properties\<close>

text \<open>
  C37: without a reset to an unborn head, child counts are exact.  After any log of fewer than \<open>2^32\<close>
  commands none of which resets a branch to a snapshot without a commit, the counter of every head
  entry is the number of branches whose recorded source it is, and a branch that some other branch
  names as its source has a head entry.  The condition on resets cannot be left out: after such a
  reset of its only child, and the drop of that child, a parent still counts it and refuses to be
  dropped.
\<close>

theorem child_counts_exact:
  assumes "\<forall>(i, c) \<in> set es. \<not> unborn_reset c" and "length es < 2 ^ 32" and "s = ns_run new_state es"
  shows "(case hm_get (ns_refs s) k of
            Some r \<Rightarrow> unat (re_branches r) = card (children (hm_get (ns_refs s)) k)
          | None \<Rightarrow> children (hm_get (ns_refs s)) k = {}) \<and>
    snd (ns_apply (ns_run new_state stranding_log) (DropBranch ''db'' ''main'' 22) 7) = BranchHasChildren ''db:main'' 1 \<and>
    children (hm_get (ns_refs (ns_run new_state stranding_log))) (ref_key ''db'' ''main'') = {}"
proof -
  have "lineage (heads s)"
    using lineage_ok_run [OF ns_ok_new lineage_ok_new _ assms(1)] assms(2,3) by (simp add: lineage_ok_def)
  then show ?thesis using unborn_reset_strands_parent by (simp add: lineage_def)
qed

theorem child_counts_exact_witness:
  "card (children (hm_get (ns_refs (ns_run new_state (ns_log @ [(3, ApplyHead (ns_staged 0)), (4, CreateBranch ns_fork)]))))
     (ref_key ''db'' ''main'')) = 1"
proof -
  let ?es = "ns_log @ [(3, ApplyHead (ns_staged 0)), (4, CreateBranch ns_fork)]"
  have "\<exists>r. hm_get (ns_refs (ns_run new_state ?es)) (ref_key ''db'' ''main'') = Some r \<and> re_branches r = 1"
    by (simp add: ns_log_def ns_sub_def ns_ledger_def ns_staged_def ns_fork_def ns_eval create_branch_def
        saturating_add_def)
  then obtain r where "hm_get (ns_refs (ns_run new_state ?es)) (ref_key ''db'' ''main'') = Some r" "re_branches r = 1"
    by blast
  moreover have "\<forall>(i, c) \<in> set ?es. \<not> unborn_reset c" "length ?es < 2 ^ 32" by (simp_all add: ns_log_def)
  ultimately show ?thesis using child_counts_exact [OF _ _ refl, of ?es "ref_key ''db'' ''main''"] by simp
qed

end
