(* ===== verification/Ns_Spec.thy ===== *)
theory Ns_Spec
  imports Ns_Lineage
begin

text \<open>
  The abstract nameservice: which branches exist, which are tombstoned, the commit each points to
  and the ids queued on it, with one rule per kind of change.  The replicated state machine is
  shown to implement it, command by command, and the safety of the abstract machine is proved on
  its rules.
\<close>

section \<open>The abstract machine\<close>

type_synonym head = "ContentId \<times> i64"

record AbsNs =
  a_known :: "RefKey set"
  a_tomb :: "RefKey set"
  a_head :: "RefKey \<rightharpoonup> head"
  a_queue :: "RefKey \<Rightarrow> u64 list"
  a_next :: u64

definition newer :: "head option \<Rightarrow> head \<Rightarrow> bool" where
  "newer old h \<longleftrightarrow> (case old of None \<Rightarrow> True | Some (_, t) \<Rightarrow> t < snd h)"

abbreviation open_branch :: "AbsNs \<Rightarrow> RefKey \<Rightarrow> bool" where
  "open_branch a k \<equiv> k \<in> a_known a \<and> k \<notin> a_tomb a"

inductive ns_spec :: "AbsNs \<Rightarrow> AbsNs \<Rightarrow> bool" where
  idle: "ns_spec a a"
| register: "k \<notin> a_known a \<Longrightarrow> ns_spec a (a\<lparr>a_known := insert k (a_known a)\<rparr>)"
| fork: "k \<notin> a_known a \<Longrightarrow> a_head a j \<noteq> None \<Longrightarrow>
    ns_spec a (a\<lparr>a_known := insert k (a_known a), a_head := (a_head a)(k \<mapsto> h)\<rparr>)"
| forget: "ns_spec a (a\<lparr>a_known := a_known a - {k}, a_tomb := a_tomb a - {k},
    a_head := (a_head a)(k := None), a_queue := (a_queue a)(k := [])\<rparr>)"
| retire: "open_branch a k \<Longrightarrow>
    ns_spec a (a\<lparr>a_tomb := insert k (a_tomb a), a_queue := (a_queue a)(k := [])\<rparr>)"
| rewind: "open_branch a k \<Longrightarrow>
    ns_spec a (a\<lparr>a_head := (a_head a)(k := h), a_queue := (a_queue a)(k := [])\<rparr>)"
| advance: "open_branch a k \<Longrightarrow> newer (a_head a k) h \<Longrightarrow> ns_spec a (a\<lparr>a_head := (a_head a)(k \<mapsto> h)\<rparr>)"
| submit: "open_branch a k \<Longrightarrow>
    ns_spec a (a\<lparr>a_queue := (a_queue a)(k := a_queue a k @ [a_next a]), a_next := a_next a + 1\<rparr>)"
| complete: "open_branch a k \<Longrightarrow> a_queue a k = q # qs \<Longrightarrow> a_head a k = Some h \<or> newer (a_head a k) h \<Longrightarrow>
    ns_spec a (a\<lparr>a_head := (a_head a)(k \<mapsto> h), a_queue := (a_queue a)(k := qs)\<rparr>)"
| abandon: "a_queue a k = q # qs \<Longrightarrow> ns_spec a (a\<lparr>a_queue := (a_queue a)(k := qs)\<rparr>)"

inductive_cases ns_specE: "ns_spec a b"

text \<open>Safety of the abstract machine.\<close>

definition spec_ok :: "AbsNs \<Rightarrow> bool" where
  "spec_ok a \<longleftrightarrow> a_tomb a \<subseteq> a_known a \<and> dom (a_head a) \<subseteq> a_known a \<and>
     (\<forall>k. a_queue a k \<noteq> [] \<longrightarrow> open_branch a k)"

lemma spec_ok_step: "ns_spec a b \<Longrightarrow> spec_ok a \<Longrightarrow> spec_ok b"
  by (induction rule: ns_spec.induct) (auto simp: spec_ok_def)

lemma spec_ok_reachable: "ns_spec\<^sup>*\<^sup>* a b \<Longrightarrow> spec_ok a \<Longrightarrow> spec_ok b"
  by (induction rule: rtranclp_induct) (auto intro: spec_ok_step)

section \<open>The abstraction\<close>

definition abs_ns :: "NameServiceState \<Rightarrow> AbsNs" where
  "abs_ns s = \<lparr>a_known = {k. known s k}, a_tomb = ns_retracted s,
     a_head = (\<lambda>k. map_option (\<lambda>r. (re_head r, re_t r)) (heads s k)),
     a_queue = (\<lambda>k. map qe_queue_id (queue_of s k)), a_next = ns_next_queue_id s\<rparr>"

lemma abs_simps [simp]:
  "a_known (abs_ns s) = {k. known s k}" "a_tomb (abs_ns s) = ns_retracted s"
  "a_head (abs_ns s) k = map_option (\<lambda>r. (re_head r, re_t r)) (heads s k)"
  "a_queue (abs_ns s) k = map qe_queue_id (queue_of s k)" "a_next (abs_ns s) = ns_next_queue_id s"
  by (simp_all add: abs_ns_def)

lemma abs_eqI:
  assumes "\<And>k. known s k \<longleftrightarrow> k \<in> a_known a" "ns_retracted s = a_tomb a"
    and "\<And>k. map_option (\<lambda>r. (re_head r, re_t r)) (heads s k) = a_head a k"
    and "\<And>k. map qe_queue_id (queue_of s k) = a_queue a k" "ns_next_queue_id s = a_next a"
  shows "abs_ns s = a"
  by (rule AbsNs.equality) (use assms in \<open>auto simp: abs_ns_def fun_eq_iff\<close>)

text \<open>A handler that leaves all five components alone is an idle step.\<close>

lemma spec_idle:
  assumes "ns_ledgers s' = ns_ledgers s" "ns_retracted s' = ns_retracted s" "ns_queues s' = ns_queues s"
    and "ns_next_queue_id s' = ns_next_queue_id s"
    and "\<And>k. map_option (\<lambda>r. (re_head r, re_t r)) (heads s' k) = map_option (\<lambda>r. (re_head r, re_t r)) (heads s k)"
  shows "ns_spec (abs_ns s) (abs_ns s')"
proof -
  have "abs_ns s' = abs_ns s"
    by (rule abs_eqI) (use assms in \<open>simp_all add: known_def queue_of_def\<close>)
  then show ?thesis by (simp add: idle)
qed

section \<open>The simulation, handler by handler\<close>

lemma ledgers_frame [simp]:
  "ns_ledgers (fst (push_status s lid ex st)) = ns_ledgers s"
  "ns_ledgers (fst (push_config s cu)) = ns_ledgers s"
  "ns_ledgers (fst (apply_publish_graph_source s n b ty cfg deps)) = ns_ledgers s"
  "ns_ledgers (fst (apply_publish_graph_source_index s n b ixid ixt)) = ns_ledgers s"
  "ns_ledgers (fst (apply_retract_graph_source s n b)) = ns_ledgers s"
  "ns_ledgers (fst (apply_evict_idempotency s c mc)) = ns_ledgers s"
  "ns_ledgers (fst (apply_set_worker_eligibility s we)) = ns_ledgers s"
  "ns_ledgers (fst (set_index_head s ni stale)) = ns_ledgers s"
  "ns_ledgers (fst (apply_compare_and_set_ref s i rc)) = ns_ledgers s"
  "ns_ledgers (fst (retract_ledger s l b m)) = ns_ledgers s"
  "ns_ledgers (fst (reset_head s l b snap m)) = ns_ledgers s"
  "ns_ledgers (fst (apply_enqueue_command s i qs)) = ns_ledgers s"
  "ns_ledgers (fst (apply_poison_queue_entry s i ep)) = ns_ledgers s"
  by (simp_all add: push_status_def push_config_def apply_publish_graph_source_def
      apply_publish_graph_source_index_def apply_retract_graph_source_def
      apply_evict_idempotency_def apply_set_worker_eligibility_def Let_def retract_ledger_def
      set_index_head_def apply_compare_and_set_ref_def reset_head_def apply_enqueue_command_def append_entry_def
      apply_poison_queue_entry_def pop_validated_front_def record_outcome_def drop_queue_if_empty_def
      case_prod_beta split: option.splits RefKind.splits list.splits)

lemma spec_set_index: "ns_spec (abs_ns s) (abs_ns (fst (set_index_head s ni stale)))"
  by (rule spec_idle) (auto simp: set_index_head_def Let_def split: option.splits)

lemma spec_create_ledger: "ns_spec (abs_ns s) (abs_ns (fst (create_ledger s i nl)))"
proof (cases "known s (ref_key (nl_ledger_id nl) (nl_branch nl))")
  case True
  then have "abs_ns (fst (create_ledger s i nl)) = abs_ns s"
    by (intro abs_eqI) (auto simp: create_ledger_known queue_of_def)
  then show ?thesis by (simp add: idle)
next
  case False
  have "abs_ns (fst (create_ledger s i nl)) =
      (abs_ns s)\<lparr>a_known := insert (ref_key (nl_ledger_id nl) (nl_branch nl)) (a_known (abs_ns s))\<rparr>"
    by (intro abs_eqI) (auto simp: create_ledger_known queue_of_def)
  then show ?thesis using False register [of "ref_key (nl_ledger_id nl) (nl_branch nl)" "abs_ns s"] by simp
qed

lemma spec_remove_branch: "ns_spec (abs_ns s) (abs_ns (remove_branch s l b why m))"
proof -
  have "abs_ns (remove_branch s l b why m) =
      (abs_ns s)\<lparr>a_known := a_known (abs_ns s) - {ref_key l b}, a_tomb := a_tomb (abs_ns s) - {ref_key l b},
         a_head := (a_head (abs_ns s))(ref_key l b := None), a_queue := (a_queue (abs_ns s))(ref_key l b := [])\<rparr>"
    by (intro abs_eqI)
      (auto simp: remove_branch_get queue_of_def abs_ns_def split: option.splits)
  then show ?thesis using forget [of "abs_ns s" "ref_key l b"] by simp
qed

lemma spec_retract: "ns_spec (abs_ns s) (abs_ns (fst (retract_ledger s l b m)))"
proof (cases "branch_known (ns_ledgers s) l b \<and> ref_key l b \<notin> ns_retracted s")
  case True
  have "abs_ns (fst (retract_ledger s l b m)) =
      (abs_ns s)\<lparr>a_tomb := insert (ref_key l b) (a_tomb (abs_ns s)), a_queue := (a_queue (abs_ns s))(ref_key l b := [])\<rparr>"
    by (intro abs_eqI) (use True in \<open>auto simp: retract_ledger_def Let_def case_prod_beta queue_of_def known_def abs_ns_def\<close>)
  then show ?thesis using True retire [of "ref_key l b" "abs_ns s"] by simp
next
  case False
  then have "fst (retract_ledger s l b m) = s" by (auto simp: retract_ledger_def Let_def)
  then show ?thesis by (simp add: idle)
qed

lemma spec_reset: "ns_spec (abs_ns s) (abs_ns (fst (reset_head s l b snap m)))"
proof (cases "branch_known (ns_ledgers s) l b \<and> ref_key l b \<notin> ns_retracted s")
  case True
  have "abs_ns (fst (reset_head s l b snap m)) =
      (abs_ns s)\<lparr>a_head := (a_head (abs_ns s))(ref_key l b := map_option (\<lambda>h. (h, rs_commit_t snap)) (rs_commit_head_id snap)),
         a_queue := (a_queue (abs_ns s))(ref_key l b := [])\<rparr>"
    by (intro abs_eqI)
      (use True in \<open>auto simp: reset_head_def Let_def case_prod_beta queue_of_def known_def abs_ns_def split: option.splits\<close>)
  then show ?thesis using True rewind [of "ref_key l b" "abs_ns s"] by simp
next
  case False
  then have "fst (reset_head s l b snap m) = s" by (auto simp: reset_head_def Let_def)
  then show ?thesis by (simp add: idle)
qed

lemma spec_create_branch:
  assumes ok: "ns_ok s"
  shows "ns_spec (abs_ns s) (abs_ns (fst (create_branch s i nb)))"
proof (cases "\<exists>l r. hm_get (ns_ledgers s) (nb_ledger_id nb) = Some l \<and> nb_branch nb \<notin> set (lr_branches l) \<and>
    heads s (ref_key (nb_ledger_id nb) (nb_source_branch nb)) = Some r")
  case True
  let ?k = "ref_key (nb_ledger_id nb) (nb_branch nb)" and ?j = "ref_key (nb_ledger_id nb) (nb_source_branch nb)"
  obtain l r where lr: "hm_get (ns_ledgers s) (nb_ledger_id nb) = Some l" "nb_branch nb \<notin> set (lr_branches l)"
    "heads s ?j = Some r" using True by blast
  let ?h = "case nb_at_commit nb of Some ht \<Rightarrow> ht | None \<Rightarrow> (re_head r, re_t r)"
  have new: "\<not> known s ?k" using lr by (simp add: branch_known_def)
  then have "?j \<noteq> ?k" using ns_okD(3) [OF ok lr(3)] by metis
  have "abs_ns (fst (create_branch s i nb)) =
      (abs_ns s)\<lparr>a_known := insert ?k (a_known (abs_ns s)), a_head := (a_head (abs_ns s))(?k \<mapsto> ?h)\<rparr>"
  proof (intro abs_eqI)
    fix k
    have "known (fst (create_branch s i nb)) k \<longleftrightarrow> known s k \<or> k = ?k"
      using lr create_branch_known [OF lr(1), of "nb_branch nb" k]
      by (simp add: create_branch_def Let_def case_prod_beta known_def)
    then show "known (fst (create_branch s i nb)) k \<longleftrightarrow>
      k \<in> a_known ((abs_ns s)\<lparr>a_known := insert ?k (a_known (abs_ns s)), a_head := (a_head (abs_ns s))(?k \<mapsto> ?h)\<rparr>)"
      by auto
  qed (use lr \<open>?j \<noteq> ?k\<close> in \<open>auto simp: create_branch_def Let_def case_prod_beta queue_of_def abs_ns_def\<close>)
  then show ?thesis using new lr(3) fork [of ?k "abs_ns s" ?j ?h] by simp
next
  case False
  then have "fst (create_branch s i nb) = s" by (auto simp: create_branch_def Let_def split: option.splits)
  then show ?thesis by (simp add: idle)
qed

lemma cas_kept: "snd (apply_compare_and_set_ref s i rc) \<noteq> RefCasUpdated \<Longrightarrow> fst (apply_compare_and_set_ref s i rc) = s"
  by (auto simp: apply_compare_and_set_ref_def Let_def case_prod_beta split: option.splits RefKind.splits)

lemma cas_commit:
  assumes "rc_kind rc = CommitHead" "snd (apply_compare_and_set_ref s i rc) = RefCasUpdated"
    and "k = ref_key (rc_ledger_id rc) (rc_branch rc)"
  shows "\<exists>cur h. current_ref_value s k CommitHead = Some cur \<and> k \<notin> ns_retracted s \<and> rv_t cur < rv_t (rc_new rc) \<and>
    (\<forall>j. map_option (\<lambda>r. (re_head r, re_t r)) (heads (fst (apply_compare_and_set_ref s i rc)) j) =
        (if j = k then Some (h, rv_t (rc_new rc)) else map_option (\<lambda>r. (re_head r, re_t r)) (heads s j)))"
  using assms by (auto simp: apply_compare_and_set_ref_def Let_def case_prod_beta split: option.splits if_splits)

lemma spec_cas: "ns_spec (abs_ns s) (abs_ns (fst (apply_compare_and_set_ref s i rc)))"
proof -
  let ?k = "ref_key (rc_ledger_id rc) (rc_branch rc)" and ?s = "fst (apply_compare_and_set_ref s i rc)"
  consider "?s = s" | "rc_kind rc = IndexHead" | "rc_kind rc = CommitHead" "snd (apply_compare_and_set_ref s i rc) = RefCasUpdated"
    using cas_kept RefKind.exhaust by metis
  then show ?thesis
  proof cases
    case 2
    then show ?thesis
      by (intro spec_idle) (auto simp: apply_compare_and_set_ref_def Let_def split: option.splits)
  next
    case 3
    from cas_commit [OF 3 refl] obtain cur h where cur: "current_ref_value s ?k CommitHead = Some cur"
      "?k \<notin> ns_retracted s" "rv_t cur < rv_t (rc_new rc)"
      and res: "map_option (\<lambda>r. (re_head r, re_t r)) (heads ?s j) =
        (if j = ?k then Some (h, rv_t (rc_new rc)) else map_option (\<lambda>r. (re_head r, re_t r)) (heads s j))" for j
      by blast
    have "abs_ns ?s = (abs_ns s)\<lparr>a_head := (a_head (abs_ns s))(?k \<mapsto> (h, rv_t (rc_new rc)))\<rparr>"
      by (intro abs_eqI) (simp_all add: res known_def queue_of_def)
    moreover have "known s ?k" "newer (a_head (abs_ns s) ?k) (h, rv_t (rc_new rc))"
      using cur(1,3) by (auto simp: current_ref_value_def newer_def Let_def split: if_splits option.splits)
    ultimately show ?thesis using cur(2) advance [of ?k "abs_ns s" "(h, rv_t (rc_new rc))"] by simp
  qed (simp add: idle)
qed

lemma spec_enqueue: "ns_spec (abs_ns s) (abs_ns (fst (apply_enqueue_command s i qs)))"
proof (rule enqueue_cases [of s i qs], goal_cases)
  case 2
  have "abs_ns (fst (apply_enqueue_command s i qs)) =
      (abs_ns s)\<lparr>a_queue := (a_queue (abs_ns s))(sub_key qs := a_queue (abs_ns s) (sub_key qs) @ [a_next (abs_ns s)]),
         a_next := a_next (abs_ns s) + 1\<rparr>"
    by (intro abs_eqI) (simp_all add: 2(1) known_def queue_of_def new_entry_def)
  then show ?case using 2(2,3) submit [of "sub_key qs" "abs_ns s"] by simp
qed (simp add: idle)

lemma spec_apply_head:
  assumes ok: "ns_ok s"
  shows "ns_spec (abs_ns s) (abs_ns (fst (apply_head s i sh)))"
proof (rule apply_head_cases [OF ok refl refl, of sh i], goal_cases)
  case (2 reason)
  then show ?case by (intro spec_idle) simp_all
next
  case (4 e rest)
  let ?k = "ref_key (sh_ledger_id sh) (sh_branch sh)" and ?h = "(sh_commit_id sh, sh_commit_t sh)"
  let ?s = "head_state s ?k e rest i sh"
  have q: "queue_of s ?k = e # rest" using 4(3) by (rule queue_of_get)
  have hd: "map_option (\<lambda>r. (re_head r, re_t r)) (heads ?s k) = ((a_head (abs_ns s))(?k \<mapsto> ?h)) k" for k
    using head_state_refs(1) [OF 4(5), of k e rest i] head_state_refs(2) [OF 4(5), of e rest i] by auto
  have kn: "known ?s k = known s k" for k
    by (simp add: head_state_def Let_def record_outcome_def known_def advance_ref_entry_def split: option.splits)
  have "abs_ns ?s = (abs_ns s)\<lparr>a_head := (a_head (abs_ns s))(?k \<mapsto> ?h), a_queue := (a_queue (abs_ns s))(?k := map qe_queue_id rest)\<rparr>"
    by (intro abs_eqI) (simp_all add: hd kn)
  moreover have "a_head (abs_ns s) ?k = Some ?h \<or> newer (a_head (abs_ns s) ?k) ?h"
    using 4(5) by (cases "heads s ?k") (auto simp: newer_def)
  ultimately show ?case
    using 4(1,2,6) q complete [of ?k "abs_ns s" "qe_queue_id e" "map qe_queue_id rest" ?h] by simp
qed (simp_all add: idle)

lemma spec_poison: "ns_spec (abs_ns s) (abs_ns (fst (apply_poison_queue_entry s i ep)))"
proof (rule poison_cases [OF refl refl, of s i ep], goal_cases)
  case (1 reason)
  then show ?case by (intro spec_idle) simp_all
next
  case (2 e rest out)
  let ?k = "ref_key (ep_ledger_id ep) (ep_branch ep)" and ?s = "fst (apply_poison_queue_entry s i ep)"
  have q: "queue_of s ?k = e # rest" using 2(1) by (rule queue_of_get)
  have "queue_of ?s k = (if k = ?k then rest else queue_of s k)" for k
    using queue_of_cong [OF record_queues(1)] queue_of_consume 2(7) by (metis fst_conv)
  then have "abs_ns ?s = (abs_ns s)\<lparr>a_queue := (a_queue (abs_ns s))(?k := map qe_queue_id rest)\<rparr>"
    by (intro abs_eqI) (simp_all add: known_def, simp add: 2(7))
  then show ?case using q abandon [of "abs_ns s" ?k "qe_queue_id e" "map qe_queue_id rest"] by simp
qed

lemma spec_step:
  assumes ok: "ns_ok s"
  shows "ns_spec (abs_ns s) (abs_ns (fst (ns_apply s c i)))"
  by (cases c)
    (simp_all add: spec_set_index spec_create_ledger spec_create_branch ok fst_drop_branch fst_purge_branch
      spec_remove_branch spec_reset spec_retract spec_cas spec_enqueue spec_apply_head spec_poison idle
      advance_index_head_def rewrite_index_head_def, simp_all add: spec_idle)

lemma spec_run: "ns_ok s \<Longrightarrow> ns_spec\<^sup>*\<^sup>* (abs_ns s) (abs_ns (ns_run s es))"
proof (induction s es rule: ns_run.induct)
  case (2 s i c es)
  then show ?case using converse_rtranclp_into_rtranclp [of ns_spec, OF spec_step [OF 2(2), of c i]] by (simp add: ns_ok_apply)
qed simp

section \<open>Properties\<close>

text \<open>
  C13: the nameservice implements the abstract machine.  Every command, on every branch of its
  handler, is one rule of \<open>ns_spec\<close> on the abstract state, so every log from the empty nameservice is
  an execution of the abstract machine from its initial state.
\<close>

theorem nameservice_refines_spec:
  "ns_spec\<^sup>*\<^sup>* (abs_ns new_state) (abs_ns (ns_run new_state es)) \<and>
   ns_spec (abs_ns (ns_run new_state es)) (abs_ns (fst (ns_apply (ns_run new_state es) c i)))"
proof -
  have "ns_spec\<^sup>*\<^sup>* (abs_ns new_state) (abs_ns (ns_run new_state es))" by (rule spec_run [OF ns_ok_new])
  then show ?thesis using spec_step [OF ns_ok_reached] by blast
qed

end
