(* ===== verification/Waiter.thy ===== *)
theory Waiter
  imports Ns_Apply
begin

text \<open>
  The per-process bridge between proposers and the apply path,
  \<^verbatim>\<open>fluree-db-consensus/src/raft/waiter.rs\<close>, and the side channel for staging detail,
  \<^verbatim>\<open>fluree-db-consensus/src/raft/staged_receipt.rs\<close>.

  A \<open>DashMap\<close> is an association list.  The \<open>Arc<OnceLock<u64>>\<close> shared by a ticket and the entry
  it owns is a fresh number, with the cells that have been set in \<open>wm_bound\<close>; the oneshot channel
  of a ticket is an entry of \<open>wm_chan\<close>, present as long as the receiver is alive.  Dropping a
  sender that has not sent closes its channel.
\<close>

section \<open>Receipts\<close>

record PushedStatement =
  pst_source :: string
  pst_sql :: string

record PolicyEnforcement =
  pe_enforced :: bool
  pe_denies_all_data :: bool
  pe_unevaluable_policies :: "string list"

record ReasoningTally =
  rg_capped :: bool
  rg_capped_reason :: "string option"
  rg_derived_facts :: u64
  rg_iterations :: u64
  rg_duration_ms :: u64

record TrackingTally =
  tt_time :: "string option"
  tt_fuel :: "rat option"
  tt_policy :: "(string, PolicyStats) hmap option"
  tt_policy_enforcement :: "PolicyEnforcement option"
  tt_reasoning :: "ReasoningTally option"
  tt_sql :: "PushedStatement list option"
  tt_sql_elided :: "u64 option"

definition recorded_reasoning :: "ReasoningTally \<Rightarrow> RecordedReasoningTally" where
  "recorded_reasoning r =
     \<lparr>rr_capped = rg_capped r, rr_capped_reason = rg_capped_reason r, rr_derived_facts = rg_derived_facts r,
      rr_iterations = rg_iterations r, rr_duration_ms = rg_duration_ms r\<rparr>"

definition reasoning_tally :: "RecordedReasoningTally \<Rightarrow> ReasoningTally" where
  "reasoning_tally r =
     \<lparr>rg_capped = rr_capped r, rg_capped_reason = rr_capped_reason r, rg_derived_facts = rr_derived_facts r,
      rg_iterations = rr_iterations r, rg_duration_ms = rr_duration_ms r\<rparr>"

definition recorded_tally :: "TrackingTally \<Rightarrow> RecordedTally" where
  "recorded_tally t =
     \<lparr>rt_time = tt_time t, rt_fuel = tt_fuel t, rt_policy = tt_policy t,
      rt_reasoning = map_option recorded_reasoning (tt_reasoning t)\<rparr>"

definition tracking_tally :: "RecordedTally \<Rightarrow> TrackingTally" where
  "tracking_tally r =
     \<lparr>tt_time = rt_time r, tt_fuel = rt_fuel r, tt_policy = rt_policy r, tt_policy_enforcement = None,
      tt_reasoning = map_option reasoning_tally (rt_reasoning r), tt_sql = None, tt_sql_elided = None\<rparr>"

lemma recorded_reasoning_tally [simp]: "recorded_reasoning (reasoning_tally r) = r"
  by (simp add: recorded_reasoning_def reasoning_tally_def)

lemma recorded_tracking [simp]: "recorded_tally (tracking_tally r) = r"
  by (cases r) (simp add: recorded_tally_def tracking_tally_def option.map_comp comp_def option.map_ident)

datatype ConflictStrategy = TakeBoth | Abort | TakeSource | TakeBranch | Skip

record IndexingStatus =
  is_enabled :: bool
  is_needed :: bool
  is_novelty_size :: usize
  is_index_t :: i64
  is_commit_t :: i64

record TransactApplied =
  ta_commit_id :: ContentId
  ta_commit_t :: i64
  ta_flake_count :: usize
  ta_tally :: "TrackingTally option"

record PushApplied =
  pa_commit_id :: ContentId
  pa_commit_t :: i64
  pa_accepted :: usize
  pa_indexing :: IndexingStatus

record RevertApplied =
  va_commit_id :: ContentId
  va_commit_t :: i64
  va_reverted_commits :: "ContentId list"
  va_conflict_count :: usize
  va_strategy :: ConflictStrategy

record MergeApplied =
  ma_commit_id :: ContentId
  ma_commit_t :: i64
  ma_fast_forward :: bool
  ma_commits_copied :: usize
  ma_conflict_count :: usize
  ma_strategy :: ConflictStrategy

record RebaseApplied =
  ba_commit_id :: ContentId
  ba_commit_t :: i64
  ba_fast_forward :: bool
  ba_replayed :: usize
  ba_skipped :: usize
  ba_conflicts :: usize
  ba_failures :: usize
  ba_total_commits :: usize
  ba_source_head_t :: i64
  ba_source_head_id :: ContentId
  ba_strategy :: ConflictStrategy

datatype AppliedReceipt =
    TransactReceipt TransactApplied
  | PushReceipt PushApplied
  | RevertReceipt RevertApplied
  | MergeReceipt MergeApplied
  | RebaseReceipt RebaseApplied
  | MinimalReceipt ContentId i64

fun receipt_commit_id :: "AppliedReceipt \<Rightarrow> ContentId" where
  "receipt_commit_id (TransactReceipt r) = ta_commit_id r"
| "receipt_commit_id (PushReceipt r) = pa_commit_id r"
| "receipt_commit_id (RevertReceipt r) = va_commit_id r"
| "receipt_commit_id (MergeReceipt r) = ma_commit_id r"
| "receipt_commit_id (RebaseReceipt r) = ba_commit_id r"
| "receipt_commit_id (MinimalReceipt c _) = c"

fun receipt_commit_t :: "AppliedReceipt \<Rightarrow> i64" where
  "receipt_commit_t (TransactReceipt r) = ta_commit_t r"
| "receipt_commit_t (PushReceipt r) = pa_commit_t r"
| "receipt_commit_t (RevertReceipt r) = va_commit_t r"
| "receipt_commit_t (MergeReceipt r) = ma_commit_t r"
| "receipt_commit_t (RebaseReceipt r) = ba_commit_t r"
| "receipt_commit_t (MinimalReceipt _ t) = t"

section \<open>The stash of staged receipts\<close>

type_synonym StagedReceiptMap = "(u64, RefKey \<times> AppliedReceipt) hmap"

definition stash :: "StagedReceiptMap \<Rightarrow> u64 \<Rightarrow> RefKey \<Rightarrow> AppliedReceipt \<Rightarrow> StagedReceiptMap" where
  "stash m queue_id ref receipt = hm_insert queue_id (ref, receipt) m"

definition stash_if_absent ::
  "StagedReceiptMap \<Rightarrow> u64 \<Rightarrow> RefKey \<Rightarrow> AppliedReceipt \<Rightarrow> StagedReceiptMap \<times> bool" where
  "stash_if_absent m queue_id ref receipt =
     (case hm_get m queue_id of
        None \<Rightarrow> (hm_insert queue_id (ref, receipt) m, True)
      | Some _ \<Rightarrow> (m, False))"

definition take_receipt :: "StagedReceiptMap \<Rightarrow> u64 \<Rightarrow> StagedReceiptMap \<times> AppliedReceipt option" where
  "take_receipt m queue_id = (hm_remove queue_id m, map_option snd (hm_get m queue_id))"

definition receipts_for :: "StagedReceiptMap \<Rightarrow> RefKey \<Rightarrow> u64 list" where
  "receipts_for m ref = map fst (filter (\<lambda>(_, r, _). r = ref) m)"

fun take_all :: "StagedReceiptMap \<Rightarrow> u64 list \<Rightarrow> StagedReceiptMap \<times> AppliedReceipt list" where
  "take_all m [] = (m, [])"
| "take_all m (q # qs) =
     (let (m', r) = take_receipt m q; (m'', rs) = take_all m' qs in
      (m'', case r of Some x \<Rightarrow> x # rs | None \<Rightarrow> rs))"

definition take_for_ref_key :: "StagedReceiptMap \<Rightarrow> RefKey \<Rightarrow> StagedReceiptMap \<times> AppliedReceipt list" where
  "take_for_ref_key m ref = take_all m (receipts_for m ref)"

definition peek_queue_id_for :: "StagedReceiptMap \<Rightarrow> RefKey \<Rightarrow> u64 option" where
  "peek_queue_id_for m ref =
     (case receipts_for m ref of [] \<Rightarrow> None | q # qs \<Rightarrow> Some (fold min qs q))"

definition take_pending :: "StagedReceiptMap \<Rightarrow> RefKey \<Rightarrow> StagedReceiptMap \<times> (u64 \<times> AppliedReceipt) option" where
  "take_pending m ref =
     (case peek_queue_id_for m ref of
        None \<Rightarrow> (m, None)
      | Some q \<Rightarrow> (let (m', r) = take_receipt m q in (m', map_option (Pair q) r)))"

record TransactStashMetadata =
  sm_flake_count :: usize
  sm_tally :: "TrackingTally option"

definition peek_transact_metadata :: "StagedReceiptMap \<Rightarrow> u64 \<Rightarrow> TransactStashMetadata option" where
  "peek_transact_metadata m queue_id =
     (case hm_get m queue_id of
        Some (_, TransactReceipt r) \<Rightarrow> Some \<lparr>sm_flake_count = ta_flake_count r, sm_tally = ta_tally r\<rparr>
      | _ \<Rightarrow> None)"

definition clear_all :: "StagedReceiptMap \<Rightarrow> StagedReceiptMap" where
  "clear_all m = []"

text \<open>\<open>StashGuard\<close>: a stashed slot that is emptied when the guard is dropped; the guard is its queue id.\<close>

type_synonym StashGuard = u64

definition guard_stash ::
  "StagedReceiptMap \<Rightarrow> u64 \<Rightarrow> RefKey \<Rightarrow> AppliedReceipt \<Rightarrow> StagedReceiptMap \<times> StashGuard" where
  "guard_stash m queue_id ref receipt = (stash m queue_id ref receipt, queue_id)"

definition guard_try_stash ::
  "StagedReceiptMap \<Rightarrow> u64 \<Rightarrow> RefKey \<Rightarrow> AppliedReceipt \<Rightarrow> StagedReceiptMap \<times> StashGuard option" where
  "guard_try_stash m queue_id ref receipt =
     (let (m', stashed) = stash_if_absent m queue_id ref receipt in
      (m', if stashed then Some queue_id else None))"

definition guard_drop :: "StagedReceiptMap \<Rightarrow> StashGuard \<Rightarrow> StagedReceiptMap" where
  "guard_drop m g = fst (take_receipt m g)"

section \<open>Waiters\<close>

datatype AbortReason =
    AbortBranchDropped | AbortBranchPurged | AbortBranchHeadReset | AbortBranchRetracted
  | AbortSnapshotInstalled
  | AbortPoisoned PoisonReason

datatype WaiterOutcome = OutcomeApplied AppliedReceipt | OutcomeAborted AbortReason

datatype WaitError = TimedOut | Displaced

type_synonym ticket = nat

record Interest =
  in_ref_key :: RefKey
  in_ticket :: ticket

record Waiter =
  wt_ref_key :: RefKey
  wt_ticket :: ticket

datatype Chan = ChanOpen | ChanSent WaiterOutcome | ChanClosed

record WaiterMap =
  wm_interests :: "(ContentId, Interest) hmap"
  wm_waiters :: "(u64, Waiter) hmap"
  wm_bound :: "(ticket, u64) hmap"
  wm_chan :: "(ticket, Chan) hmap"
  wm_next :: ticket

record WaiterTicket =
  tk_request_cid :: ContentId
  tk_id :: ticket

definition new_waiters :: WaiterMap where
  "new_waiters = \<lparr>wm_interests = [], wm_waiters = [], wm_bound = [], wm_chan = [], wm_next = 0\<rparr>"

text \<open>\<open>oneshot::Sender::send\<close>, and the drop of a sender.\<close>

definition send :: "WaiterMap \<Rightarrow> ticket \<Rightarrow> WaiterOutcome \<Rightarrow> WaiterMap" where
  "send m t outcome =
     (if hm_get (wm_chan m) t = Some ChanOpen then m\<lparr>wm_chan := hm_insert t (ChanSent outcome) (wm_chan m)\<rparr> else m)"

definition drop_sender :: "WaiterMap \<Rightarrow> ticket \<Rightarrow> WaiterMap" where
  "drop_sender m t =
     (if hm_get (wm_chan m) t = Some ChanOpen then m\<lparr>wm_chan := hm_insert t ChanClosed (wm_chan m)\<rparr> else m)"

definition arm :: "WaiterMap \<Rightarrow> ContentId \<Rightarrow> RefKey \<Rightarrow> WaiterMap \<times> WaiterTicket" where
  "arm m cid ref =
     (let t = wm_next m;
          displaced = hm_get (wm_interests m) cid;
          m = m\<lparr>wm_next := t + 1, wm_chan := hm_insert t ChanOpen (wm_chan m),
                wm_interests := hm_insert cid \<lparr>in_ref_key = ref, in_ticket = t\<rparr> (wm_interests m)\<rparr>;
          m = (case displaced of Some i \<Rightarrow> drop_sender m (in_ticket i) | None \<Rightarrow> m) in
      (m, \<lparr>tk_request_cid = cid, tk_id = t\<rparr>))"

definition bind :: "WaiterMap \<Rightarrow> ContentId \<Rightarrow> u64 \<Rightarrow> WaiterMap" where
  "bind m cid queue_id =
     (case hm_get (wm_interests m) cid of
        None \<Rightarrow> m
      | Some i \<Rightarrow>
          (let t = in_ticket i;
               displaced = hm_get (wm_waiters m) queue_id;
               m = m\<lparr>wm_interests := hm_remove cid (wm_interests m),
                     wm_bound := (case hm_get (wm_bound m) t of
                                    None \<Rightarrow> hm_insert t queue_id (wm_bound m) | Some _ \<Rightarrow> wm_bound m),
                     wm_waiters := hm_insert queue_id \<lparr>wt_ref_key = in_ref_key i, wt_ticket = t\<rparr> (wm_waiters m)\<rparr> in
           case displaced of Some w \<Rightarrow> drop_sender m (wt_ticket w) | None \<Rightarrow> m))"

definition resolve_with :: "WaiterMap \<Rightarrow> u64 \<Rightarrow> WaiterOutcome \<Rightarrow> WaiterMap" where
  "resolve_with m queue_id outcome =
     (case hm_get (wm_waiters m) queue_id of
        None \<Rightarrow> m
      | Some w \<Rightarrow> send (m\<lparr>wm_waiters := hm_remove queue_id (wm_waiters m)\<rparr>) (wt_ticket w) outcome)"

definition resolve_applied :: "WaiterMap \<Rightarrow> u64 \<Rightarrow> AppliedReceipt \<Rightarrow> WaiterMap" where
  "resolve_applied m queue_id receipt = resolve_with m queue_id (OutcomeApplied receipt)"

definition resolve_aborted :: "WaiterMap \<Rightarrow> u64 \<Rightarrow> AbortReason \<Rightarrow> WaiterMap" where
  "resolve_aborted m queue_id reason = resolve_with m queue_id (OutcomeAborted reason)"

definition abort_all_for_branch :: "WaiterMap \<Rightarrow> RefKey \<Rightarrow> AbortReason \<Rightarrow> WaiterMap" where
  "abort_all_for_branch m ref reason =
     foldl (\<lambda>m q. resolve_aborted m q reason) m
       (map fst (filter (\<lambda>(_, w). wt_ref_key w = ref) (wm_waiters m)))"

definition abort_interest :: "AbortReason \<Rightarrow> WaiterMap \<Rightarrow> ContentId \<Rightarrow> WaiterMap" where
  "abort_interest reason m cid =
     (case hm_get (wm_interests m) cid of
        None \<Rightarrow> m
      | Some i \<Rightarrow>
          send (m\<lparr>wm_interests := hm_remove cid (wm_interests m)\<rparr>) (in_ticket i) (OutcomeAborted reason))"

definition drain_all_with :: "WaiterMap \<Rightarrow> AbortReason \<Rightarrow> WaiterMap" where
  "drain_all_with m reason =
     (let m = foldl (\<lambda>m q. resolve_aborted m q reason) m (map fst (wm_waiters m)) in
      foldl (abort_interest reason) m (map fst (wm_interests m)))"

text \<open>\<open>WaiterTicket::wait\<close> once the timeout or an outcome has come, and the drop of a ticket.\<close>

definition wait :: "WaiterMap \<Rightarrow> WaiterTicket \<Rightarrow> WaitError + WaiterOutcome" where
  "wait m tk =
     (case hm_get (wm_chan m) (tk_id tk) of
        Some (ChanSent outcome) \<Rightarrow> Inr outcome
      | Some ChanOpen \<Rightarrow> Inl TimedOut
      | _ \<Rightarrow> Inl Displaced)"

definition ticket_queue_id :: "WaiterMap \<Rightarrow> WaiterTicket \<Rightarrow> u64 option" where
  "ticket_queue_id m tk = hm_get (wm_bound m) (tk_id tk)"

definition drop_ticket :: "WaiterMap \<Rightarrow> WaiterTicket \<Rightarrow> WaiterMap" where
  "drop_ticket m tk =
     (let t = tk_id tk;
          m = (case hm_get (wm_bound m) t of
                 Some q \<Rightarrow>
                   (case hm_get (wm_waiters m) q of
                      Some w \<Rightarrow> if wt_ticket w = t then m\<lparr>wm_waiters := hm_remove q (wm_waiters m)\<rparr> else m
                    | None \<Rightarrow> m)
               | None \<Rightarrow>
                   (case hm_get (wm_interests m) (tk_request_cid tk) of
                      Some i \<Rightarrow> if in_ticket i = t
                                then m\<lparr>wm_interests := hm_remove (tk_request_cid tk) (wm_interests m)\<rparr> else m
                    | None \<Rightarrow> m)) in
      m\<lparr>wm_chan := hm_remove t (wm_chan m)\<rparr>)"

end
