(* ===== verification/Waiter_Inv.thy ===== *)
theory Waiter_Inv
  imports Waiter
begin

text \<open>
  What the waiter map guarantees.  A proposer whose channel is open is registered in exactly one
  slot, so nothing can resolve to nowhere; an outcome that was sent is never overwritten; a ticket
  that was displaced takes nothing away from the one that displaced it.
\<close>

section \<open>The invariant\<close>

text \<open>The maps as functions: interests, waiters, bound cells, channels, and the next ticket.\<close>

definition wok ::
  "(ContentId \<rightharpoonup> Interest) \<Rightarrow> (u64 \<rightharpoonup> Waiter) \<Rightarrow> (ticket \<rightharpoonup> u64) \<Rightarrow> (ticket \<rightharpoonup> Chan) \<Rightarrow> nat \<Rightarrow> bool" where
  "wok I W B C n \<longleftrightarrow>
     (\<forall>c i. I c = Some i \<longrightarrow> C (in_ticket i) = Some ChanOpen \<and> B (in_ticket i) = None) \<and>
     (\<forall>q w. W q = Some w \<longrightarrow> C (wt_ticket w) = Some ChanOpen \<and> B (wt_ticket w) = Some q) \<and>
     (\<forall>t. C t = Some ChanOpen \<longrightarrow> (\<exists>c i. I c = Some i \<and> in_ticket i = t) \<or> (\<exists>q w. W q = Some w \<and> wt_ticket w = t)) \<and>
     (\<forall>c c' i i'. I c = Some i \<longrightarrow> I c' = Some i' \<longrightarrow> in_ticket i = in_ticket i' \<longrightarrow> c = c') \<and>
     (\<forall>t. n \<le> t \<longrightarrow> C t = None \<and> B t = None)"

lemma wokI:
  assumes "\<And>c i. I c = Some i \<Longrightarrow> C (in_ticket i) = Some ChanOpen \<and> B (in_ticket i) = None"
    and "\<And>q w. W q = Some w \<Longrightarrow> C (wt_ticket w) = Some ChanOpen \<and> B (wt_ticket w) = Some q"
    and "\<And>t. C t = Some ChanOpen \<Longrightarrow> (\<exists>c i. I c = Some i \<and> in_ticket i = t) \<or> (\<exists>q w. W q = Some w \<and> wt_ticket w = t)"
    and "\<And>c c' i i'. I c = Some i \<Longrightarrow> I c' = Some i' \<Longrightarrow> in_ticket i = in_ticket i' \<Longrightarrow> c = c'"
    and "\<And>t. n \<le> t \<Longrightarrow> C t = None \<and> B t = None"
  shows "wok I W B C n"
  using assms unfolding wok_def by blast

lemma wokD:
  assumes "wok I W B C n"
  shows "I c = Some i \<Longrightarrow> C (in_ticket i) = Some ChanOpen" "I c = Some i \<Longrightarrow> B (in_ticket i) = None"
    "W q = Some w \<Longrightarrow> C (wt_ticket w) = Some ChanOpen" "W q = Some w \<Longrightarrow> B (wt_ticket w) = Some q"
    "C t = Some ChanOpen \<Longrightarrow> (\<exists>c i. I c = Some i \<and> in_ticket i = t) \<or> (\<exists>q w. W q = Some w \<and> wt_ticket w = t)"
    "I c = Some i \<Longrightarrow> I c' = Some i' \<Longrightarrow> in_ticket i = in_ticket i' \<Longrightarrow> c = c'"
    "n \<le> t \<Longrightarrow> C t = None" "n \<le> t \<Longrightarrow> B t = None"
  using assms unfolding wok_def by blast+

lemma wok_ticket_neq:
  assumes "wok I W B C n"
  shows "I c = Some i \<Longrightarrow> W q = Some w \<Longrightarrow> in_ticket i \<noteq> wt_ticket w"
    "W q = Some w \<Longrightarrow> W q' = Some w' \<Longrightarrow> q \<noteq> q' \<Longrightarrow> wt_ticket w \<noteq> wt_ticket w'"
    "I c = Some i \<Longrightarrow> in_ticket i < n" "W q = Some w \<Longrightarrow> wt_ticket w < n"
  using wokD [OF assms] by (metis option.simps(3), metis option.inject, metis not_le option.simps(3),
      metis not_le option.simps(3))

text \<open>The four elementary changes.\<close>

lemma wok_close_interest:
  assumes ok: "wok I W B C n" and c: "I c = Some i" and x: "x \<noteq> Some ChanOpen"
  shows "wok (I(c := None)) W B (C(in_ticket i := x)) n"
proof (rule wokI)
  show "n \<le> t \<Longrightarrow> (C(in_ticket i := x)) t = None \<and> B t = None" for t
    using wokD(7,8) [OF ok, of t] wok_ticket_neq(3) [OF ok c] by auto
next
  fix t assume "(C(in_ticket i := x)) t = Some ChanOpen"
  then have "t \<noteq> in_ticket i" "C t = Some ChanOpen" using x by (auto split: if_splits)
  then show "(\<exists>c' i'. (I(c := None)) c' = Some i' \<and> in_ticket i' = t) \<or> (\<exists>q w. W q = Some w \<and> wt_ticket w = t)"
    using wokD(5) [OF ok] c by (metis fun_upd_apply option.inject)
next
  fix c1 c2 i1 i2
  assume "(I(c := None)) c1 = Some i1" "(I(c := None)) c2 = Some i2" "in_ticket i1 = in_ticket i2"
  then show "c1 = c2" using wokD(6) [OF ok] by (metis fun_upd_apply option.simps(3))
next
  fix c' i' assume "(I(c := None)) c' = Some i'"
  then have i': "I c' = Some i'" "c' \<noteq> c" by (auto split: if_splits)
  then have "in_ticket i' \<noteq> in_ticket i" using wokD(6) [OF ok i'(1) c] by blast
  then show "(C(in_ticket i := x)) (in_ticket i') = Some ChanOpen \<and> B (in_ticket i') = None"
    using wokD(1,2) [OF ok i'(1)] by simp
next
  fix q w assume w: "W q = Some w"
  then show "(C(in_ticket i := x)) (wt_ticket w) = Some ChanOpen \<and> B (wt_ticket w) = Some q"
    using wokD(3,4) [OF ok w] wok_ticket_neq(1) [OF ok c w] by simp
qed

lemma wok_close_waiter:
  assumes ok: "wok I W B C n" and q: "W q = Some w" and x: "x \<noteq> Some ChanOpen"
  shows "wok I (W(q := None)) B (C(wt_ticket w := x)) n"
proof (rule wokI)
  show "n \<le> t \<Longrightarrow> (C(wt_ticket w := x)) t = None \<and> B t = None" for t
    using wokD(7,8) [OF ok, of t] wok_ticket_neq(4) [OF ok q] by auto
next
  fix t assume "(C(wt_ticket w := x)) t = Some ChanOpen"
  then have "t \<noteq> wt_ticket w" "C t = Some ChanOpen" using x by (auto split: if_splits)
  then show "(\<exists>c i. I c = Some i \<and> in_ticket i = t) \<or> (\<exists>q' w'. (W(q := None)) q' = Some w' \<and> wt_ticket w' = t)"
    using wokD(5) [OF ok] q by (metis fun_upd_apply option.inject)
next
  fix c i assume i: "I c = Some i"
  then show "(C(wt_ticket w := x)) (in_ticket i) = Some ChanOpen \<and> B (in_ticket i) = None"
    using wokD(1,2) [OF ok i] wok_ticket_neq(1) [OF ok i q] by simp
next
  fix q' w' assume "(W(q := None)) q' = Some w'"
  then have w': "W q' = Some w'" "q' \<noteq> q" by (auto split: if_splits)
  then show "(C(wt_ticket w := x)) (wt_ticket w') = Some ChanOpen \<and> B (wt_ticket w') = Some q'"
    using wokD(3,4) [OF ok w'(1)] wok_ticket_neq(2) [OF ok w'(1) q] by simp
qed (rule wokD(6) [OF ok])

lemma wok_arm:
  assumes ok: "wok I W B C n" and c: "I c = None"
  shows "wok (I(c \<mapsto> \<lparr>in_ref_key = r, in_ticket = n\<rparr>)) W B (C(n \<mapsto> ChanOpen)) (Suc n)" (is "wok ?I W B ?C _")
proof (rule wokI)
  fix t assume t: "?C t = Some ChanOpen"
  show "(\<exists>c' i. ?I c' = Some i \<and> in_ticket i = t) \<or> (\<exists>q w. W q = Some w \<and> wt_ticket w = t)"
  proof (cases "t = n")
    case True
    then show ?thesis by (intro disjI1 exI [of _ c]) simp
  next
    case False
    then have "C t = Some ChanOpen" using t by simp
    from wokD(5) [OF ok this] show ?thesis using c by (metis fun_upd_apply option.simps(3))
  qed
next
  fix c1 c2 i1 i2
  assume i: "?I c1 = Some i1" "?I c2 = Some i2" and eq: "in_ticket i1 = in_ticket i2"
  have new: "in_ticket j = n" if "?I c = Some j" for j using that by auto
  have old: "I d = Some j \<and> in_ticket j < n" if "?I d = Some j" "d \<noteq> c" for d j
    using that wok_ticket_neq(3) [OF ok, of d j] by simp
  show "c1 = c2"
  proof (cases "c1 = c \<or> c2 = c")
    case True
    then show ?thesis using new old i eq by (metis less_irrefl)
  next
    case False
    then show ?thesis using wokD(6) [OF ok _ _ eq] old i by blast
  qed
next
  fix c' i assume "?I c' = Some i"
  then show "?C (in_ticket i) = Some ChanOpen \<and> B (in_ticket i) = None"
    using wokD(1,2) [OF ok, of c' i] wokD(8) [OF ok, of n] by (cases "c' = c") auto
next
  fix q w assume "W q = Some w"
  then show "?C (wt_ticket w) = Some ChanOpen \<and> B (wt_ticket w) = Some q" using wokD(3,4) [OF ok, of q w] by simp
next
  fix t assume "Suc n \<le> t"
  then show "?C t = None \<and> B t = None" using wokD(7,8) [OF ok, of t] by simp
qed

lemma wok_bind:
  assumes ok: "wok I W B C n" and c: "I c = Some i" and q: "W q = None"
  shows "wok (I(c := None)) (W(q \<mapsto> \<lparr>wt_ref_key = r, wt_ticket = in_ticket i\<rparr>)) (B(in_ticket i \<mapsto> q)) C n"
proof (rule wokI)
  fix c' i' assume "(I(c := None)) c' = Some i'"
  then have i': "I c' = Some i'" "c' \<noteq> c" by (auto split: if_splits)
  then have "in_ticket i' \<noteq> in_ticket i" using wokD(6) [OF ok i'(1) c] by blast
  then show "C (in_ticket i') = Some ChanOpen \<and> (B(in_ticket i \<mapsto> q)) (in_ticket i') = None"
    using wokD(1,2) [OF ok i'(1)] by simp
next
  fix q' w assume "(W(q \<mapsto> \<lparr>wt_ref_key = r, wt_ticket = in_ticket i\<rparr>)) q' = Some w"
  then show "C (wt_ticket w) = Some ChanOpen \<and> (B(in_ticket i \<mapsto> q)) (wt_ticket w) = Some q'"
    using wokD(1) [OF ok c] wokD(3,4) [OF ok, of q' w] wok_ticket_neq(1) [OF ok c, of q' w]
    by (cases "q' = q") auto
next
  fix t assume "C t = Some ChanOpen"
  then consider c' i' where "I c' = Some i'" "in_ticket i' = t" | q' w where "W q' = Some w" "wt_ticket w = t"
    using wokD(5) [OF ok] by blast
  then show "(\<exists>c' i'. (I(c := None)) c' = Some i' \<and> in_ticket i' = t) \<or>
      (\<exists>q' w. (W(q \<mapsto> \<lparr>wt_ref_key = r, wt_ticket = in_ticket i\<rparr>)) q' = Some w \<and> wt_ticket w = t)"
  proof cases
    case (1 c' i')
    then show ?thesis using c by (cases "c' = c") (auto intro!: exI [of _ q])
  next
    case (2 q' w)
    then show ?thesis using q by (intro disjI2 exI [of _ q'] exI [of _ w]) auto
  qed
next
  fix c1 c2 i1 i2
  assume "(I(c := None)) c1 = Some i1" "(I(c := None)) c2 = Some i2" "in_ticket i1 = in_ticket i2"
  then show "c1 = c2" using wokD(6) [OF ok] by (metis fun_upd_apply option.simps(3))
qed (use wokD(7,8) [OF ok] wok_ticket_neq(3) [OF ok c] in auto)

section \<open>Every operation keeps it\<close>

lemma hm_get_fun [simp]:
  "hm_get (hm_insert k v m) = (hm_get m)(k \<mapsto> v)" "hm_get (hm_remove k m) = (hm_get m)(k := None)"
  by (simp_all add: fun_eq_iff)

definition wm_ok :: "WaiterMap \<Rightarrow> bool" where
  "wm_ok m \<longleftrightarrow> wok (hm_get (wm_interests m)) (hm_get (wm_waiters m)) (hm_get (wm_bound m)) (hm_get (wm_chan m)) (wm_next m)"

lemma wm_ok_new: "wm_ok new_waiters"
  by (simp add: wm_ok_def wok_def new_waiters_def)

lemma wm_ok_arm:
  assumes ok: "wm_ok m"
  shows "wm_ok (fst (arm m c r))"
proof (cases "hm_get (wm_interests m) c")
  case None
  then show ?thesis using wok_arm [OF ok [unfolded wm_ok_def] None] by (simp add: arm_def Let_def wm_ok_def)
next
  case (Some i)
  let ?I = "hm_get (wm_interests m)" and ?C = "hm_get (wm_chan m)" and ?n = "wm_next m"
  note ok' = ok [unfolded wm_ok_def]
  have "in_ticket i \<noteq> ?n" "?C (in_ticket i) = Some ChanOpen"
    using wok_ticket_neq(3) [OF ok' Some] wokD(1) [OF ok' Some] by simp_all
  moreover have "wok (?I(c := None, c \<mapsto> \<lparr>in_ref_key = r, in_ticket = ?n\<rparr>)) (hm_get (wm_waiters m)) (hm_get (wm_bound m))
      (?C(in_ticket i \<mapsto> ChanClosed, ?n \<mapsto> ChanOpen)) (Suc ?n)"
    by (rule wok_arm [OF wok_close_interest [OF ok' Some]]) simp_all
  ultimately show ?thesis using Some by (simp add: arm_def Let_def drop_sender_def wm_ok_def fun_upd_twist)
qed

lemma wm_ok_bind:
  assumes ok: "wm_ok m"
  shows "wm_ok (bind m c q)"
proof (cases "hm_get (wm_interests m) c")
  case None
  then show ?thesis using ok by (simp add: bind_def)
next
  case (Some i)
  note ok' = ok [unfolded wm_ok_def]
  show ?thesis
  proof (cases "hm_get (wm_waiters m) q")
    case None
    then show ?thesis using wok_bind [OF ok' Some None, of "in_ref_key i"] Some wokD(2) [OF ok' Some]
      by (simp add: bind_def Let_def wm_ok_def)
  next
    case w: (Some w)
    have "wok ((hm_get (wm_interests m))(c := None)) ((hm_get (wm_waiters m))(q := None, q \<mapsto> \<lparr>wt_ref_key = in_ref_key i, wt_ticket = in_ticket i\<rparr>))
        ((hm_get (wm_bound m))(in_ticket i \<mapsto> q)) ((hm_get (wm_chan m))(wt_ticket w \<mapsto> ChanClosed)) (wm_next m)"
      using Some by (intro wok_bind wok_close_waiter ok' w) simp_all
    then show ?thesis using Some w wokD(2) [OF ok' Some] wokD(3) [OF ok' w]
      by (simp add: bind_def Let_def wm_ok_def drop_sender_def)
  qed
qed

lemma wm_ok_resolve:
  assumes ok: "wm_ok m"
  shows "wm_ok (resolve_with m q out)"
proof (cases "hm_get (wm_waiters m) q")
  case (Some w)
  then show ?thesis
    using wok_close_waiter [OF ok [unfolded wm_ok_def] Some, of "Some (ChanSent out)"]
      wokD(3) [OF ok [unfolded wm_ok_def] Some]
    by (simp add: resolve_with_def send_def wm_ok_def)
qed (use ok in \<open>simp add: resolve_with_def\<close>)

lemma wm_ok_abort_interest:
  assumes ok: "wm_ok m"
  shows "wm_ok (abort_interest r m c)"
proof (cases "hm_get (wm_interests m) c")
  case (Some i)
  then show ?thesis
    using wok_close_interest [OF ok [unfolded wm_ok_def] Some, of "Some (ChanSent (OutcomeAborted r))"]
      wokD(1) [OF ok [unfolded wm_ok_def] Some]
    by (simp add: abort_interest_def send_def wm_ok_def)
qed (use ok in \<open>simp add: abort_interest_def\<close>)

lemma foldl_inv: "P m \<Longrightarrow> (\<And>m x. P m \<Longrightarrow> P (f m x)) \<Longrightarrow> P (foldl f m xs)"
  by (induction xs arbitrary: m) simp_all

lemma wm_ok_branch: "wm_ok m \<Longrightarrow> wm_ok (abort_all_for_branch m r why)"
  unfolding abort_all_for_branch_def by (rule foldl_inv) (simp_all add: resolve_aborted_def wm_ok_resolve)

lemma wm_ok_drain: "wm_ok m \<Longrightarrow> wm_ok (drain_all_with m why)"
  unfolding drain_all_with_def Let_def
  by (rule foldl_inv [where P = wm_ok], rule foldl_inv [where P = wm_ok])
    (simp_all add: resolve_aborted_def wm_ok_resolve wm_ok_abort_interest)

text \<open>A ticket that \<open>arm\<close> handed out: its interest, if any, sits under its own request id.\<close>

definition issued :: "WaiterMap \<Rightarrow> WaiterTicket \<Rightarrow> bool" where
  "issued m tk \<longleftrightarrow> tk_id tk < wm_next m \<and>
     (\<forall>c i. hm_get (wm_interests m) c = Some i \<longrightarrow> in_ticket i = tk_id tk \<longrightarrow> c = tk_request_cid tk)"

lemma wm_ok_drop:
  assumes ok: "wm_ok m" and iss: "issued m tk"
  shows "wm_ok (drop_ticket m tk)"
proof -
  let ?t = "tk_id tk" and ?I = "hm_get (wm_interests m)" and ?W = "hm_get (wm_waiters m)"
  let ?B = "hm_get (wm_bound m)" and ?C = "hm_get (wm_chan m)"
  note ok' = ok [unfolded wm_ok_def]
  consider (waiting) q w where "?B ?t = Some q" "?W q = Some w" "wt_ticket w = ?t"
    | (interested) i where "?B ?t = None" "?I (tk_request_cid tk) = Some i" "in_ticket i = ?t"
    | (gone) "\<And>q w. ?B ?t = Some q \<Longrightarrow> ?W q = Some w \<Longrightarrow> wt_ticket w \<noteq> ?t"
        "\<And>i. ?B ?t = None \<Longrightarrow> ?I (tk_request_cid tk) = Some i \<Longrightarrow> in_ticket i \<noteq> ?t"
    by blast
  then show ?thesis
  proof cases
    case waiting
    then show ?thesis using wok_close_waiter [OF ok' waiting(2), of None]
      by (simp add: drop_ticket_def Let_def wm_ok_def)
  next
    case interested
    then show ?thesis using wok_close_interest [OF ok' interested(2), of None]
      by (simp add: drop_ticket_def Let_def wm_ok_def)
  next
    case gone
    have dead: "?C ?t \<noteq> Some ChanOpen"
    proof
      assume "?C ?t = Some ChanOpen"
      then consider c i where "?I c = Some i" "in_ticket i = ?t" | q w where "?W q = Some w" "wt_ticket w = ?t"
        using wokD(5) [OF ok'] by blast
      then show False
      proof cases
        case (1 c i)
        then show False using iss gone(2) [of i] wokD(2) [OF ok' 1(1)] by (auto simp: issued_def)
      next
        case (2 q w)
        then show False using gone(1) [of q w] wokD(4) [OF ok' 2(1)] by simp
      qed
    qed
    have "drop_ticket m tk = m\<lparr>wm_chan := hm_remove ?t (wm_chan m)\<rparr>"
      using gone by (simp add: drop_ticket_def Let_def split: option.splits)
    moreover have "wok ?I ?W ?B (?C(?t := None)) (wm_next m)"
    proof (rule wokI)
      fix c i assume "?I c = Some i"
      then show "(?C(?t := None)) (in_ticket i) = Some ChanOpen \<and> ?B (in_ticket i) = None"
        using wokD(1,2) [OF ok', of c i] dead by auto
    next
      fix q w assume "?W q = Some w"
      then show "(?C(?t := None)) (wt_ticket w) = Some ChanOpen \<and> ?B (wt_ticket w) = Some q"
        using wokD(3,4) [OF ok', of q w] dead by auto
    next
      fix t assume "(?C(?t := None)) t = Some ChanOpen"
      then show "(\<exists>c i. ?I c = Some i \<and> in_ticket i = t) \<or> (\<exists>q w. ?W q = Some w \<and> wt_ticket w = t)"
        using wokD(5) [OF ok', of t] by (auto split: if_splits)
    qed (use wokD(6,7,8) [OF ok'] in auto)
    ultimately show ?thesis by (simp add: wm_ok_def)
  qed
qed

section \<open>Reachable maps\<close>

text \<open>A waiter map and the tickets its proposers still hold.\<close>

inductive waiter_reach :: "WaiterMap \<Rightarrow> WaiterTicket list \<Rightarrow> bool" where
  start: "waiter_reach new_waiters []"
| arms: "waiter_reach m L \<Longrightarrow> waiter_reach (fst (arm m c r)) (snd (arm m c r) # L)"
| binds: "waiter_reach m L \<Longrightarrow> waiter_reach (bind m c q) L"
| resolves: "waiter_reach m L \<Longrightarrow> waiter_reach (resolve_with m q out) L"
| aborts: "waiter_reach m L \<Longrightarrow> waiter_reach (abort_all_for_branch m r why) L"
| drains: "waiter_reach m L \<Longrightarrow> waiter_reach (drain_all_with m why) L"
| drops: "waiter_reach m L \<Longrightarrow> tk \<in> set L \<Longrightarrow> waiter_reach (drop_ticket m tk) (remove1 tk L)"

text \<open>An operation that registers nothing new and takes no channel away.\<close>

definition settles :: "WaiterMap \<Rightarrow> WaiterMap \<Rightarrow> bool" where
  "settles m m' \<longleftrightarrow> wm_next m' = wm_next m \<and> dom (hm_get (wm_chan m')) = dom (hm_get (wm_chan m)) \<and>
     (\<forall>c i. hm_get (wm_interests m') c = Some i \<longrightarrow> hm_get (wm_interests m) c = Some i)"

lemma settles_refl [simp]: "settles m m"
  by (simp add: settles_def)

lemma settles_trans: "settles a b \<Longrightarrow> settles b c \<Longrightarrow> settles a c"
  by (simp add: settles_def)

lemma settles_foldl: "(\<And>m x. settles m (f m x)) \<Longrightarrow> settles m (foldl f m xs)"
  by (induction xs arbitrary: m) (auto intro: settles_trans)

lemma settles_send: "settles m (send m t out)" "settles m (drop_sender m t)"
  by (auto simp: settles_def send_def drop_sender_def)

lemma settles_bind: "settles m (bind m c q)"
proof (cases "hm_get (wm_interests m) c")
  case (Some i)
  let ?m = "m\<lparr>wm_interests := hm_remove c (wm_interests m),
      wm_bound := (case hm_get (wm_bound m) (in_ticket i) of None \<Rightarrow> hm_insert (in_ticket i) q (wm_bound m) | Some _ \<Rightarrow> wm_bound m),
      wm_waiters := hm_insert q \<lparr>wt_ref_key = in_ref_key i, wt_ticket = in_ticket i\<rparr> (wm_waiters m)\<rparr>"
  have "settles m ?m" by (auto simp: settles_def split: if_splits)
  then show ?thesis using Some settles_trans [OF _ settles_send(2)]
    by (simp add: bind_def Let_def split: option.split)
qed (simp add: bind_def)

lemma settles_resolve: "settles m (resolve_with m q out)"
proof (cases "hm_get (wm_waiters m) q")
  case (Some w)
  have "settles m (m\<lparr>wm_waiters := hm_remove q (wm_waiters m)\<rparr>)" by (simp add: settles_def)
  then show ?thesis using Some settles_trans [OF _ settles_send(1)] by (simp add: resolve_with_def)
qed (simp add: resolve_with_def)

lemma settles_abort_interest: "settles m (abort_interest r m c)"
proof (cases "hm_get (wm_interests m) c")
  case (Some i)
  have "settles m (m\<lparr>wm_interests := hm_remove c (wm_interests m)\<rparr>)" by (auto simp: settles_def split: if_splits)
  then show ?thesis using Some settles_trans [OF _ settles_send(1)] by (simp add: abort_interest_def)
qed (simp add: abort_interest_def)

lemma settles_abort: "settles m (abort_all_for_branch m r why)" "settles m (drain_all_with m why)"
  unfolding abort_all_for_branch_def drain_all_with_def Let_def
  by (auto intro!: settles_foldl settles_trans [OF settles_foldl settles_foldl]
      simp: resolve_aborted_def settles_resolve settles_abort_interest)

definition tickets_ok :: "WaiterMap \<Rightarrow> WaiterTicket list \<Rightarrow> bool" where
  "tickets_ok m L \<longleftrightarrow> distinct (map tk_id L) \<and> (\<forall>tk \<in> set L. issued m tk \<and> hm_get (wm_chan m) (tk_id tk) \<noteq> None)"

lemma tickets_settle: "tickets_ok m L \<Longrightarrow> settles m m' \<Longrightarrow> tickets_ok m' L"
  unfolding tickets_ok_def settles_def issued_def by (metis domIff)

lemma tickets_arm:
  assumes ok: "wm_ok m" and tk: "tickets_ok m L"
  shows "tickets_ok (fst (arm m c r)) (snd (arm m c r) # L)"
proof -
  let ?m = "fst (arm m c r)"
  have next': "wm_next ?m = Suc (wm_next m)"
    by (simp add: arm_def Let_def drop_sender_def split: option.split)
  have ints: "hm_get (wm_interests ?m) d =
      (if d = c then Some \<lparr>in_ref_key = r, in_ticket = wm_next m\<rparr> else hm_get (wm_interests m) d)" for d
    by (simp add: arm_def Let_def drop_sender_def split: option.split)
  have chans: "hm_get (wm_chan ?m) t \<noteq> None \<longleftrightarrow> t = wm_next m \<or> hm_get (wm_chan m) t \<noteq> None" for t
    by (auto simp: arm_def Let_def drop_sender_def split: option.split)
  have new: "snd (arm m c r) = \<lparr>tk_request_cid = c, tk_id = wm_next m\<rparr>" by (simp add: arm_def Let_def)
  have old: "tk_id t < wm_next m" if "t \<in> set L" for t using tk that by (auto simp: tickets_ok_def issued_def)
  have fresh: "in_ticket i < wm_next m" if "hm_get (wm_interests m) d = Some i" for d i
    using wok_ticket_neq(3) [OF ok [unfolded wm_ok_def] that] .
  have "issued ?m t" if "t \<in> set L" for t
  proof -
    have "issued m t" using tk that by (simp add: tickets_ok_def)
    then show ?thesis using old [OF that] by (simp add: issued_def next' ints)
  qed
  moreover have "issued ?m (snd (arm m c r))" using fresh by (fastforce simp: issued_def next' ints new)
  moreover have "distinct (map tk_id (snd (arm m c r) # L))"
    using tk old by (fastforce simp: tickets_ok_def new)
  moreover have "hm_get (wm_chan ?m) (tk_id t) \<noteq> None" if "t \<in> set (snd (arm m c r) # L)" for t
    unfolding chans using that tk by (auto simp: tickets_ok_def new)
  ultimately show ?thesis by (simp add: tickets_ok_def)
qed

lemma tickets_drop:
  assumes tk: "tickets_ok m L" and "t \<in> set L"
  shows "tickets_ok (drop_ticket m t) (remove1 t L)"
proof -
  have d: "distinct (map tk_id L)" using tk by (simp add: tickets_ok_def)
  then have dL: "distinct L" by (simp add: distinct_map)
  have inj: "tk_id x \<noteq> tk_id t" if "x \<in> set L" "x \<noteq> t" for x
    using d that assms(2) by (auto simp: distinct_map inj_on_def)
  have "distinct (map tk_id (remove1 t L))" using d by (simp add: distinct_map inj_on_def)
  moreover have "issued (drop_ticket m t) x" if "issued m x" for x
    using that by (auto simp: issued_def drop_ticket_def Let_def split: option.splits if_splits)
  moreover have "hm_get (wm_chan (drop_ticket m t)) j = (if j = tk_id t then None else hm_get (wm_chan m) j)" for j
    by (simp add: drop_ticket_def Let_def split: option.split)
  ultimately show ?thesis using tk inj dL by (auto simp: tickets_ok_def)
qed

lemma reach_ok: "waiter_reach m L \<Longrightarrow> wm_ok m \<and> tickets_ok m L"
proof (induction rule: waiter_reach.induct)
  case start
  show ?case by (simp add: wm_ok_new tickets_ok_def)
next
  case (drops m L tk)
  then have "issued m tk" by (simp add: tickets_ok_def)
  with drops show ?case by (simp add: wm_ok_drop tickets_drop)
qed (auto simp: wm_ok_arm tickets_arm wm_ok_bind wm_ok_resolve wm_ok_branch wm_ok_drain
    intro: tickets_settle settles_bind settles_resolve settles_abort)

text \<open>The slot a ticket's proposer is registered in.\<close>

definition slot_of :: "WaiterMap \<Rightarrow> WaiterTicket \<Rightarrow> bool" where
  "slot_of m tk \<longleftrightarrow>
     (case ticket_queue_id m tk of
        Some q \<Rightarrow> (\<exists>w. hm_get (wm_waiters m) q = Some w \<and> wt_ticket w = tk_id tk)
      | None \<Rightarrow> (\<exists>i. hm_get (wm_interests m) (tk_request_cid tk) = Some i \<and> in_ticket i = tk_id tk))"

lemma wait_iff_slot:
  assumes ok: "wm_ok m" and iss: "issued m tk"
  shows "wait m tk = Inl TimedOut \<longleftrightarrow> slot_of m tk"
proof -
  note ok' = ok [unfolded wm_ok_def]
  have "wait m tk = Inl TimedOut \<longleftrightarrow> hm_get (wm_chan m) (tk_id tk) = Some ChanOpen"
    by (auto simp: wait_def split: option.splits Chan.splits)
  also have "\<dots> \<longleftrightarrow> slot_of m tk"
  proof
    assume "hm_get (wm_chan m) (tk_id tk) = Some ChanOpen"
    then consider c i where "hm_get (wm_interests m) c = Some i" "in_ticket i = tk_id tk"
      | q w where "hm_get (wm_waiters m) q = Some w" "wt_ticket w = tk_id tk"
      using wokD(5) [OF ok'] by blast
    then show "slot_of m tk"
    proof cases
      case (1 c i)
      then show ?thesis using wokD(2) [OF ok' 1(1)] iss by (auto simp: slot_of_def ticket_queue_id_def issued_def)
    next
      case (2 q w)
      then show ?thesis using wokD(4) [OF ok' 2(1)] by (auto simp: slot_of_def ticket_queue_id_def)
    qed
  next
    assume "slot_of m tk"
    then show "hm_get (wm_chan m) (tk_id tk) = Some ChanOpen"
      using wokD(1,3) [OF ok'] by (auto simp: slot_of_def split: option.splits) metis+
  qed
  finally show ?thesis .
qed

lemma drop_isolated:
  assumes ok: "wm_ok m" and ne: "tk_id tk' \<noteq> tk_id tk"
  shows "wait (drop_ticket m tk) tk' = wait m tk'" "slot_of (drop_ticket m tk) tk' = slot_of m tk'"
  using ne
  by (auto simp: wait_def slot_of_def ticket_queue_id_def drop_ticket_def Let_def split: option.splits if_splits)

section \<open>Waking a proposer\<close>

lemma wait_sent: "wait m tk = Inr out \<longleftrightarrow> hm_get (wm_chan m) (tk_id tk) = Some (ChanSent out)"
  by (auto simp: wait_def split: option.splits Chan.splits)

lemma resolve_wakes:
  assumes "wm_ok m" and "hm_get (wm_waiters m) q = Some w"
  shows "hm_get (wm_chan (resolve_with m q out)) (wt_ticket w) = Some (ChanSent out)"
  using wokD(3) [OF assms(1) [unfolded wm_ok_def] assms(2)] assms(2) by (simp add: resolve_with_def send_def)

lemma sent_kept:
  "hm_get (wm_chan m) t = Some (ChanSent out) \<Longrightarrow> hm_get (wm_chan (resolve_with m q out')) t = Some (ChanSent out)"
  "hm_get (wm_chan m) t = Some (ChanSent out) \<Longrightarrow> hm_get (wm_chan (abort_interest why m c)) t = Some (ChanSent out)"
  by (auto simp: resolve_with_def abort_interest_def send_def split: option.splits)

lemma waiter_kept: "q' \<noteq> q \<Longrightarrow> hm_get (wm_waiters (resolve_with m q' out)) q = hm_get (wm_waiters m) q"
  by (simp add: resolve_with_def send_def split: option.splits)

lemma resolve_interests [simp]: "wm_interests (resolve_with m q out) = wm_interests m"
  by (simp add: resolve_with_def send_def split: option.splits)

lemma sent_foldl:
  "hm_get (wm_chan m) t = Some (ChanSent out) \<Longrightarrow> hm_get (wm_chan (foldl (\<lambda>m q. resolve_aborted m q why) m qs)) t = Some (ChanSent out)"
  "hm_get (wm_chan m) t = Some (ChanSent out) \<Longrightarrow> hm_get (wm_chan (foldl (abort_interest why) m cs)) t = Some (ChanSent out)"
  by (induction qs arbitrary: m, simp_all add: resolve_aborted_def sent_kept)
    (induction cs arbitrary: m, simp_all add: sent_kept)

lemma foldl_wakes_waiter:
  "wm_ok m \<Longrightarrow> hm_get (wm_waiters m) q = Some w \<Longrightarrow> q \<in> set qs \<Longrightarrow>
   hm_get (wm_chan (foldl (\<lambda>m q. resolve_aborted m q why) m qs)) (wt_ticket w) = Some (ChanSent (OutcomeAborted why))"
proof (induction qs arbitrary: m)
  case (Cons q' qs)
  show ?case
  proof (cases "q' = q")
    case True
    then show ?thesis using sent_foldl(1) resolve_wakes [OF Cons.prems(1,2)] by (simp add: resolve_aborted_def)
  next
    case False
    then show ?thesis using Cons.IH [of "resolve_aborted m q' why"] Cons.prems waiter_kept [OF False]
      by (simp add: resolve_aborted_def wm_ok_resolve)
  qed
qed simp

lemma foldl_wakes_interest:
  "wm_ok m \<Longrightarrow> hm_get (wm_interests m) c = Some i \<Longrightarrow> c \<in> set cs \<Longrightarrow>
   hm_get (wm_chan (foldl (abort_interest why) m cs)) (in_ticket i) = Some (ChanSent (OutcomeAborted why))"
proof (induction cs arbitrary: m)
  case (Cons c' cs)
  note open' = wokD(1) [OF Cons.prems(1) [unfolded wm_ok_def] Cons.prems(2)]
  show ?case
  proof (cases "c' = c")
    case True
    have "hm_get (wm_chan (abort_interest why m c)) (in_ticket i) = Some (ChanSent (OutcomeAborted why))"
      using open' Cons.prems(2) by (simp add: abort_interest_def send_def)
    then show ?thesis using sent_foldl(2) True by simp
  next
    case False
    then have "hm_get (wm_interests (abort_interest why m c')) c = Some i"
      using Cons.prems(2) by (simp add: abort_interest_def send_def split: option.splits)
    then show ?thesis using Cons.IH [OF wm_ok_abort_interest [OF Cons.prems(1)]] Cons.prems(3) False by simp
  qed
qed simp

lemma foldl_interests: "wm_interests (foldl (\<lambda>m q. resolve_aborted m q why) m qs) = wm_interests m"
  by (induction qs arbitrary: m) (simp_all add: resolve_aborted_def)

lemma drain_wakes:
  assumes ok: "wm_ok m" and slot: "slot_of m tk"
  shows "wait (drain_all_with m why) tk = Inr (OutcomeAborted why)"
proof -
  let ?m = "foldl (\<lambda>m q. resolve_aborted m q why) m (map fst (wm_waiters m))"
  have ok': "wm_ok ?m" by (rule foldl_inv [where P = wm_ok]) (simp_all add: ok resolve_aborted_def wm_ok_resolve)
  consider q w where "hm_get (wm_waiters m) q = Some w" "wt_ticket w = tk_id tk"
    | i where "hm_get (wm_interests m) (tk_request_cid tk) = Some i" "in_ticket i = tk_id tk"
    using slot by (auto simp: slot_of_def split: option.splits)
  then have "hm_get (wm_chan (foldl (abort_interest why) ?m (map fst (wm_interests ?m)))) (tk_id tk) = Some (ChanSent (OutcomeAborted why))"
  proof cases
    case (1 q w)
    then have "hm_get (wm_chan ?m) (tk_id tk) = Some (ChanSent (OutcomeAborted why))"
      using foldl_wakes_waiter [OF ok 1(1), of "map fst (wm_waiters m)" why] map_of_SomeD [OF 1(1)] by force
    then show ?thesis by (rule sent_foldl(2))
  next
    case (2 i)
    have "hm_get (wm_interests ?m) (tk_request_cid tk) = Some i" using 2(1) by (simp add: foldl_interests)
    from foldl_wakes_interest [OF ok' this] 2 map_of_SomeD [OF 2(1)] show ?thesis by (force simp: foldl_interests)
  qed
  then show ?thesis by (simp add: wait_sent drain_all_with_def Let_def)
qed

lemma branch_wakes:
  assumes ok: "wm_ok m" and w: "hm_get (wm_waiters m) q = Some w" "wt_ticket w = tk_id tk"
  shows "wait (abort_all_for_branch m (wt_ref_key w) why) tk = Inr (OutcomeAborted why)"
proof -
  have "q \<in> set (map fst (filter (\<lambda>(_, w'). wt_ref_key w' = wt_ref_key w) (wm_waiters m)))"
    using map_of_SomeD [OF w(1)] by force
  from foldl_wakes_waiter [OF ok w(1) this] show ?thesis by (simp add: wait_sent abort_all_for_branch_def w(2))
qed

lemma bind_keeps_waiting:
  assumes ok: "wm_ok m" and i: "hm_get (wm_interests m) c = Some i" "in_ticket i = tk_id tk"
  shows "ticket_queue_id (bind m c q) tk = Some q" "wait (bind m c q) tk = Inl TimedOut"
proof -
  note ok' = ok [unfolded wm_ok_def]
  have b: "hm_get (wm_bound m) (tk_id tk) = None" "hm_get (wm_chan m) (tk_id tk) = Some ChanOpen"
    using wokD(1,2) [OF ok' i(1)] i(2) by simp_all
  show "ticket_queue_id (bind m c q) tk = Some q"
    using i b by (simp add: ticket_queue_id_def bind_def Let_def drop_sender_def split: option.splits)
  have "wt_ticket w \<noteq> tk_id tk" if "hm_get (wm_waiters m) q = Some w" for w
    using wok_ticket_neq(1) [OF ok' i(1) that] i(2) by simp
  then show "wait (bind m c q) tk = Inl TimedOut"
    using i b by (auto simp: wait_def bind_def Let_def drop_sender_def split: option.splits)
qed

section \<open>Properties\<close>

text \<open>
  C11: no proposer is stranded and none is cut off by another.  In any state of the waiter map the
  wait of a ticket would time out exactly when the ticket is registered in its slot, the queue id it
  was bound to or else its own request.  While it waits it can be reached: an unbound ticket stays
  registered when its request is bound to a queue id; the resolution of the queue id it is bound to,
  an abort of its branch, and the drain of the whole map each deliver their outcome to it.  Dropping
  any other ticket, displaced or not, changes neither its slot nor its outcome.
\<close>

theorem waiter_never_stranded:
  assumes "waiter_reach m L" and "tk \<in> set L"
  shows "(wait m tk = Inl TimedOut \<longleftrightarrow> slot_of m tk) \<and>
    (wait m tk = Inl TimedOut \<longrightarrow>
       (case ticket_queue_id m tk of
          None \<Rightarrow> (\<forall>q. ticket_queue_id (bind m (tk_request_cid tk) q) tk = Some q \<and>
                        wait (bind m (tk_request_cid tk) q) tk = Inl TimedOut)
        | Some q \<Rightarrow> (\<forall>out. wait (resolve_with m q out) tk = Inr out) \<and>
            (\<exists>w. hm_get (wm_waiters m) q = Some w \<and>
               (\<forall>why. wait (abort_all_for_branch m (wt_ref_key w) why) tk = Inr (OutcomeAborted why)))) \<and>
       (\<forall>why. wait (drain_all_with m why) tk = Inr (OutcomeAborted why))) \<and>
    (\<forall>tk' \<in> set L. tk' \<noteq> tk \<longrightarrow>
       wait (drop_ticket m tk') tk = wait m tk \<and> slot_of (drop_ticket m tk') tk = slot_of m tk)"
proof -
  have ok: "wm_ok m" and L: "tickets_ok m L" using reach_ok [OF assms(1)] by simp_all
  have "issued m tk" using L assms(2) by (simp add: tickets_ok_def)
  note slot = wait_iff_slot [OF ok this]
  have "case ticket_queue_id m tk of
      None \<Rightarrow> (\<forall>q. ticket_queue_id (bind m (tk_request_cid tk) q) tk = Some q \<and> wait (bind m (tk_request_cid tk) q) tk = Inl TimedOut)
    | Some q \<Rightarrow> (\<forall>out. wait (resolve_with m q out) tk = Inr out) \<and>
        (\<exists>w. hm_get (wm_waiters m) q = Some w \<and>
           (\<forall>why. wait (abort_all_for_branch m (wt_ref_key w) why) tk = Inr (OutcomeAborted why)))"
    if here: "slot_of m tk"
  proof (cases "ticket_queue_id m tk")
    case None
    then obtain i where "hm_get (wm_interests m) (tk_request_cid tk) = Some i" "in_ticket i = tk_id tk"
      using here by (auto simp: slot_of_def)
    then show ?thesis using None bind_keeps_waiting [OF ok] by simp
  next
    case (Some q)
    then obtain w where w: "hm_get (wm_waiters m) q = Some w" "wt_ticket w = tk_id tk"
      using here by (auto simp: slot_of_def)
    then show ?thesis using Some branch_wakes [OF ok w] resolve_wakes [OF ok w(1)] by (simp add: wait_sent)
  qed
  moreover have "tk_id tk \<noteq> tk_id tk'" if "tk' \<in> set L" "tk' \<noteq> tk" for tk'
    using L assms(2) that by (auto simp: tickets_ok_def distinct_map inj_on_def)
  ultimately show ?thesis using slot drain_wakes [OF ok] drop_isolated [OF ok] by simp
qed

text \<open>Two submissions of one request: the second takes the slot, and the first ticket is dropped.\<close>

definition wt_cid :: ContentId where
  "wt_cid = ContentId [1]"

definition wt_two :: "WaiterMap \<times> WaiterTicket" where
  "wt_two = arm (fst (arm new_waiters wt_cid (ref_key ''db'' ''main''))) wt_cid (ref_key ''db'' ''main'')"

definition wt_first :: WaiterTicket where
  "wt_first = snd (arm new_waiters wt_cid (ref_key ''db'' ''main''))"

theorem waiter_never_stranded_witness:
  "wait (drop_ticket (fst wt_two) wt_first) (snd wt_two) = wait (fst wt_two) (snd wt_two) \<and>
   wait (resolve_with (bind (fst wt_two) wt_cid 4) 4 (OutcomeAborted AbortBranchDropped)) (snd wt_two) = Inr (OutcomeAborted AbortBranchDropped)"
proof -
  have reach: "waiter_reach (fst wt_two) [snd wt_two, wt_first]"
    unfolding wt_two_def wt_first_def by (intro waiter_reach.intros)
  have two: "wt_first \<noteq> snd wt_two" "tk_request_cid (snd wt_two) = wt_cid" "ticket_queue_id (fst wt_two) (snd wt_two) = None"
      "wait (fst wt_two) (snd wt_two) = Inl TimedOut"
    by (simp_all add: wt_two_def wt_first_def arm_def Let_def new_waiters_def ticket_queue_id_def wait_def drop_sender_def)
  have here: "snd wt_two \<in> set [snd wt_two, wt_first]" by simp
  have bound: "ticket_queue_id (bind (fst wt_two) wt_cid 4) (snd wt_two) = Some 4"
      "wait (bind (fst wt_two) wt_cid 4) (snd wt_two) = Inl TimedOut"
      "wait (drop_ticket (fst wt_two) wt_first) (snd wt_two) = wait (fst wt_two) (snd wt_two)"
    using waiter_never_stranded [OF reach here] two by simp_all
  then show ?thesis using waiter_never_stranded [OF waiter_reach.binds [OF reach] here, of wt_cid 4] by simp
qed

end
