(* ===== verification/Raft_Storage.thy ===== *)
theory Raft_Storage
  imports Prelude
begin

text \<open>
  The storage types of \<^verbatim>\<open>fluree-raft-core/src/storage.rs\<close>, its in-memory backend
  (\<^verbatim>\<open>storage/memory.rs\<close>) and the conversions of \<^verbatim>\<open>log_adapter.rs\<close> between them and the
  types of the Raft engine.

  The in-memory log store is also the reference the filesystem log is compared with:
  \<open>raft_log_store\<close> states what a log store promises.  The bytes of a snapshot are opaque to
  the stores, so their type is a parameter.
\<close>

section \<open>Types\<close>

record LogId =
  l_term :: u64
  l_index :: u64

record Vote =
  v_term :: u64
  v_candidate :: NodeId
  v_committed :: bool

record LogEntry =
  le_log_id :: LogId
  le_payload :: "u8 list"

record LogState =
  ls_last_purged :: "LogId option"
  ls_last_log :: "LogId option"

type_synonym SnapshotId = string

record 'b SnapshotMeta =
  sm_id :: SnapshotId
  sm_last_applied :: "LogId option"
  sm_membership :: 'b

datatype StorageError = Io string | Serialization string | Corruption string | Other string

section \<open>The in-memory log store\<close>

record LogStoreState =
  lg_entries :: "(u64, LogEntry) bmap"
  lg_vote :: "Vote option"
  lg_committed :: "LogId option"
  lg_last_purged :: "LogId option"

definition mem_new :: LogStoreState where
  "mem_new = \<lparr>lg_entries = [], lg_vote = None, lg_committed = None, lg_last_purged = None\<rparr>"

definition mem_append :: "LogStoreState \<Rightarrow> LogEntry list \<Rightarrow> LogStoreState" where
  "mem_append s es = s\<lparr>lg_entries := foldl (\<lambda>m e. bm_insert (l_index (le_log_id e)) e m) (lg_entries s) es\<rparr>"

definition mem_read_range :: "LogStoreState \<Rightarrow> u64 \<Rightarrow> u64 \<Rightarrow> LogEntry list" where
  "mem_read_range s lo hi = map snd (filter (\<lambda>(i, e). lo \<le> i \<and> i < hi) (lg_entries s))"

definition mem_truncate_from :: "LogStoreState \<Rightarrow> u64 \<Rightarrow> LogStoreState" where
  "mem_truncate_from s from = s\<lparr>lg_entries := filter (\<lambda>(i, e). i < from) (lg_entries s)\<rparr>"

definition mem_purge_through :: "LogStoreState \<Rightarrow> LogId \<Rightarrow> LogStoreState" where
  "mem_purge_through s lid =
     (let s = s\<lparr>lg_entries := filter (\<lambda>(i, e). i > l_index lid) (lg_entries s)\<rparr>
      in case lg_last_purged s of
           Some old \<Rightarrow> if l_index old \<ge> l_index lid then s else s\<lparr>lg_last_purged := Some lid\<rparr>
         | None \<Rightarrow> s\<lparr>lg_last_purged := Some lid\<rparr>)"

text \<open>\<open>values().next_back()\<close>: the entry with the highest index.\<close>

definition bm_last :: "('k, 'v) bmap \<Rightarrow> 'v option" where
  "bm_last m = (if m = [] then None else Some (snd (last m)))"

definition mem_log_state :: "LogStoreState \<Rightarrow> LogState" where
  "mem_log_state s =
     \<lparr>ls_last_purged = lg_last_purged s, ls_last_log = map_option le_log_id (bm_last (lg_entries s))\<rparr>"

definition mem_save_vote :: "LogStoreState \<Rightarrow> Vote \<Rightarrow> LogStoreState" where
  "mem_save_vote s v = s\<lparr>lg_vote := Some v\<rparr>"

definition mem_read_vote :: "LogStoreState \<Rightarrow> Vote option" where
  "mem_read_vote s = lg_vote s"

definition mem_save_committed :: "LogStoreState \<Rightarrow> LogId option \<Rightarrow> LogStoreState" where
  "mem_save_committed s c = s\<lparr>lg_committed := c\<rparr>"

definition mem_read_committed :: "LogStoreState \<Rightarrow> LogId option" where
  "mem_read_committed s = lg_committed s"

section \<open>The in-memory snapshot store\<close>

record 'b SnapshotStoreState =
  st_snapshots :: "(SnapshotId, 'b SnapshotMeta \<times> 'b) hmap"
  st_current :: "SnapshotId option"

definition snap_new :: "'b SnapshotStoreState" where
  "snap_new = \<lparr>st_snapshots = [], st_current = None\<rparr>"

definition snap_write :: "'b SnapshotStoreState \<Rightarrow> 'b SnapshotMeta \<Rightarrow> 'b \<Rightarrow> StorageError + 'b SnapshotStoreState" where
  "snap_write s m d = Inr (s\<lparr>st_snapshots := hm_insert (sm_id m) (m, d) (st_snapshots s), st_current := Some (sm_id m)\<rparr>)"

definition snap_read :: "'b SnapshotStoreState \<Rightarrow> SnapshotId \<Rightarrow> 'b option" where
  "snap_read s i = map_option snd (hm_get (st_snapshots s) i)"

definition snap_current :: "'b SnapshotStoreState \<Rightarrow> StorageError + ('b SnapshotMeta \<times> 'b) option" where
  "snap_current s = Inr (Option.bind (st_current s) (\<lambda>i. hm_get (st_snapshots s) i))"

section \<open>The engine's types and the log adapter\<close>

text \<open>
  Of the engine's log id the code reads the term of the leader id and the index; a committed
  leader id is determined by its term.  A vote of the engine may have no candidate.
\<close>

record OpenraftLogId =
  o_leader_term :: u64
  o_index :: u64

record OpenraftVote =
  o_term :: u64
  o_voted_for :: "NodeId option"
  o_committed :: bool

record OpenraftLogState =
  o_last_purged_log_id :: "OpenraftLogId option"
  o_last_log_id :: "OpenraftLogId option"

definition to_openraft_log_id :: "LogId \<Rightarrow> OpenraftLogId" where
  "to_openraft_log_id i = \<lparr>o_leader_term = l_term i, o_index = l_index i\<rparr>"

definition from_openraft_log_id :: "OpenraftLogId \<Rightarrow> LogId" where
  "from_openraft_log_id i = \<lparr>l_term = o_leader_term i, l_index = o_index i\<rparr>"

definition to_openraft_vote :: "Vote \<Rightarrow> OpenraftVote" where
  "to_openraft_vote v = \<lparr>o_term = v_term v, o_voted_for = Some (v_candidate v), o_committed = v_committed v\<rparr>"

definition from_openraft_vote :: "OpenraftVote \<Rightarrow> Vote option" where
  "from_openraft_vote v =
     map_option (\<lambda>c. \<lparr>v_term = o_term v, v_candidate = c, v_committed = o_committed v\<rparr>) (o_voted_for v)"

definition to_openraft_log_state :: "LogState \<Rightarrow> OpenraftLogState" where
  "to_openraft_log_state s =
     (let purged = map_option to_openraft_log_id (ls_last_purged s);
          last = (case map_option to_openraft_log_id (ls_last_log s) of Some i \<Rightarrow> Some i | None \<Rightarrow> purged)
      in \<lparr>o_last_purged_log_id = purged, o_last_log_id = last\<rparr>)"

datatype Bound = Included u64 | Excluded u64 | Unbounded

text \<open>The half-open range \<open>[start, end)\<close> of a pair of bounds.\<close>

definition resolve_range :: "Bound \<Rightarrow> Bound \<Rightarrow> u64 \<times> u64" where
  "resolve_range lo hi =
     ((case lo of Included n \<Rightarrow> n | Excluded n \<Rightarrow> saturating_add n 1 | Unbounded \<Rightarrow> 0),
      (case hi of Included n \<Rightarrow> saturating_add n 1 | Excluded n \<Rightarrow> n | Unbounded \<Rightarrow> - 1))"

lemma openraft_log_id_round_trip [simp]:
  "from_openraft_log_id (to_openraft_log_id i) = i" "to_openraft_log_id (from_openraft_log_id j) = j"
  by (simp_all add: to_openraft_log_id_def from_openraft_log_id_def)

lemma openraft_log_id_map [simp]:
  "map_option to_openraft_log_id (map_option from_openraft_log_id x) = x"
  "map_option from_openraft_log_id (map_option to_openraft_log_id y) = y"
  by (simp_all add: option.map_comp comp_def option.map_ident)

lemma openraft_vote_round_trip: "from_openraft_vote (to_openraft_vote v) = Some v"
  by (simp add: from_openraft_vote_def to_openraft_vote_def)

end
