(* ===== verification/Fs_Frames.thy ===== *)
theory Fs_Frames
  imports Raft_Storage
begin

text \<open>
  The byte formats of \<^verbatim>\<open>fluree-raft-core/src/storage/fs.rs\<close>: little-endian integers, the frame
  of a log entry, the two-slot committed marker and the segment header.

  The hash of the frames comes from a third-party crate and is the parameter \<open>h\<close>; nothing here
  depends on what it computes.
\<close>

section \<open>Little-endian integers\<close>

fun le_digits :: "nat \<Rightarrow> nat \<Rightarrow> u8 list" where
  "le_digits 0 x = []"
| "le_digits (Suc n) x = word_of_nat (x mod 256) # le_digits n (x div 256)"

fun le_nat :: "u8 list \<Rightarrow> nat" where
  "le_nat [] = 0"
| "le_nat (b # bs) = unat b + 256 * le_nat bs"

definition u32_to_le :: "u32 \<Rightarrow> u8 list" where
  "u32_to_le w = le_digits 4 (unat w)"

definition u64_to_le :: "u64 \<Rightarrow> u8 list" where
  "u64_to_le w = le_digits 8 (unat w)"

definition u32_from_le :: "u8 list \<Rightarrow> u32" where
  "u32_from_le bs = word_of_nat (le_nat bs)"

definition u64_from_le :: "u8 list \<Rightarrow> u64" where
  "u64_from_le bs = word_of_nat (le_nat bs)"

lemma length_le_digits [simp]: "length (le_digits n x) = n"
  by (induction n x rule: le_digits.induct) simp_all

lemma length_to_le [simp]: "length (u32_to_le v) = 4" "length (u64_to_le w) = 8"
  by (simp_all add: u32_to_le_def u64_to_le_def)

lemma unat_byte: "unat (word_of_nat (x mod 256) :: u8) = x mod 256"
  by (simp add: unat_of_nat)

lemma le_nat_digits: "le_nat (le_digits n x) = x mod 256 ^ n"
proof (induction n x rule: le_digits.induct)
  case (2 n x)
  have "x mod (256 * 256 ^ n) = x mod 256 + 256 * (x div 256 mod 256 ^ n)"
    by (simp add: mod_mult2_eq)
  then show ?case using 2 by (simp add: unat_byte del: of_nat_mod)
qed simp

lemma from_to_le [simp]: "u32_from_le (u32_to_le v) = v" "u64_from_le (u64_to_le w) = w"
proof -
  have "unat v < 256 ^ 4" "unat w < 256 ^ 8" using unsigned_less [of v] unsigned_less [of w] by simp_all
  then show "u32_from_le (u32_to_le v) = v" "u64_from_le (u64_to_le w) = w"
    by (simp_all add: u32_from_le_def u32_to_le_def u64_from_le_def u64_to_le_def le_nat_digits del: power_numeral)
qed

section \<open>Ranges of a byte string\<close>

text \<open>\<open>&bytes[a..b]\<close>, and \<open>bytes.get(a..b)\<close>, which is \<open>None\<close> out of range.\<close>

definition slice :: "'a list \<Rightarrow> nat \<Rightarrow> nat \<Rightarrow> 'a list" where
  "slice bs a b = take (b - a) (drop a bs)"

definition get_range :: "'a list \<Rightarrow> nat \<Rightarrow> nat \<Rightarrow> 'a list option" where
  "get_range bs a b = (if a \<le> b \<and> b \<le> length bs then Some (slice bs a b) else None)"

lemma slice_append [simp]:
  "length xs \<le> a \<Longrightarrow> slice (xs @ ys) a b = slice ys (a - length xs) (b - length xs)"
  "b \<le> length xs \<Longrightarrow> slice (xs @ ys) a b = slice xs a b"
  "slice xs 0 b = take b xs"
  by (simp_all add: slice_def)

lemma get_range_short: "length bs < b \<Longrightarrow> get_range bs a b = None"
  by (simp add: get_range_def)

section \<open>Frames\<close>

definition FRAME_MAGIC :: "u8 list" where
  "FRAME_MAGIC = [0x46, 0x52, 0x4C, 0x45]"

definition FRAME_HEADER :: nat where
  "FRAME_HEADER = 4 + 4 + 8 + 8"

definition FRAME_HASH :: nat where
  "FRAME_HASH = 8"

definition frame_body :: "LogEntry \<Rightarrow> u8 list" where
  "frame_body e =
     FRAME_MAGIC @ u32_to_le (word_of_nat (length (le_payload e))) @
     u64_to_le (l_index (le_log_id e)) @ u64_to_le (l_term (le_log_id e)) @ le_payload e"

definition encode_frame :: "(u8 list \<Rightarrow> u64) \<Rightarrow> LogEntry \<Rightarrow> u8 list" where
  "encode_frame h e = frame_body e @ u64_to_le (h (frame_body e))"

definition decode_frame :: "(u8 list \<Rightarrow> u64) \<Rightarrow> u8 list \<Rightarrow> nat \<Rightarrow> (LogId \<times> u8 list \<times> nat) option" where
  "decode_frame h bytes at0 =
     (case get_range bytes at0 (at0 + FRAME_HEADER) of
        None \<Rightarrow> None
      | Some header \<Rightarrow>
          if take 4 header \<noteq> FRAME_MAGIC then None
          else let len = unat (u32_from_le (slice header 4 8));
                   index = u64_from_le (slice header 8 16);
                   term0 = u64_from_le (slice header 16 24);
                   end0 = at0 + FRAME_HEADER + len
               in case get_range bytes end0 (end0 + FRAME_HASH) of
                    None \<Rightarrow> None
                  | Some stored \<Rightarrow>
                      if u64_to_le (h (slice bytes at0 end0)) \<noteq> stored then None
                      else Some (\<lparr>l_term = term0, l_index = index\<rparr>, slice bytes (at0 + FRAME_HEADER) end0,
                                 FRAME_HEADER + len + FRAME_HASH))"

text \<open>A payload whose frame length fits the 32-bit fields.\<close>

definition fits :: "LogEntry \<Rightarrow> bool" where
  "fits e \<longleftrightarrow> length (le_payload e) + FRAME_HEADER + FRAME_HASH < 2 ^ 32"

lemma length_frame: "length (encode_frame h e) = FRAME_HEADER + length (le_payload e) + FRAME_HASH"
  by (simp add: encode_frame_def frame_body_def FRAME_MAGIC_def FRAME_HEADER_def FRAME_HASH_def)

lemma frame_len_pos: "0 < length (encode_frame h e)"
  by (simp add: length_frame FRAME_HASH_def)

text \<open>A frame is found at the end of what comes before it, whatever follows it.\<close>

lemma length_body [simp]: "length (frame_body e) = FRAME_HEADER + length (le_payload e)"
  by (simp add: frame_body_def FRAME_MAGIC_def FRAME_HEADER_def)

lemma body_fields:
  "take 4 (frame_body e) = FRAME_MAGIC" "slice (frame_body e) 4 8 = u32_to_le (word_of_nat (length (le_payload e)))"
  "slice (frame_body e) 8 16 = u64_to_le (l_index (le_log_id e))"
  "slice (frame_body e) 16 24 = u64_to_le (l_term (le_log_id e))"
  "drop FRAME_HEADER (frame_body e) = le_payload e"
  by (simp_all add: frame_body_def slice_def FRAME_MAGIC_def FRAME_HEADER_def)

lemma header_fields:
  assumes "k \<le> FRAME_HEADER" shows "take k (take FRAME_HEADER (frame_body e)) = take k (frame_body e)"
    "slice (take FRAME_HEADER (frame_body e)) j k = slice (frame_body e) j k"
  using assms by (simp_all add: slice_def drop_take min_absorb1)

lemma decode_encode_frame:
  assumes "fits e"
  shows "decode_frame h (pre @ encode_frame h e @ post) (length pre) =
         Some (le_log_id e, le_payload e, length (encode_frame h e))"
proof -
  let ?n = "length (le_payload e)" and ?bs = "pre @ encode_frame h e @ post" and ?a = "length pre"
  have n: "unat (word_of_nat ?n :: u32) = ?n" using assms by (simp add: fits_def unat_of_nat)
  have hd: "get_range ?bs ?a (?a + FRAME_HEADER) = Some (take FRAME_HEADER (frame_body e))"
    by (simp add: get_range_def slice_def length_frame) (simp add: encode_frame_def)
  have hash: "get_range ?bs (?a + FRAME_HEADER + ?n) (?a + FRAME_HEADER + ?n + FRAME_HASH) = Some (u64_to_le (h (frame_body e)))"
    by (simp add: get_range_def slice_def length_frame) (simp add: encode_frame_def FRAME_HASH_def)
  have body: "slice ?bs ?a (?a + FRAME_HEADER + ?n) = frame_body e"
    by (simp add: slice_def encode_frame_def)
  have pay: "slice ?bs (?a + FRAME_HEADER) (?a + FRAME_HEADER + ?n) = le_payload e"
    by (simp add: slice_def encode_frame_def body_fields)
  have k: "4 \<le> FRAME_HEADER" "8 \<le> FRAME_HEADER" "16 \<le> FRAME_HEADER" "24 \<le> FRAME_HEADER"
    by (simp_all add: FRAME_HEADER_def)
  show ?thesis
    unfolding decode_frame_def hd Let_def option.case header_fields [OF k(1)] header_fields(2) [OF k(2)]
      header_fields(2) [OF k(3)] header_fields(2) [OF k(4)] body_fields from_to_le n hash body pay
    by (simp add: length_frame)
qed

text \<open>A frame that was cut short is not a frame.\<close>

lemma decode_torn_frame:
  assumes "fits e" and "k < length (encode_frame h e)"
  shows "decode_frame h (pre @ take k (encode_frame h e)) (length pre) = None"
proof (cases "k < FRAME_HEADER")
  case True
  then show ?thesis by (simp add: decode_frame_def get_range_short)
next
  case False
  let ?n = "length (le_payload e)" and ?bs = "pre @ take k (encode_frame h e)" and ?a = "length pre"
  have n: "unat (word_of_nat ?n :: u32) = ?n" using assms(1) by (simp add: fits_def unat_of_nat)
  have "take FRAME_HEADER (take k (encode_frame h e)) = take FRAME_HEADER (frame_body e)"
    using False by (simp add: encode_frame_def min_absorb1)
  then have hd: "get_range ?bs ?a (?a + FRAME_HEADER) = Some (take FRAME_HEADER (frame_body e))"
    using False assms(2) by (simp add: get_range_def slice_def)
  have "get_range ?bs (?a + FRAME_HEADER + ?n) (?a + FRAME_HEADER + ?n + FRAME_HASH) = None"
    using assms(2) by (simp add: get_range_short length_frame)
  moreover have k: "8 \<le> FRAME_HEADER" by (simp add: FRAME_HEADER_def)
  ultimately show ?thesis
    unfolding decode_frame_def hd Let_def option.case header_fields(2) [OF k] body_fields from_to_le n by simp
qed

lemma decode_frame_bounds:
  assumes "decode_frame h bytes a = Some (i, p, n)"
  shows "0 < n" "a + n \<le> length bytes"
  using assms
  by (auto simp: decode_frame_def get_range_def Let_def FRAME_HEADER_def FRAME_HASH_def split: if_splits)

lemma decode_frame_measure:
  "decode_frame h bytes a = Some (i, p, n) \<Longrightarrow> length bytes - (a + n) < length bytes - a"
  using decode_frame_bounds [of h bytes a i p n] by linarith

lemma decode_frame_end [simp]: "decode_frame h bytes (length bytes) = None"
  by (simp add: decode_frame_def get_range_short FRAME_HEADER_def)

end
