(* ===== verification/Fs_Log.thy ===== *)
theory Fs_Log
  imports Fs_Frames
begin

text \<open>
  The filesystem log store of \<^verbatim>\<open>fluree-raft-core/src/storage/fs.rs\<close>: append-only segments with
  one flush per batch, a purge marker, a two-slot committed watermark, and the recovery that reads
  them back.

  An operation returns the new in-memory state together with the steps it performed on the device,
  in order; every step is durable before the next one starts.  Running all steps is the operation
  succeeding; stopping after some of them, or in the middle of one, is a crash.  An I/O error stops
  the node and is a crash in this model; the texts of corruption errors are shortened.  The formats
  of the third-party serializer and the frame hash are the functions of an \<open>Extern\<close>.
\<close>

section \<open>The device\<close>

type_synonym bytes = "u8 list"

record Extern =
  x_hash :: "bytes \<Rightarrow> u64"
  x_to_id :: "LogId \<Rightarrow> string + bytes"
  x_from_id :: "bytes \<Rightarrow> string + LogId"
  x_from_entry :: "bytes \<Rightarrow> string + LogEntry"
  x_to_vote :: "Vote \<Rightarrow> string + bytes"
  x_from_vote :: "bytes \<Rightarrow> string + Vote"

text \<open>
  The files of a store.  A file of the log directory is named by the index in its name, so the
  listing of \<open>dv_segs\<close> is in name order; \<open>dv_tmps\<close> are the \<open>.seg.tmp\<close> files and \<open>dv_entries\<close>
  the \<open>.entry\<close> files of earlier releases.
\<close>

record Device =
  dv_segs :: "(u64, bytes) bmap"
  dv_tmps :: "(u64, bytes) bmap"
  dv_entries :: "(u64, bytes) bmap"
  dv_last_purged :: "bytes option"
  dv_slots :: "bytes option"
  dv_committed :: "bytes option"
  dv_vote :: "bytes option"

definition empty_device :: Device where
  "empty_device =
     \<lparr>dv_segs = [], dv_tmps = [], dv_entries = [], dv_last_purged = None, dv_slots = None,
      dv_committed = None, dv_vote = None\<rparr>"

datatype DeviceStep =
    WriteTmp u64 bytes
  | PublishTmp u64
  | WriteSeg u64 nat bytes
  | SetLenSeg u64 nat
  | UnlinkSeg u64
  | RemoveTmp u64
  | RemoveEntries "u64 list"
  | PutLastPurged bytes
  | SizeSlots nat
  | WriteSlots nat bytes
  | PutSlots bytes
  | RemoveCommitted
  | PutVote bytes

text \<open>\<open>seek\<close> and \<open>write_all\<close>; writing past the end fills the gap with zeros.\<close>

definition write_at :: "nat \<Rightarrow> bytes \<Rightarrow> bytes \<Rightarrow> bytes" where
  "write_at off bs f = take off (f @ replicate (off - length f) 0) @ bs @ drop (off + length bs) f"

definition set_len :: "nat \<Rightarrow> bytes \<Rightarrow> bytes" where
  "set_len n f = take n (f @ replicate (n - length f) 0)"

definition bm_update :: "'k::linorder \<Rightarrow> ('v \<Rightarrow> 'v) \<Rightarrow> ('k, 'v) bmap \<Rightarrow> ('k, 'v) bmap" where
  "bm_update k f m = map (\<lambda>(j, v). (j, if j = k then f v else v)) m"

fun exec_step :: "DeviceStep \<Rightarrow> Device \<Rightarrow> Device" where
  "exec_step (WriteTmp i bs) d = d\<lparr>dv_tmps := bm_insert i bs (dv_tmps d)\<rparr>"
| "exec_step (PublishTmp i) d =
     (case map_of (dv_tmps d) i of
        Some bs \<Rightarrow> d\<lparr>dv_segs := bm_insert i bs (dv_segs d), dv_tmps := bm_remove i (dv_tmps d)\<rparr>
      | None \<Rightarrow> d)"
| "exec_step (WriteSeg i off bs) d = d\<lparr>dv_segs := bm_update i (write_at off bs) (dv_segs d)\<rparr>"
| "exec_step (SetLenSeg i n) d = d\<lparr>dv_segs := bm_update i (set_len n) (dv_segs d)\<rparr>"
| "exec_step (UnlinkSeg i) d = d\<lparr>dv_segs := bm_remove i (dv_segs d)\<rparr>"
| "exec_step (RemoveTmp i) d = d\<lparr>dv_tmps := bm_remove i (dv_tmps d)\<rparr>"
| "exec_step (RemoveEntries is) d = d\<lparr>dv_entries := filter (\<lambda>(i, _). i \<notin> set is) (dv_entries d)\<rparr>"
| "exec_step (PutLastPurged bs) d = d\<lparr>dv_last_purged := Some bs\<rparr>"
| "exec_step (SizeSlots n) d = d\<lparr>dv_slots := Some (replicate n 0)\<rparr>"
| "exec_step (WriteSlots off bs) d = d\<lparr>dv_slots := map_option (write_at off bs) (dv_slots d)\<rparr>"
| "exec_step (PutSlots bs) d = d\<lparr>dv_slots := Some bs\<rparr>"
| "exec_step RemoveCommitted d = d\<lparr>dv_committed := None\<rparr>"
| "exec_step (PutVote bs) d = d\<lparr>dv_vote := Some bs\<rparr>"

definition exec_steps :: "DeviceStep list \<Rightarrow> Device \<Rightarrow> Device" where
  "exec_steps ss d = foldl (\<lambda>d s. exec_step s d) d ss"

text \<open>
  What a crash in the middle of a step can leave.  A write is torn after any number of bytes, a
  batch of unlinks after any of them; a rename, an unlink and a truncation happen or do not.  A
  committed slot may be left with any bytes in the part being written.
\<close>

inductive torn :: "DeviceStep \<Rightarrow> Device \<Rightarrow> Device \<Rightarrow> bool" where
  torn_tmp: "torn (WriteTmp i bs) d (d\<lparr>dv_tmps := bm_insert i (take k bs) (dv_tmps d)\<rparr>)"
| torn_seg: "torn (WriteSeg i off bs) d (d\<lparr>dv_segs := bm_update i (write_at off (take k bs)) (dv_segs d)\<rparr>)"
| torn_entries: "set js \<subseteq> set is \<Longrightarrow>
    torn (RemoveEntries is) d (d\<lparr>dv_entries := filter (\<lambda>(i, _). i \<notin> set js) (dv_entries d)\<rparr>)"
| torn_size: "torn (SizeSlots n) d (d\<lparr>dv_slots := Some []\<rparr>)"
| torn_slots: "length junk = length bs \<Longrightarrow>
    torn (WriteSlots off bs) d (d\<lparr>dv_slots := map_option (write_at off junk) (dv_slots d)\<rparr>)"

inductive crashed :: "DeviceStep list \<Rightarrow> Device \<Rightarrow> Device \<Rightarrow> bool" where
  crash_before: "crashed ss d d"
| crash_in: "torn s d d' \<Longrightarrow> crashed (s # ss) d d'"
| crash_after: "crashed ss (exec_step s d) d' \<Longrightarrow> crashed (s # ss) d d'"

section \<open>In-memory state\<close>

definition SEGMENT_MAGIC :: bytes where
  "SEGMENT_MAGIC = [0x46, 0x52, 0x53, 0x47, 0x30, 0x30, 0x30, 0x31]"

definition SEGMENT_HEADER :: nat where
  "SEGMENT_HEADER = 16"

definition DEFAULT_SEGMENT_BYTES :: nat where
  "DEFAULT_SEGMENT_BYTES = 4 * 1024 * 1024"

record Segment =
  sg_first_index :: u64
  sg_last_index :: "u64 option"
  sg_len :: nat

record Loc =
  lo_segment :: u64
  lo_offset :: nat
  lo_len :: u32
  lo_term :: u64

text \<open>\<open>active\<close> is the segment the cached write handle is open on.\<close>

record Inner =
  in_segment_bytes :: nat
  in_segments :: "Segment list"
  in_index :: "(u64, Loc) bmap"
  in_active :: "u64 option"
  in_last_purged :: "LogId option"
  in_committed :: "LogId option"
  in_committed_generation :: u64
  in_committed_file :: bool

definition cutoff :: "Inner \<Rightarrow> u64 option" where
  "cutoff s = map_option l_index (in_last_purged s)"

definition live :: "u64 option \<Rightarrow> u64 \<Rightarrow> bool" where
  "live co i = (case co of None \<Rightarrow> True | Some c \<Rightarrow> i > c)"

definition segment_header :: "u64 \<Rightarrow> bytes" where
  "segment_header first = SEGMENT_MAGIC @ u64_to_le first"

section \<open>Appending\<close>

definition start_segment :: "Inner \<Rightarrow> u64 \<Rightarrow> Inner \<times> DeviceStep list" where
  "start_segment s first =
     (s\<lparr>in_segments := in_segments s @ [\<lparr>sg_first_index = first, sg_last_index = None, sg_len = SEGMENT_HEADER\<rparr>],
        in_active := Some first\<rparr>,
      [WriteTmp first (segment_header first), PublishTmp first])"

text \<open>The handle on the last segment, opened when none is cached.\<close>

definition active_file :: "Inner \<Rightarrow> Inner \<times> u64" where
  "active_file s =
     (case in_active s of
        Some i \<Rightarrow> (s, i)
      | None \<Rightarrow> let i = sg_first_index (last (in_segments s)) in (s\<lparr>in_active := Some i\<rparr>, i))"

fun place_frames :: "(bytes \<Rightarrow> u64) \<Rightarrow> u64 \<Rightarrow> nat \<Rightarrow> LogEntry list \<Rightarrow> bytes \<times> (u64 \<times> Loc) list" where
  "place_frames h seg off [] = ([], [])"
| "place_frames h seg off (e # es) =
     (let frame = encode_frame h e;
          (buf, locs) = place_frames h seg (off + length frame) es in
      (frame @ buf,
       (l_index (le_log_id e),
        \<lparr>lo_segment = seg, lo_offset = off, lo_len = word_of_nat (length frame), lo_term = l_term (le_log_id e)\<rparr>) # locs))"

definition drop_leftover :: "Inner \<Rightarrow> u64 \<Rightarrow> Inner \<times> DeviceStep list" where
  "drop_leftover s first =
     (if in_segments s \<noteq> [] \<and> sg_last_index (last (in_segments s)) = None \<and> sg_first_index (last (in_segments s)) \<noteq> first
      then (s\<lparr>in_segments := butlast (in_segments s), in_active := None\<rparr>,
            [UnlinkSeg (sg_first_index (last (in_segments s)))])
      else (s, []))"

definition needs_segment :: "Inner \<Rightarrow> bool" where
  "needs_segment s = (in_segments s = [] \<or> sg_len (last (in_segments s)) \<ge> in_segment_bytes s)"

definition write_entries :: "(bytes \<Rightarrow> u64) \<Rightarrow> Inner \<Rightarrow> LogEntry list \<Rightarrow> Inner \<times> DeviceStep list" where
  "write_entries h s es =
     (let seg = last (in_segments s);
          (buf, locs) = place_frames h (sg_first_index seg) (sg_len seg) es;
          (s, file) = active_file s in
      (s\<lparr>in_segments := butlast (in_segments s) @
           [seg\<lparr>sg_len := sg_len seg + length buf, sg_last_index := Some (l_index (le_log_id (last es)))\<rparr>],
         in_index := foldl (\<lambda>m (i, l). bm_insert i l m) (in_index s) locs\<rparr>,
       [WriteSeg file (sg_len seg) buf]))"

definition fs_append :: "(bytes \<Rightarrow> u64) \<Rightarrow> Inner \<Rightarrow> LogEntry list \<Rightarrow> StorageError + (Inner \<times> DeviceStep list)" where
  "fs_append h s es =
     (case es of
        [] \<Rightarrow> Inr (s, [])
      | e # _ \<Rightarrow>
          let first = l_index (le_log_id e) in
          if in_index s \<noteq> [] \<and> first \<noteq> fst (last (in_index s)) + 1
          then Inl (Corruption ''append does not continue the log'')
          else let (s, ss1) = drop_leftover s first;
                   (s, ss2) = (if needs_segment s then start_segment s first else (s, []));
                   (s, ss3) = write_entries h s es
               in Inr (s, ss1 @ ss2 @ ss3))"

section \<open>Reading\<close>

definition read_entry :: "(bytes \<Rightarrow> u64) \<Rightarrow> Inner \<Rightarrow> Device \<Rightarrow> u64 \<Rightarrow> Loc \<Rightarrow> StorageError + LogEntry" where
  "read_entry h s d index loc =
     (if lo_segment loc \<notin> sg_first_index ` set (in_segments s) then Inl (Corruption ''no segment starts there'')
      else case map_of (dv_segs d) (lo_segment loc) of
        None \<Rightarrow> Inl (Io ''open segment'')
      | Some file \<Rightarrow>
          (case get_range file (lo_offset loc) (lo_offset loc + unat (lo_len loc)) of
             None \<Rightarrow> Inl (Io ''read entry'')
           | Some frame \<Rightarrow>
               (case decode_frame h frame 0 of
                  None \<Rightarrow> Inl (Corruption ''raft log entry failed its check'')
                | Some (lid, payload, _) \<Rightarrow>
                    if l_index lid = index then Inr \<lparr>le_log_id = lid, le_payload = payload\<rparr>
                    else Inl (Corruption ''raft log entry failed its check''))))"

fun read_all :: "(bytes \<Rightarrow> u64) \<Rightarrow> Inner \<Rightarrow> Device \<Rightarrow> (u64 \<times> Loc) list \<Rightarrow> StorageError + LogEntry list" where
  "read_all h s d [] = Inr []"
| "read_all h s d ((i, loc) # ls) =
     (case read_entry h s d i loc of
        Inl err \<Rightarrow> Inl err
      | Inr e \<Rightarrow> (case read_all h s d ls of Inl err \<Rightarrow> Inl err | Inr es \<Rightarrow> Inr (e # es)))"

definition fs_read_range :: "(bytes \<Rightarrow> u64) \<Rightarrow> Inner \<Rightarrow> Device \<Rightarrow> u64 \<Rightarrow> u64 \<Rightarrow> StorageError + LogEntry list" where
  "fs_read_range h s d lo hi = read_all h s d (filter (\<lambda>(i, _). lo \<le> i \<and> i < hi) (in_index s))"

definition fs_log_state :: "Inner \<Rightarrow> LogState" where
  "fs_log_state s =
     \<lparr>ls_last_purged = in_last_purged s,
      ls_last_log = (if in_index s = [] then None
                     else Some \<lparr>l_term = lo_term (snd (last (in_index s))), l_index = fst (last (in_index s))\<rparr>)\<rparr>"

section \<open>Truncating and purging\<close>

definition truncation_point :: "Inner \<Rightarrow> u64 \<Rightarrow> u64 \<times> nat" where
  "truncation_point s from =
     (case map_of (in_index s) from of
        Some loc \<Rightarrow> (lo_segment loc, lo_offset loc)
      | None \<Rightarrow> (lo_segment (snd (hd (in_index s))), SEGMENT_HEADER))"

definition fs_truncate_from :: "Inner \<Rightarrow> u64 \<Rightarrow> Inner \<times> DeviceStep list" where
  "fs_truncate_from s from =
     (if in_index s = [] \<or> fst (last (in_index s)) < from then (s, [])
      else let (seg, off) = truncation_point s from;
               newer = takeWhile (\<lambda>g. sg_first_index g > seg) (rev (in_segments s));
               kept = rev (dropWhile (\<lambda>g. sg_first_index g > seg) (rev (in_segments s)));
               s = s\<lparr>in_active := None, in_segments := kept\<rparr>;
               unlinks = map (\<lambda>g. UnlinkSeg (sg_first_index g)) newer;
               (s, ss) =
                 (if off = SEGMENT_HEADER
                  then (s\<lparr>in_segments := butlast kept\<rparr>, [UnlinkSeg (sg_first_index (last kept))])
                  else let (s, file) = active_file s in
                       (s\<lparr>in_segments := butlast kept @
                            [(last kept)\<lparr>sg_len := off, sg_last_index := Some (from - 1)\<rparr>]\<rparr>,
                        [SetLenSeg file off]))
           in (s\<lparr>in_index := filter (\<lambda>(i, _). i < from) (in_index s)\<rparr>, unlinks @ ss))"

definition obsolete :: "u64 \<Rightarrow> Segment \<Rightarrow> bool" where
  "obsolete marker seg =
     (case sg_last_index seg of Some l \<Rightarrow> l \<le> marker | None \<Rightarrow> sg_first_index seg \<le> marker)"

definition fs_purge_through :: "Extern \<Rightarrow> Inner \<Rightarrow> LogId \<Rightarrow> StorageError + (Inner \<times> DeviceStep list)" where
  "fs_purge_through x s lid =
     (if (case in_last_purged s of Some p \<Rightarrow> l_index p \<ge> l_index lid | None \<Rightarrow> False) then Inr (s, [])
      else case x_to_id x lid of
        Inl err \<Rightarrow> Inl (Serialization (''encode last_purged: '' @ err))
      | Inr bs \<Rightarrow>
          let gone = filter (obsolete (l_index lid)) (in_segments s);
              kept = filter (\<lambda>g. \<not> obsolete (l_index lid) g) (in_segments s)
          in Inr (s\<lparr>in_last_purged := Some lid,
                    in_index := filter (\<lambda>(i, _). i \<ge> l_index lid + 1) (in_index s),
                    in_active := None, in_segments := kept\<rparr>,
                  PutLastPurged bs # map (\<lambda>g. UnlinkSeg (sg_first_index g)) gone))"

section \<open>The committed watermark and the vote\<close>

definition COMMITTED_MAGIC :: bytes where
  "COMMITTED_MAGIC = [0x46, 0x52, 0x43, 0x32]"

definition LEGACY_COMMITTED_MAGIC :: bytes where
  "LEGACY_COMMITTED_MAGIC = [0x46, 0x52, 0x43, 0x4D]"

definition COMMITTED_SLOT :: nat where
  "COMMITTED_SLOT = 4096"

definition LEGACY_COMMITTED_SLOT :: nat where
  "LEGACY_COMMITTED_SLOT = 64"

definition slot_body :: "u64 \<Rightarrow> LogId option \<Rightarrow> bytes" where
  "slot_body gen c =
     COMMITTED_MAGIC @ u64_to_le gen @
     (case c of
        Some lid \<Rightarrow> 1 # u64_to_le (l_term lid) @ u64_to_le (l_index lid)
      | None \<Rightarrow> replicate 17 0) @
     replicate (COMMITTED_SLOT - FRAME_HASH - 29) 0"

definition encode_committed :: "(bytes \<Rightarrow> u64) \<Rightarrow> u64 \<Rightarrow> LogId option \<Rightarrow> bytes" where
  "encode_committed h gen c = slot_body gen c @ u64_to_le (h (slot_body gen c))"

definition decode_committed :: "(bytes \<Rightarrow> u64) \<Rightarrow> bytes \<Rightarrow> (u64 \<times> LogId option) option" where
  "decode_committed h slot =
     (if length slot \<noteq> COMMITTED_SLOT \<and> length slot \<noteq> LEGACY_COMMITTED_SLOT then None
      else let magic = (if length slot = COMMITTED_SLOT then COMMITTED_MAGIC else LEGACY_COMMITTED_MAGIC);
               n = length slot - FRAME_HASH in
           if take 4 slot \<noteq> magic then None
           else if u64_to_le (h (take n slot)) \<noteq> drop n slot then None
           else Some (u64_from_le (slice slot 4 12),
                      if slot ! 12 = 1
                      then Some \<lparr>l_term = u64_from_le (slice slot 13 21), l_index = u64_from_le (slice slot 21 29)\<rparr>
                      else None))"

text \<open>\<open>bytes.chunks(n)\<close>.\<close>

function chunks :: "nat \<Rightarrow> bytes \<Rightarrow> bytes list" where
  "chunks n bs = (if bs = [] \<or> n = 0 then [] else take n bs # chunks n (drop n bs))"
  by pat_completeness auto
termination by (relation "measure (\<lambda>(n, bs). length bs)") auto

declare chunks.simps [simp del]

text \<open>\<open>max_by_key\<close>: the last of the elements with the greatest key.\<close>

fun max_generation :: "(u64 \<times> LogId option) list \<Rightarrow> (u64 \<times> LogId option) option" where
  "max_generation [] = None"
| "max_generation (c # cs) =
     (case max_generation cs of
        None \<Rightarrow> Some c
      | Some c' \<Rightarrow> if fst c' \<ge> fst c then Some c' else Some c)"

definition write_committed ::
  "(bytes \<Rightarrow> u64) \<Rightarrow> Inner \<Rightarrow> Device \<Rightarrow> LogId option \<Rightarrow> Inner \<times> DeviceStep list" where
  "write_committed h s d c =
     (let created = \<not> in_committed_file s \<and> dv_slots d = None;
          gen = in_committed_generation s + 1
      in (s\<lparr>in_committed_file := True, in_committed_generation := gen, in_committed := c\<rparr>,
          (if created then [SizeSlots (2 * COMMITTED_SLOT)] else []) @
          [WriteSlots (unat (gen mod 2) * COMMITTED_SLOT) (encode_committed h gen c)]))"

definition migrate_slots :: "(bytes \<Rightarrow> u64) \<Rightarrow> bytes \<Rightarrow> bytes" where
  "migrate_slots h bs =
     concat (map (\<lambda>slot. case decode_committed h slot of
                            Some (gen, c) \<Rightarrow> encode_committed h gen c
                          | None \<Rightarrow> replicate COMMITTED_SLOT 0) (chunks LEGACY_COMMITTED_SLOT bs))"

definition load_committed :: "Extern \<Rightarrow> Inner \<Rightarrow> Device \<Rightarrow> StorageError + (Inner \<times> DeviceStep list)" where
  "load_committed x s d =
     (case dv_slots d of
        Some bs \<Rightarrow>
          let legacy = (length bs = 2 * LEGACY_COMMITTED_SLOT);
              stride = (if legacy then LEGACY_COMMITTED_SLOT else COMMITTED_SLOT);
              best = max_generation (List.map_filter (decode_committed (x_hash x)) (chunks stride bs));
              s = (case best of
                     Some (gen, c) \<Rightarrow> s\<lparr>in_committed_generation := gen, in_committed := c\<rparr>
                   | None \<Rightarrow> s)
          in Inr (s, if legacy then [PutSlots (migrate_slots (x_hash x) bs)] else [])
      | None \<Rightarrow>
          (case dv_committed d of
             None \<Rightarrow> Inr (s, [])
           | Some bs \<Rightarrow>
               (case x_from_id x bs of
                  Inl err \<Rightarrow> Inl (Serialization (''decode committed: '' @ err))
                | Inr lid \<Rightarrow>
                    let (s, ss) = write_committed (x_hash x) (s\<lparr>in_committed := Some lid\<rparr>) d (Some lid)
                    in Inr (s, ss @ [RemoveCommitted]))))"

definition fs_save_vote :: "Extern \<Rightarrow> Vote \<Rightarrow> StorageError + DeviceStep list" where
  "fs_save_vote x v =
     (case x_to_vote x v of Inl err \<Rightarrow> Inl (Serialization (''encode vote: '' @ err)) | Inr bs \<Rightarrow> Inr [PutVote bs])"

definition fs_read_vote :: "Extern \<Rightarrow> Device \<Rightarrow> StorageError + Vote option" where
  "fs_read_vote x d =
     (case dv_vote d of
        None \<Rightarrow> Inr None
      | Some bs \<Rightarrow> (case x_from_vote x bs of Inl err \<Rightarrow> Inl (Serialization (''decode vote: '' @ err)) | Inr v \<Rightarrow> Inr (Some v)))"

section \<open>Opening\<close>

text \<open>The contiguous run of per-entry files above the purge cutoff.\<close>

fun contiguous_run :: "u64 \<Rightarrow> u64 list \<Rightarrow> u64 list" where
  "contiguous_run expected [] = []"
| "contiguous_run expected (i # is) = (if i = expected then i # contiguous_run (expected + 1) is else [])"

fun decode_entries :: "Extern \<Rightarrow> (u64, bytes) bmap \<Rightarrow> u64 list \<Rightarrow> StorageError + LogEntry list" where
  "decode_entries x files [] = Inr []"
| "decode_entries x files (i # is) =
     (case map_of files i of
        None \<Rightarrow> Inl (Io ''read legacy entry'')
      | Some bs \<Rightarrow>
          (case x_from_entry x bs of
             Inl err \<Rightarrow> Inl (Serialization (''decode legacy entry: '' @ err))
           | Inr e \<Rightarrow> (case decode_entries x files is of Inl err \<Rightarrow> Inl err | Inr es \<Rightarrow> Inr (e # es))))"

definition migrate_legacy_entries :: "Extern \<Rightarrow> u64 option \<Rightarrow> Device \<Rightarrow> StorageError + DeviceStep list" where
  "migrate_legacy_entries x co d =
     (let stale = map (\<lambda>(i, _). RemoveTmp i) (dv_tmps d);
          indices = map fst (dv_entries d)
      in if indices = [] then Inr stale
         else if dv_segs d \<noteq> [] then Inr (stale @ [RemoveEntries indices])
         else let anchor = (case co of None \<Rightarrow> 1 | Some c \<Rightarrow> c + 1);
                  run = contiguous_run anchor (filter (live co) indices)
              in case run of
                   [] \<Rightarrow> Inr (stale @ [RemoveEntries indices])
                 | first # _ \<Rightarrow>
                     (case decode_entries x (dv_entries d) run of
                        Inl err \<Rightarrow> Inl err
                      | Inr es \<Rightarrow>
                          let buf = segment_header first @ concat (map (encode_frame (x_hash x)) es)
                          in Inr (stale @ [WriteTmp first buf, PublishTmp first, RemoveEntries indices])))"

function scan_frames ::
  "(bytes \<Rightarrow> u64) \<Rightarrow> u64 option \<Rightarrow> u64 \<Rightarrow> bytes \<Rightarrow> nat \<Rightarrow> u64 \<Rightarrow> u64 option \<Rightarrow> (u64, Loc) bmap \<Rightarrow>
   nat \<times> u64 \<times> u64 option \<times> (u64, Loc) bmap \<times> bool" where
  "scan_frames h co first bytes at0 physical_next last_index index =
     (if at0 = length bytes then (at0, physical_next, last_index, index, True)
      else case decode_frame h bytes at0 of
             Some (lid, _, frame_len) \<Rightarrow>
               if l_index lid = physical_next
               then scan_frames h co first bytes (at0 + frame_len) (physical_next + 1) (Some (l_index lid))
                      (if live co (l_index lid)
                       then bm_insert (l_index lid)
                              \<lparr>lo_segment = first, lo_offset = at0, lo_len = word_of_nat frame_len, lo_term = l_term lid\<rparr>
                              index
                       else index)
               else (at0, physical_next, last_index, index, False)
           | None \<Rightarrow> (at0, physical_next, last_index, index, False))"
  by pat_completeness auto
termination
  by (relation "measure (\<lambda>(h, co, first, bytes, at0, n, l, i). length bytes - at0)")
    (auto intro: decode_frame_measure)

declare scan_frames.simps [simp del]

definition bad_header :: "u64 \<Rightarrow> bytes \<Rightarrow> bool" where
  "bad_header first bytes =
     (length bytes < SEGMENT_HEADER \<or> take 8 bytes \<noteq> SEGMENT_MAGIC \<or> u64_from_le (slice bytes 8 16) \<noteq> first)"

fun scan_files ::
  "(bytes \<Rightarrow> u64) \<Rightarrow> u64 option \<Rightarrow> (u64 \<times> bytes) list \<Rightarrow> u64 option \<Rightarrow> Segment list \<Rightarrow> (u64, Loc) bmap \<Rightarrow>
   StorageError + (Segment list \<times> (u64, Loc) bmap \<times> DeviceStep list)" where
  "scan_files h co [] expected segs index = Inr (segs, index, [])"
| "scan_files h co ((first, bytes) # rest) expected segs index =
     (if bad_header first bytes
      then if rest = [] then Inr (segs, index, [UnlinkSeg first])
           else Inl (Corruption ''raft log segment has a bad header'')
      else if expected \<noteq> None \<and> expected \<noteq> Some first
      then Inl (Corruption ''raft log segment does not continue the previous segment'')
      else case scan_frames h co first bytes SEGMENT_HEADER first None index of
             (at0, next, last_index, index, clean) \<Rightarrow>
               let segs = segs @ [\<lparr>sg_first_index = first, sg_last_index = last_index, sg_len = at0\<rparr>] in
               if clean then scan_files h co rest (Some next) segs index
               else if rest = [] then Inr (segs, index, [SetLenSeg first at0])
               else Inl (Corruption ''raft log segment is damaged before a later segment''))"

definition scan_segments :: "(bytes \<Rightarrow> u64) \<Rightarrow> Inner \<Rightarrow> Device \<Rightarrow> StorageError + (Inner \<times> DeviceStep list)" where
  "scan_segments h s d =
     (case scan_files h (cutoff s) (dv_segs d) None [] (in_index s) of
        Inl err \<Rightarrow> Inl err
      | Inr (segs, index, ss) \<Rightarrow> Inr (s\<lparr>in_segments := segs, in_index := index\<rparr>, ss))"

definition fs_open :: "Extern \<Rightarrow> nat \<Rightarrow> Device \<Rightarrow> StorageError + (Inner \<times> DeviceStep list)" where
  "fs_open x segment_bytes d =
     (case (case dv_last_purged d of
              None \<Rightarrow> Inr None
            | Some bs \<Rightarrow> (case x_from_id x bs of Inl err \<Rightarrow> Inl (Serialization (''decode last_purged: '' @ err)) | Inr i \<Rightarrow> Inr (Some i)))
      of Inl err \<Rightarrow> Inl err
       | Inr purged \<Rightarrow>
           let s = \<lparr>in_segment_bytes = segment_bytes, in_segments = [], in_index = [], in_active = None,
                    in_last_purged = purged, in_committed = None, in_committed_generation = 0,
                    in_committed_file = False\<rparr>
           in case migrate_legacy_entries x (cutoff s) d of
                Inl err \<Rightarrow> Inl err
              | Inr ss1 \<Rightarrow>
                  (case scan_segments (x_hash x) s (exec_steps ss1 d) of
                     Inl err \<Rightarrow> Inl err
                   | Inr (s, ss2) \<Rightarrow>
                       (case load_committed x s (exec_steps (ss1 @ ss2) d) of
                          Inl err \<Rightarrow> Inl err
                        | Inr (s, ss3) \<Rightarrow> Inr (s, ss1 @ ss2 @ ss3))))"

end
