(* ===== verification/Fs_Layout.thy ===== *)
theory Fs_Layout
  imports Fs_Log
begin

text \<open>
  What the files of a healthy log look like, and that the scan of an opening store reads exactly
  that back.  The log is a list of parts, one per segment: the first index of the segment and the
  entries in it, consecutively numbered through all parts; only the last part may be empty.
\<close>

section \<open>Parts\<close>

abbreviation idx :: "LogEntry \<Rightarrow> u64" where
  "idx e \<equiv> l_index (le_log_id e)"

type_synonym part = "u64 \<times> LogEntry list"

fun numbered :: "nat \<Rightarrow> LogEntry list \<Rightarrow> bool" where
  "numbered n [] = True"
| "numbered n (e # es) = (unat (idx e) = n \<and> fits e \<and> numbered (Suc n) es)"

fun chain :: "nat \<Rightarrow> part list \<Rightarrow> bool" where
  "chain n [] = (n < 2 ^ 64)"
| "chain n (p # ps) =
     (unat (fst p) = n \<and> numbered n (snd p) \<and> (ps \<noteq> [] \<longrightarrow> snd p \<noteq> []) \<and> chain (n + length (snd p)) ps)"

definition chained :: "part list \<Rightarrow> bool" where
  "chained ps = (ps = [] \<or> chain (unat (fst (hd ps))) ps)"

definition entries :: "part list \<Rightarrow> LogEntry list" where
  "entries ps = concat (map snd ps)"

lemma entries_simps [simp]:
  "entries [] = []" "entries (p # ps) = snd p @ entries ps" "entries (ps @ qs) = entries ps @ entries qs"
  by (simp_all add: entries_def)

lemma numbered_append: "numbered n (as @ bs) \<longleftrightarrow> numbered n as \<and> numbered (n + length as) bs"
  by (induction as arbitrary: n) auto

lemma numbered_range: "numbered n es \<Longrightarrow> e \<in> set es \<Longrightarrow> n \<le> unat (idx e) \<and> unat (idx e) < n + length es \<and> fits e"
  by (induction es arbitrary: n) fastforce+

lemma numbered_sorted: "numbered n es \<Longrightarrow> bs_ok (map idx es)"
proof (induction es arbitrary: n)
  case (Cons e es)
  then have "unat (idx e) < unat (idx e')" if "e' \<in> set es" for e'
    using numbered_range [of "Suc n" es e'] that by auto
  with Cons show ?case by (auto simp: word_less_nat_alt)
qed simp

lemma chain_append:
  "chain n (ps @ qs) \<longleftrightarrow> (qs = [] \<and> chain n ps) \<or> (qs \<noteq> [] \<and> (\<forall>p \<in> set ps. snd p \<noteq> []) \<and> chain n ps \<and> chain (n + length (entries ps)) qs)"
proof (induction ps arbitrary: n)
  case Nil
  have "n < 2 ^ 64" if "chain n qs" "qs \<noteq> []"
    using that unsigned_less [of "fst (hd qs)"] by (cases qs) auto
  then show ?case by (cases "qs = []") auto
next
  case (Cons p ps)
  show ?case using Cons [of "n + length (snd p)"] by (cases "qs = []") (auto simp: add.assoc)
qed

lemma chain_bound: "chain n ps \<Longrightarrow> n + length (entries ps) < 2 ^ 64"
  by (induction ps arbitrary: n) (fastforce simp: add.assoc)+

lemma chain_numbered: "chain n ps \<Longrightarrow> numbered n (entries ps)"
  by (induction ps arbitrary: n) (auto simp: numbered_append)

lemma chain_firsts_ge: "chain n ps \<Longrightarrow> p \<in> set ps \<Longrightarrow> n \<le> unat (fst p)"
proof (induction ps arbitrary: n)
  case (Cons q ps)
  then show ?case using Cons.IH [of "n + length (snd q)"] by (cases "p = q") (auto dest: add_leD1)
qed simp

lemma chain_firsts: "chain n ps \<Longrightarrow> bs_ok (map fst ps)"
proof (induction ps arbitrary: n)
  case (Cons p ps)
  have "unat (fst p) < unat (fst q)" if "q \<in> set ps" for q
  proof -
    have "n + length (snd p) \<le> unat (fst q)" using Cons.prems that chain_firsts_ge [of "n + length (snd p)" ps q] by simp
    moreover have "snd p \<noteq> []" using Cons.prems that by auto
    ultimately show ?thesis using Cons.prems by (cases "snd p") auto
  qed
  then show ?case using Cons.prems Cons.IH by (auto simp: word_less_nat_alt)
qed simp

lemma chained_firsts: "chained ps \<Longrightarrow> bs_ok (map fst ps)"
  by (auto simp: chained_def dest: chain_firsts)

lemma chained_sorted: "chained ps \<Longrightarrow> bs_ok (map idx (entries ps))"
  by (auto simp: chained_def dest!: chain_numbered intro: numbered_sorted)

section \<open>Files, segments and locations of parts\<close>

definition seg_file :: "(bytes \<Rightarrow> u64) \<Rightarrow> part \<Rightarrow> bytes" where
  "seg_file h p = segment_header (fst p) @ concat (map (encode_frame h) (snd p))"

definition seg_of :: "(bytes \<Rightarrow> u64) \<Rightarrow> part \<Rightarrow> Segment" where
  "seg_of h p =
     \<lparr>sg_first_index = fst p, sg_last_index = (if snd p = [] then None else Some (idx (last (snd p)))),
      sg_len = length (seg_file h p)\<rparr>"

text \<open>The segment files of parts, the last one followed by leftover bytes.\<close>

fun files :: "(bytes \<Rightarrow> u64) \<Rightarrow> bytes \<Rightarrow> part list \<Rightarrow> (u64 \<times> bytes) list" where
  "files h junk [] = []"
| "files h junk (p # ps) = (fst p, seg_file h p @ (if ps = [] then junk else [])) # files h junk ps"

definition part_locs :: "(bytes \<Rightarrow> u64) \<Rightarrow> part \<Rightarrow> (u64 \<times> Loc) list" where
  "part_locs h p = snd (place_frames h (fst p) SEGMENT_HEADER (snd p))"

definition index_of :: "(bytes \<Rightarrow> u64) \<Rightarrow> u64 option \<Rightarrow> part list \<Rightarrow> (u64 \<times> Loc) list" where
  "index_of h co ps = filter (\<lambda>l. live co (fst l)) (concat (map (part_locs h) ps))"

lemma index_of_simps [simp]:
  "index_of h co [] = []"
  "index_of h co (p # ps) = filter (\<lambda>l. live co (fst l)) (part_locs h p) @ index_of h co ps"
  "index_of h co (ps @ qs) = index_of h co ps @ index_of h co qs"
  by (simp_all add: index_of_def)

lemma length_header [simp]: "length (segment_header f) = SEGMENT_HEADER"
  by (simp add: segment_header_def SEGMENT_MAGIC_def SEGMENT_HEADER_def)

lemma files_map: "files h [] ps = map (\<lambda>p. (fst p, seg_file h p)) ps"
  by (induction ps) auto

lemma fst_files [simp]: "map fst (files h junk ps) = map fst ps"
  by (induction ps) auto

lemma files_append: "qs \<noteq> [] \<Longrightarrow> files h junk (ps @ qs) = files h [] ps @ files h junk qs"
  by (induction ps) auto

lemma files_Nil_iff [simp]: "files h junk ps = [] \<longleftrightarrow> ps = []"
  by (cases ps) auto

lemma place_frames_bytes [simp]: "fst (place_frames h f off es) = concat (map (encode_frame h) es)"
  by (induction es arbitrary: off) (auto simp: case_prod_beta Let_def)

lemma place_frames_keys [simp]: "map fst (snd (place_frames h f off es)) = map idx es"
  by (induction es arbitrary: off) (auto simp: case_prod_beta Let_def)

lemma place_frames_Cons:
  "snd (place_frames h f off (e # es)) =
   (idx e, \<lparr>lo_segment = f, lo_offset = off, lo_len = word_of_nat (length (encode_frame h e)), lo_term = l_term (le_log_id e)\<rparr>) #
   snd (place_frames h f (off + length (encode_frame h e)) es)"
  by (simp add: case_prod_beta Let_def)

lemma place_frames_append:
  "snd (place_frames h f off (as @ bs)) =
   snd (place_frames h f off as) @ snd (place_frames h f (off + length (concat (map (encode_frame h) as))) bs)"
  by (induction as arbitrary: off) (auto simp: case_prod_beta Let_def add.assoc)

lemma part_locs_keys [simp]: "map fst (part_locs h p) = map idx (snd p)"
  by (simp add: part_locs_def)

lemma filter_keys: "map f xs = map g ys \<Longrightarrow> map f (filter (\<lambda>x. P (f x)) xs) = map g (filter (\<lambda>y. P (g y)) ys)"
  using filter_map [of P f xs] filter_map [of P g ys] by (simp add: comp_def)

lemma index_of_keys: "map fst (index_of h co ps) = map idx (filter (\<lambda>e. live co (idx e)) (entries ps))"
  by (induction ps) (simp_all add: filter_keys [OF part_locs_keys])

lemma index_of_Nil_iff: "index_of h co ps = [] \<longleftrightarrow> filter (\<lambda>e. live co (idx e)) (entries ps) = []"
  using index_of_keys [of h co ps] by (metis map_is_Nil_conv)

lemma index_of_last:
  assumes "index_of h co ps \<noteq> []"
  shows "fst (last (index_of h co ps)) = idx (last (filter (\<lambda>e. live co (idx e)) (entries ps)))"
proof -
  have "fst (last (index_of h co ps)) = last (map fst (index_of h co ps))" using assms by (simp add: last_map)
  also have "\<dots> = idx (last (filter (\<lambda>e. live co (idx e)) (entries ps)))"
    using assms by (simp add: index_of_keys last_map index_of_Nil_iff)
  finally show ?thesis .
qed

lemma bs_ok_filter: "bs_ok xs \<Longrightarrow> bs_ok (filter P xs)"
  by (simp add: bs_ok_def sorted_wrt_filter)

lemma bs_ok_append: "bs_ok (xs @ ys) \<longleftrightarrow> bs_ok xs \<and> bs_ok ys \<and> (\<forall>x \<in> set xs. \<forall>y \<in> set ys. x < y)"
  by (simp add: bs_ok_def sorted_wrt_append)

lemma index_of_sorted: "chained ps \<Longrightarrow> bm_ok (index_of h co ps)"
  unfolding bm_ok_def index_of_keys filter_map [unfolded comp_def, symmetric]
  by (metis (no_types, lifting) bs_ok_filter chained_sorted filter_map comp_def filter_cong)

lemma bm_insert_last: "\<forall>p \<in> set m. fst p < k \<Longrightarrow> bm_insert k v m = m @ [(k, v)]"
  by (induction m) auto

lemma bm_insert_all:
  "bs_ok (map fst m @ map fst ls) \<Longrightarrow> foldl (\<lambda>m (i, l). bm_insert i l m) m ls = m @ ls"
proof (induction ls arbitrary: m)
  case (Cons l ls)
  then have "bm_insert (fst l) (snd l) m = m @ [l]"
    by (subst bm_insert_last) (auto simp: bs_ok_append)
  then show ?case using Cons by (simp add: case_prod_beta)
qed simp

section \<open>Scanning\<close>

text \<open>The scan goes no further than byte \<open>a\<close> when it expects the entry \<open>next\<close> there.\<close>

definition stuck :: "(bytes \<Rightarrow> u64) \<Rightarrow> bytes \<Rightarrow> nat \<Rightarrow> u64 \<Rightarrow> bool" where
  "stuck h bytes a next =
     (case decode_frame h bytes a of None \<Rightarrow> True | Some (lid, _, _) \<Rightarrow> l_index lid \<noteq> next)"

lemma scan_frames_end:
  "scan_frames h co f bytes (length bytes) next lst m = (length bytes, next, lst, m, True)"
  by (simp add: scan_frames.simps)

lemma scan_frames_stuck:
  "stuck h bytes a next \<Longrightarrow> a \<noteq> length bytes \<Longrightarrow> scan_frames h co f bytes a next lst m = (a, next, lst, m, False)"
  by (subst scan_frames.simps) (auto simp: stuck_def split: option.splits)

lemma scan_frames_step:
  assumes "decode_frame h bytes a = Some (lid, pl, n)" and "l_index lid = next"
  shows "scan_frames h co f bytes a next lst m =
         scan_frames h co f bytes (a + n) (next + 1) (Some next)
           (if live co next
            then bm_insert next \<lparr>lo_segment = f, lo_offset = a, lo_len = word_of_nat n, lo_term = l_term lid\<rparr> m else m)"
proof -
  have "a \<noteq> length bytes" using assms(1) decode_frame_end [of h bytes] by auto
  then show ?thesis using assms by (subst scan_frames.simps) simp
qed

lemma scan_frames_parts:
  assumes "numbered n es"
    and "junk = [] \<or> stuck h (pre @ concat (map (encode_frame h) es) @ junk)
                       (length pre + length (concat (map (encode_frame h) es))) (word_of_nat (n + length es))"
  shows "scan_frames h co f (pre @ concat (map (encode_frame h) es) @ junk) (length pre) (word_of_nat n) lst m =
         (length pre + length (concat (map (encode_frame h) es)), word_of_nat (n + length es),
          if es = [] then lst else Some (idx (last es)),
          foldl (\<lambda>m (i, l). bm_insert i l m) m (filter (\<lambda>l. live co (fst l)) (snd (place_frames h f (length pre) es))),
          junk = [])"
  using assms
proof (induction es arbitrary: n pre lst m)
  case Nil
  then show ?case
    by (cases "junk = []") (simp_all add: scan_frames_stuck scan_frames_end [of _ _ _ pre, simplified])
next
  case (Cons e es)
  let ?rest = "concat (map (encode_frame h) es)"
  have bytes: "pre @ concat (map (encode_frame h) (e # es)) @ junk = pre @ encode_frame h e @ ?rest @ junk"
    "(pre @ encode_frame h e) @ ?rest @ junk = pre @ encode_frame h e @ ?rest @ junk" by simp_all
  have fit: "fits e" and num: "numbered (Suc n) es" using Cons.prems by auto
  have i: "idx e = word_of_nat n" using Cons.prems(1) by auto
  note IH = Cons.IH [OF num, of "pre @ encode_frame h e", unfolded bytes(2)]
  show ?case
    unfolding bytes(1)
    apply (subst scan_frames_step [OF decode_encode_frame [OF fit] i])
    using IH Cons.prems(2) i by (cases "es = []") (simp_all add: place_frames_Cons ac_simps del: place_frames.simps(2))
qed

lemma header_ok [simp]: "\<not> bad_header (fst p) (seg_file h p @ junk)"
  by (simp add: bad_header_def seg_file_def segment_header_def SEGMENT_MAGIC_def SEGMENT_HEADER_def slice_def)

lemmas header_ok_exact [simp] = header_ok [of _ _ "[]", simplified]

lemma scan_file:
  assumes "numbered (unat (fst p)) (snd p)"
    and "junk = [] \<or> stuck h (seg_file h p @ junk) (length (seg_file h p)) (word_of_nat (unat (fst p) + length (snd p)))"
  shows "scan_frames h co (fst p) (seg_file h p @ junk) SEGMENT_HEADER (fst p) None m =
         (length (seg_file h p), word_of_nat (unat (fst p) + length (snd p)), sg_last_index (seg_of h p),
          foldl (\<lambda>m (i, l). bm_insert i l m) m (filter (\<lambda>l. live co (fst l)) (part_locs h p)), junk = [])"
  using scan_frames_parts [OF assms(1), of junk h "segment_header (fst p)" co "fst p" None m] assms(2)
  by (simp add: seg_file_def seg_of_def part_locs_def)

definition last_stuck :: "(bytes \<Rightarrow> u64) \<Rightarrow> bytes \<Rightarrow> part list \<Rightarrow> bool" where
  "last_stuck h junk ps \<longleftrightarrow>
     junk = [] \<or>
     ps \<noteq> [] \<and> stuck h (seg_file h (last ps) @ junk) (length (seg_file h (last ps)))
                 (word_of_nat (unat (fst (last ps)) + length (snd (last ps))))"

lemma scan_files_parts:
  assumes "chain n ps" and "last_stuck h junk ps" and "bs_ok (map fst m @ map fst (index_of h co ps))"
    and "expected = None \<or> expected = Some (word_of_nat n)"
  shows "scan_files h co (files h junk ps) expected segs m =
         Inr (segs @ map (seg_of h) ps, m @ index_of h co ps,
              if junk = [] then [] else [SetLenSeg (fst (last ps)) (length (seg_file h (last ps)))])"
  using assms
proof (induction ps arbitrary: n m expected segs)
  case Nil
  then show ?case by (simp add: last_stuck_def)
next
  case (Cons p ps)
  define jk where "jk = (if ps = [] then junk else [])"
  have n: "unat (fst p) = n" "word_of_nat n = fst p" using Cons.prems(1) by auto
  have exp: "\<not> (expected \<noteq> None \<and> expected \<noteq> Some (fst p))" using Cons.prems(4) n by auto
  have st: "jk = [] \<or> stuck h (seg_file h p @ jk) (length (seg_file h p)) (word_of_nat (unat (fst p) + length (snd p)))"
    using Cons.prems(2) by (auto simp: jk_def last_stuck_def)
  have num: "numbered (unat (fst p)) (snd p)" using Cons.prems(1) n by simp
  have ord: "bs_ok (map fst m @ map fst (filter (\<lambda>l. live co (fst l)) (part_locs h p)))"
    using Cons.prems(3) append_assoc bs_ok_append index_of_simps(2) map_append by metis
  note scan = scan_file [OF num st, of co m, unfolded bm_insert_all [OF ord]]
  show ?case
  proof (cases "ps = []")
    case True
    then show ?thesis using exp scan by (simp add: jk_def seg_of_def)
  next
    case False
    have tail: "scan_files h co (files h junk ps) (Some (word_of_nat (n + length (snd p)))) (segs @ [seg_of h p])
          (m @ filter (\<lambda>l. live co (fst l)) (part_locs h p)) =
        Inr ((segs @ [seg_of h p]) @ map (seg_of h) ps,
             (m @ filter (\<lambda>l. live co (fst l)) (part_locs h p)) @ index_of h co ps,
             if junk = [] then [] else [SetLenSeg (fst (last ps)) (length (seg_file h (last ps)))])"
      using Cons.prems False by (intro Cons.IH) (auto simp: last_stuck_def)
    have seg: "\<lparr>sg_first_index = fst p, sg_last_index = sg_last_index (seg_of h p), sg_len = length (seg_file h p)\<rparr> = seg_of h p"
      by (simp add: seg_of_def)
    show ?thesis using False exp scan tail n by (simp add: jk_def seg del: of_nat_add)
  qed
qed

section \<open>Reading\<close>

text \<open>The location \<open>l\<close> holds the entry \<open>e\<close>.\<close>

definition reads :: "(bytes \<Rightarrow> u64) \<Rightarrow> Inner \<Rightarrow> Device \<Rightarrow> u64 \<times> Loc \<Rightarrow> LogEntry \<Rightarrow> bool" where
  "reads h s d l e \<longleftrightarrow> read_entry h s d (fst l) (snd l) = Inr e \<and> fst l = idx e"

lemma reads_pair: "reads h s d (idx e, l) e \<longleftrightarrow> read_entry h s d (idx e) l = Inr e"
  by (simp add: reads_def)

lemma read_all_reads: "list_all2 (reads h s d) ls es \<Longrightarrow> read_all h s d ls = Inr es"
proof (induction ls es rule: list_all2_induct)
  case (Cons l ls e es)
  then show ?case by (cases l) (simp add: reads_def)
qed simp

lemma reads_filter:
  "list_all2 (reads h s d) ls es \<Longrightarrow>
   list_all2 (reads h s d) (filter (\<lambda>l. P (fst l)) ls) (filter (\<lambda>e. P (idx e)) es)"
  by (induction ls es rule: list_all2_induct) (auto simp: reads_def)

lemma frame_reads:
  assumes "fits e" and "map_of (dv_segs d) f = Some (pre @ encode_frame h e @ post)"
    and "f \<in> sg_first_index ` set (in_segments s)"
  shows "read_entry h s d (idx e) \<lparr>lo_segment = f, lo_offset = length pre,
           lo_len = word_of_nat (length (encode_frame h e)), lo_term = l_term (le_log_id e)\<rparr> = Inr e"
proof -
  have "unat (word_of_nat (length (encode_frame h e)) :: u32) = length (encode_frame h e)"
    using assms(1) by (simp add: fits_def unat_of_nat length_frame del: of_nat_add)
  moreover have "decode_frame h (encode_frame h e) 0 = Some (le_log_id e, le_payload e, length (encode_frame h e))"
    using decode_encode_frame [OF assms(1), of h "[]" "[]"] by simp
  ultimately show ?thesis using assms(2,3)
    by (simp add: read_entry_def get_range_def slice_def)
qed

lemma frames_read:
  assumes "numbered n es" and "map_of (dv_segs d) f = Some (pre @ concat (map (encode_frame h) es) @ post)"
    and "f \<in> sg_first_index ` set (in_segments s)"
  shows "list_all2 (reads h s d) (snd (place_frames h f (length pre) es)) es"
  using assms
proof (induction es arbitrary: n pre)
  case (Cons e es)
  have "list_all2 (reads h s d) (snd (place_frames h f (length (pre @ encode_frame h e)) es)) es"
    using Cons.prems by (intro Cons.IH) auto
  then show ?case using Cons.prems frame_reads [of e d f pre h "concat (map (encode_frame h) es) @ post" s]
    by (simp add: place_frames_Cons reads_pair del: place_frames.simps(2))
qed simp

lemma part_read:
  assumes "numbered n (snd p)" and "map_of (dv_segs d) (fst p) = Some (seg_file h p)"
    and "fst p \<in> sg_first_index ` set (in_segments s)"
  shows "list_all2 (reads h s d) (part_locs h p) (snd p)"
  using frames_read [OF assms(1), of d "fst p" "segment_header (fst p)" h "[]" s] assms(2,3)
  by (simp add: part_locs_def seg_file_def)

lemma map_of_files: "distinct (map fst ps) \<Longrightarrow> p \<in> set ps \<Longrightarrow> map_of (files h [] ps) (fst p) = Some (seg_file h p)"
  by (induction ps) (auto simp: files_map)

lemma parts_read:
  assumes "chain n qs" and "\<forall>p \<in> set qs. map_of (dv_segs d) (fst p) = Some (seg_file h p) \<and>
      fst p \<in> sg_first_index ` set (in_segments s)"
  shows "list_all2 (reads h s d) (concat (map (part_locs h) qs)) (entries qs)"
  using assms by (induction qs arbitrary: n) (auto intro!: list_all2_appendI part_read)

end
