(* ===== verification/Fs_Inv.thy ===== *)
theory Fs_Inv
  imports Fs_Layout
begin

text \<open>
  The invariant of the filesystem log store: the files are those of a list of parts, and the
  in-memory segments and index are what the scan of these files finds.  Every operation keeps it,
  and its effect on the log of live entries is the one the in-memory store has.
\<close>

section \<open>The invariant\<close>

definition logged :: "u64 option \<Rightarrow> part list \<Rightarrow> LogEntry list" where
  "logged co ps = filter (\<lambda>e. live co (idx e)) (entries ps)"

definition purged_ok :: "Extern \<Rightarrow> LogId option \<Rightarrow> Device \<Rightarrow> bool" where
  "purged_ok x p d \<longleftrightarrow>
     (case dv_last_purged d of None \<Rightarrow> p = None | Some bs \<Rightarrow> (\<exists>i. x_from_id x bs = Inr i \<and> p = Some i))"

definition rep :: "Extern \<Rightarrow> Inner \<Rightarrow> Device \<Rightarrow> part list \<Rightarrow> bool" where
  "rep x s d ps \<longleftrightarrow>
     chained ps \<and> dv_segs d = files (x_hash x) [] ps \<and> dv_tmps d = [] \<and> dv_entries d = [] \<and> dv_committed d = None \<and>
     in_segments s = map (seg_of (x_hash x)) ps \<and> in_index s = index_of (x_hash x) (cutoff s) ps \<and>
     (in_active s = None \<or> ps \<noteq> [] \<and> in_active s = Some (fst (last ps))) \<and>
     SEGMENT_HEADER < in_segment_bytes s \<and> purged_ok x (in_last_purged s) d"

text \<open>The segments end where the log ends: no entries are left behind a purge that went past them.\<close>

definition joined :: "u64 option \<Rightarrow> part list \<Rightarrow> bool" where
  "joined co ps \<longleftrightarrow> (logged co ps = [] \<and> entries ps \<noteq> [] \<longrightarrow> co = Some (idx (last (entries ps))))"

lemma logged_simps [simp]:
  "logged co [] = []" "logged co (ps @ qs) = logged co ps @ logged co qs"
  "logged co [(f, [])] = []"
  by (simp_all add: logged_def)

lemma repD:
  assumes "rep x s d ps"
  shows "chained ps" "dv_segs d = files (x_hash x) [] ps" "in_segments s = map (seg_of (x_hash x)) ps"
    "in_index s = index_of (x_hash x) (cutoff s) ps" "SEGMENT_HEADER < in_segment_bytes s"
    "in_active s = None \<or> ps \<noteq> [] \<and> in_active s = Some (fst (last ps))"
    "purged_ok x (in_last_purged s) d" "dv_tmps d = []" "dv_entries d = []" "dv_committed d = None"
  using assms by (auto simp: rep_def)

lemma rep_reads:
  assumes "rep x s d ps"
  shows "list_all2 (reads (x_hash x) s d) (index_of (x_hash x) (cutoff s) ps) (logged (cutoff s) ps)"
proof -
  have "distinct (map fst ps)" using chained_firsts [OF repD(1) [OF assms]] by (rule bs_ok_distinct)
  then have *: "\<forall>p \<in> set ps. map_of (dv_segs d) (fst p) = Some (seg_file (x_hash x) p) \<and>
      fst p \<in> sg_first_index ` set (in_segments s)"
    using repD(2,3) [OF assms] by (auto simp: map_of_files seg_of_def image_image)
  have "ps = [] \<or> chain (unat (fst (hd ps))) ps" using repD(1) [OF assms] by (simp add: chained_def)
  then have "list_all2 (reads (x_hash x) s d) (concat (map (part_locs (x_hash x)) ps)) (entries ps)"
    using parts_read [OF _ *] by auto
  then show ?thesis unfolding index_of_def logged_def by (rule reads_filter)
qed

theorem rep_read_range:
  assumes "rep x s d ps"
  shows "fs_read_range (x_hash x) s d lo hi = Inr (filter (\<lambda>e. lo \<le> idx e \<and> idx e < hi) (logged (cutoff s) ps))"
  using reads_filter [OF rep_reads [OF assms], of "\<lambda>i. lo \<le> i \<and> i < hi"] repD(4) [OF assms]
  by (simp add: fs_read_range_def read_all_reads case_prod_unfold)

lemma place_frames_terms:
  "list_all2 (\<lambda>l e. fst l = idx e \<and> lo_term (snd l) = l_term (le_log_id e)) (snd (place_frames h f off es)) es"
  by (induction es arbitrary: off) (simp_all add: place_frames_Cons del: place_frames.simps(2))

lemma index_terms:
  "list_all2 (\<lambda>l e. fst l = idx e \<and> lo_term (snd l) = l_term (le_log_id e)) (index_of h co ps) (logged co ps)"
proof -
  have *: "list_all2 (\<lambda>l e. fst l = idx e \<and> lo_term (snd l) = l_term (le_log_id e)) (concat (map (part_locs h) ps)) (entries ps)"
    by (induction ps) (auto intro!: list_all2_appendI simp: part_locs_def place_frames_terms)
  show ?thesis unfolding index_of_def logged_def
    using * by (induction rule: list_all2_induct) auto
qed

lemma list_all2_last: "list_all2 P xs ys \<Longrightarrow> xs \<noteq> [] \<Longrightarrow> P (last xs) (last ys)"
  by (induction rule: list_all2_induct) (auto dest: list_all2_lengthD)

lemma index_Nil_iff: "index_of h co ps = [] \<longleftrightarrow> logged co ps = []"
  using list_all2_lengthD [OF index_terms [of h co ps]] by auto

theorem rep_log_state:
  assumes "rep x s d ps"
  shows "fs_log_state s =
         \<lparr>ls_last_purged = in_last_purged s,
          ls_last_log = (if logged (cutoff s) ps = [] then None else Some (le_log_id (last (logged (cutoff s) ps))))\<rparr>"
  using list_all2_last [OF index_terms, of "x_hash x" "cutoff s" ps] repD(4) [OF assms]
  by (auto simp: fs_log_state_def index_Nil_iff)

section \<open>Updating the files of parts\<close>

lemma update_last:
  assumes "distinct (map fst (qs @ [p]))"
  shows "bm_update (fst p) g (files h j (qs @ [p])) = files h [] qs @ [(fst p, g (seg_file h p @ j))]"
proof -
  have "\<forall>q \<in> set qs. fst q \<noteq> fst p" using assms by (fastforce simp: image_iff)
  then show ?thesis by (auto simp: files_append files_map bm_update_def)
qed

lemma remove_last:
  assumes "distinct (map fst (qs @ [p]))"
  shows "bm_remove (fst p) (files h j (qs @ [p])) = files h [] qs"
proof -
  have "\<forall>q \<in> set qs. fst q \<noteq> fst p" using assms by (fastforce simp: image_iff)
  then show ?thesis by (auto simp: files_append files_map bm_remove_def filter_id_conv)
qed

lemma remove_first:
  assumes "distinct (map fst (p # qs))"
  shows "bm_remove (fst p) (files h j (p # qs)) = files h j qs"
proof -
  have "fst q \<noteq> fst p" if "q \<in> set (files h j qs)" for q
    using that assms by (metis distinct.simps(2) fst_files image_eqI list.set_map list.simps(9))
  then show ?thesis by (simp add: bm_remove_def filter_id_conv)
qed

lemma insert_part:
  assumes "\<forall>p \<in> set ps. fst p < f"
  shows "bm_insert f bs (files h [] ps) = files h [] ps @ [(f, bs)]"
  using assms by (intro bm_insert_last) (auto simp: files_map)

lemma write_at_end [simp]: "write_at (length f) bs f = f @ bs"
  by (simp add: write_at_def)

lemma set_len_prefix [simp]: "set_len (length f) (f @ junk) = f"
  by (simp add: set_len_def)

lemma seg_file_append: "seg_file h (f, as @ bs) = seg_file h (f, as) @ concat (map (encode_frame h) bs)"
  by (simp add: seg_file_def)

lemma files_snoc: "files h [] (qs @ [p]) = files h [] qs @ [(fst p, seg_file h p)]"
  by (simp add: files_append)

lemma chained_snoc:
  "chained (qs @ [p]) \<longleftrightarrow>
   (qs = [] \<and> chain (unat (fst p)) [p]) \<or>
   (qs \<noteq> [] \<and> chained qs \<and> (\<forall>q \<in> set qs. snd q \<noteq> []) \<and> chain (unat (fst (hd qs)) + length (entries qs)) [p])"
  by (cases "qs = []") (simp_all add: chained_def chain_append conj_ac del: chain.simps)

lemma chained_butlast: "chained (qs @ [p]) \<Longrightarrow> chained qs"
  unfolding chained_snoc by (auto simp: chained_def)

lemma chained_distinct: "chained ps \<Longrightarrow> distinct (map fst ps)"
  by (rule bs_ok_distinct [OF chained_firsts])

end
