(* ===== verification/Fs_Append.thy ===== *)
theory Fs_Append
  imports Fs_Inv
begin

text \<open>
  Appending a batch: the segment that receives it, its frames and the index, and every device
  state a crash in the middle can leave.
\<close>

section \<open>Where the log continues\<close>

definition next_ix :: "part list \<Rightarrow> nat" where
  "next_ix ps = unat (fst (hd ps)) + length (entries ps)"

text \<open>
  The caller's contract of \<open>append\<close>: consecutive entries that continue the log, or follow the
  purge marker when no entry is live.
\<close>

definition continues :: "u64 option \<Rightarrow> LogEntry list \<Rightarrow> LogEntry list \<Rightarrow> bool" where
  "continues co L es \<longleftrightarrow>
     es \<noteq> [] \<and> numbered (unat (idx (hd es))) es \<and> unat (idx (hd es)) + length es < 2 ^ 64 \<and>
     (if L \<noteq> [] then unat (idx (hd es)) = Suc (unat (idx (last L)))
      else case co of None \<Rightarrow> True | Some c \<Rightarrow> unat (idx (hd es)) = Suc (unat c))"

lemma numbered_last: "numbered n es \<Longrightarrow> es \<noteq> [] \<Longrightarrow> Suc (unat (idx (last es))) = n + length es"
  by (induction es arbitrary: n) fastforce+

lemma chained_numbered: "chained ps \<Longrightarrow> ps \<noteq> [] \<Longrightarrow> numbered (unat (fst (hd ps))) (entries ps)"
  by (auto simp: chained_def dest: chain_numbered)

lemma entries_ne: "entries ps \<noteq> [] \<Longrightarrow> ps \<noteq> []"
  by auto

lemma last_entry_ix: "chained ps \<Longrightarrow> entries ps \<noteq> [] \<Longrightarrow> Suc (unat (idx (last (entries ps)))) = next_ix ps"
  using numbered_last chained_numbered entries_ne unfolding next_ix_def by metis

lemma live_up: "live co i \<Longrightarrow> i \<le> j \<Longrightarrow> live co j"
  by (auto simp: live_def split: option.splits)

lemma numbered_le_last: "numbered n es \<Longrightarrow> e \<in> set es \<Longrightarrow> idx e \<le> idx (last es)"
  using numbered_range [of n es e] numbered_last [of n es] by (cases "es = []") (auto simp: word_le_nat_alt)

lemma logged_last:
  assumes "chained ps" and "logged co ps \<noteq> []"
  shows "entries ps \<noteq> []" "last (logged co ps) = last (entries ps)"
proof -
  obtain e where e: "e \<in> set (entries ps)" "live co (idx e)"
    using assms(2) by (auto simp: logged_def filter_empty_conv)
  then show ne: "entries ps \<noteq> []" by auto
  have "numbered (unat (fst (hd ps))) (entries ps)" using chained_numbered [OF assms(1)] entries_ne [OF ne] by simp
  then have "live co (idx (last (entries ps)))" using live_up [OF e(2)] numbered_le_last e(1) by blast
  moreover obtain xs y where "entries ps = xs @ [y]" using ne by (cases "entries ps" rule: rev_cases) auto
  ultimately show "last (logged co ps) = last (entries ps)" by (simp add: logged_def)
qed

lemma continues_next:
  assumes "chained ps" and "joined co ps" and "continues co (logged co ps) es" and "entries ps \<noteq> []"
  shows "unat (idx (hd es)) = next_ix ps"
proof (cases "logged co ps = []")
  case True
  then have "co = Some (idx (last (entries ps)))" using assms(2,4) by (simp add: joined_def)
  then show ?thesis using True assms(3) last_entry_ix [OF assms(1,4)] by (simp add: continues_def)
next
  case False
  then show ?thesis using assms(3) logged_last [OF assms(1) False] last_entry_ix [OF assms(1,4)]
    by (simp add: continues_def)
qed

lemma continues_live:
  assumes "continues co (logged co ps) es" and "e \<in> set es"
  shows "live co (idx e)"
proof -
  have e: "unat (idx (hd es)) \<le> unat (idx e)" using numbered_range assms unfolding continues_def by blast
  have "c < idx e" if "co = Some c" for c
  proof (cases "logged co ps = []")
    case True
    then show ?thesis using e assms(1) that by (simp add: continues_def word_less_nat_alt)
  next
    case False
    then have "live co (idx (last (logged co ps)))"
      using last_in_set [OF False] by (auto simp: logged_def)
    then show ?thesis using False e assms(1) that by (simp add: continues_def live_def word_less_nat_alt)
  qed
  then show ?thesis by (auto simp: live_def split: option.splits)
qed

section \<open>The three stages\<close>

text \<open>What the stages of an append leave alone.\<close>

definition same_rest :: "Inner \<Rightarrow> Inner \<Rightarrow> bool" where
  "same_rest s s' \<longleftrightarrow>
     in_last_purged s' = in_last_purged s \<and> in_segment_bytes s' = in_segment_bytes s \<and>
     in_committed s' = in_committed s \<and> in_committed_generation s' = in_committed_generation s \<and>
     in_committed_file s' = in_committed_file s"

definition same_marks :: "Device \<Rightarrow> Device \<Rightarrow> bool" where
  "same_marks d d' \<longleftrightarrow>
     dv_last_purged d' = dv_last_purged d \<and> dv_slots d' = dv_slots d \<and> dv_committed d' = dv_committed d \<and>
     dv_entries d' = dv_entries d \<and> dv_vote d' = dv_vote d"

lemma same_refl [simp]: "same_rest s s" "same_marks d d"
  by (simp_all add: same_rest_def same_marks_def)

lemma same_trans: "same_rest s s1 \<Longrightarrow> same_rest s1 s2 \<Longrightarrow> same_rest s s2"
  "same_marks d d1 \<Longrightarrow> same_marks d1 d2 \<Longrightarrow> same_marks d d2"
  by (simp_all add: same_rest_def same_marks_def)

lemma same_rest_cutoff: "same_rest s s' \<Longrightarrow> cutoff s' = cutoff s"
  by (simp add: same_rest_def cutoff_def)

lemma exec_steps_simps [simp]:
  "exec_steps [] d = d" "exec_steps (s # ss) d = exec_steps ss (exec_step s d)"
  "exec_steps (ss @ ts) d = exec_steps ts (exec_steps ss d)"
  by (simp_all add: exec_steps_def)

lemma empty_entries_parts:
  assumes "chained ps" and "entries ps = []" and "ps \<noteq> []"
  obtains f where "ps = [(f, [])]"
proof -
  obtain p qs where ps: "ps = p # qs" using assms(3) by (cases ps) auto
  then have "snd p = []" "qs = []" using assms by (auto simp: chained_def)
  then show ?thesis using that [of "fst p"] ps by (cases p) simp
qed

lemma drop_leftover_rep:
  assumes r: "rep x s d ps" and j: "joined (cutoff s) ps" and c: "continues (cutoff s) (logged (cutoff s) ps) es"
    and D: "drop_leftover s (idx (hd es)) = (s1, ss1)"
  obtains ps1 where "rep x s1 (exec_steps ss1 d) ps1" "entries ps1 = entries ps"
    "ps1 = [] \<or> next_ix ps1 = unat (idx (hd es))"
    "same_rest s s1" "same_marks d (exec_steps ss1 d)" "ss1 = [] \<or> (\<exists>i. ss1 = [UnlinkSeg i])"
proof (cases "entries ps = [] \<and> ps \<noteq> [] \<and> fst (last ps) \<noteq> idx (hd es)")
  case True
  then obtain f where ps: "ps = [(f, [])]" using empty_entries_parts [OF repD(1) [OF r]] by blast
  then have "s1 = s\<lparr>in_segments := [], in_active := None\<rparr>" "ss1 = [UnlinkSeg f]"
    using D True repD(3) [OF r] by (auto simp: drop_leftover_def seg_of_def)
  moreover from this have "rep x s1 (exec_steps ss1 d) []"
    using r ps by (simp add: rep_def chained_def bm_remove_def cutoff_def purged_ok_def part_locs_def)
  ultimately show ?thesis using that [of "[]"] ps by (simp add: same_rest_def same_marks_def)
next
  case False
  have nx: "ps = [] \<or> next_ix ps = unat (idx (hd es))"
  proof (cases "entries ps = []")
    case True
    show ?thesis
    proof (rule disjCI)
      assume "next_ix ps \<noteq> unat (idx (hd es))"
      moreover have "next_ix ps = unat (idx (hd es))" if ne: "ps \<noteq> []"
      proof -
        obtain f where "ps = [(f, [])]" using empty_entries_parts [OF repD(1) [OF r] True ne] .
        then show ?thesis using True False by (simp add: next_ix_def)
      qed
      ultimately show "ps = []" by blast
    qed
  next
    case False
    then show ?thesis using continues_next [OF repD(1) [OF r] j c] by simp
  qed
  have "fst (last ps) = idx (hd es)" if "ps \<noteq> []" "snd (last ps) = []"
  proof -
    obtain qs p where ps: "ps = qs @ [p]" using \<open>ps \<noteq> []\<close> by (cases ps rule: rev_cases) auto
    then have "unat (fst p) = next_ix ps" using repD(1) [OF r] that(2) by (auto simp: chained_snoc next_ix_def)
    then show ?thesis using nx ps by (simp add: word_unat_eq_iff)
  qed
  then have "s1 = s \<and> ss1 = []" using D repD(3) [OF r]
    by (auto simp: drop_leftover_def seg_of_def last_map split: if_splits)
  then show ?thesis using that [of ps] r nx by simp
qed

lemma full_segment_nonempty:
  assumes "rep x s d (qs @ [p])" and "needs_segment s"
  shows "snd p \<noteq> []"
proof
  assume "snd p = []"
  then have "sg_len (last (in_segments s)) = SEGMENT_HEADER"
    using repD(3) [OF assms(1)] by (simp add: seg_of_def seg_file_def)
  then show False using assms(2) repD(3,5) [OF assms(1)] by (simp add: needs_segment_def)
qed

lemma chained_new:
  assumes "chained ps" and "ps \<noteq> [] \<Longrightarrow> snd (last ps) \<noteq> [] \<and> next_ix ps = unat f"
  shows "chained (ps @ [(f, [])])"
proof (cases ps rule: rev_cases)
  case (snoc qs p)
  then have "\<forall>q \<in> set ps. snd q \<noteq> []" using assms by (auto simp: chained_snoc)
  then show ?thesis using assms snoc unsigned_less [of f] unfolding chained_snoc [of ps] next_ix_def by simp
qed (use unsigned_less [of f] in \<open>simp add: chained_def\<close>)

lemma start_segment_rep:
  assumes r: "rep x s d ps" and nx: "ps \<noteq> [] \<Longrightarrow> snd (last ps) \<noteq> [] \<and> next_ix ps = unat f"
  shows "rep x (fst (start_segment s f)) (exec_steps (snd (start_segment s f)) d) (ps @ [(f, [])])"
proof -
  have ch: "chained (ps @ [(f, [])])" by (rule chained_new [OF repD(1) [OF r] nx])
  have "\<forall>p \<in> set ps. fst p < f" using chained_firsts [OF ch] by (auto simp: bs_ok_append)
  then have ins: "bm_insert f (segment_header f) (files (x_hash x) [] ps) = files (x_hash x) [] (ps @ [(f, [])])"
    by (simp add: insert_part files_snoc seg_file_def)
  show ?thesis using r ch ins
    by (simp add: rep_def start_segment_def bm_remove_def seg_of_def cutoff_def part_locs_def purged_ok_def seg_file_def)
qed

lemma write_entries_rep:
  assumes r: "rep x s d (qs @ [p])" and nx: "next_ix (qs @ [p]) = unat (idx (hd es))" and ne: "es \<noteq> []"
    and num: "numbered (unat (idx (hd es))) es" and fit: "unat (idx (hd es)) + length es < 2 ^ 64"
    and lv: "\<forall>e \<in> set es. live (cutoff s) (idx e)"
    and W: "write_entries (x_hash x) s es = (s', ss)"
  shows "ss = [WriteSeg (fst p) (length (seg_file (x_hash x) p)) (concat (map (encode_frame (x_hash x)) es))]"
    and "rep x s' (exec_steps ss d) (qs @ [(fst p, snd p @ es)])" and "same_rest s s'"
proof -
  let ?h = "x_hash x" and ?p = "(fst p, snd p @ es)"
  let ?locs = "snd (place_frames ?h (fst p) (length (seg_file ?h p)) es)"
  have target: "snd (active_file s) = fst p" and act: "fst (active_file s) = s\<lparr>in_active := Some (fst p)\<rparr>"
    using repD(3,6) [OF r] by (auto simp: active_file_def seg_of_def Let_def)
  have seg: "last (in_segments s) = seg_of ?h p" "butlast (in_segments s) = map (seg_of ?h) qs"
    using repD(3) [OF r] by (simp_all add: butlast_append)
  have W': "s' = s\<lparr>in_active := Some (fst p),
      in_segments := map (seg_of ?h) qs @ [(seg_of ?h p)\<lparr>sg_len := length (seg_file ?h p) + length (concat (map (encode_frame ?h) es)),
                                             sg_last_index := Some (idx (last es))\<rparr>],
      in_index := foldl (\<lambda>m (i, l). bm_insert i l m) (in_index s) ?locs\<rparr>"
    and ss: "ss = [WriteSeg (fst p) (length (seg_file ?h p)) (concat (map (encode_frame ?h) es))]"
    using W target act seg place_frames_bytes [of ?h "fst p" "length (seg_file ?h p)" es]
    by (auto simp: write_entries_def Let_def case_prod_beta seg_of_def)
  show "ss = [WriteSeg (fst p) (length (seg_file ?h p)) (concat (map (encode_frame ?h) es))]" by (rule ss)
  have ch: "chained (qs @ [?p])"
    using repD(1) [OF r] nx num fit unfolding chained_snoc
    by (auto simp: next_ix_def numbered_append add.assoc)
  have dist: "distinct (map fst (qs @ [p]))" by (rule chained_distinct [OF repD(1) [OF r]])
  have "part_locs ?h ?p = part_locs ?h p @ ?locs"
    by (simp add: part_locs_def place_frames_append seg_file_def)
  moreover have "filter (\<lambda>l. live (cutoff s) (fst l)) ?locs = ?locs"
  proof -
    have "fst l \<in> set (map idx es)" if "l \<in> set ?locs" for l
      using that place_frames_keys [of ?h "fst p" "length (seg_file ?h p)" es] by (metis image_eqI list.set_map)
    then show ?thesis using lv by (fastforce simp: filter_id_conv)
  qed
  ultimately have idxs: "index_of ?h (cutoff s) (qs @ [?p]) = index_of ?h (cutoff s) (qs @ [p]) @ ?locs"
    by simp
  have "bs_ok (map fst (index_of ?h (cutoff s) (qs @ [?p])))" using index_of_sorted [OF ch] by (simp add: bm_ok_def)
  then have "foldl (\<lambda>m (i, l). bm_insert i l m) (in_index s) ?locs = index_of ?h (cutoff s) (qs @ [?p])"
    unfolding idxs repD(4) [OF r] by (intro bm_insert_all) simp
  moreover have "(seg_of ?h p)\<lparr>sg_len := length (seg_file ?h p) + length (concat (map (encode_frame ?h) es)),
      sg_last_index := Some (idx (last es))\<rparr> = seg_of ?h ?p"
    using ne by (simp add: seg_of_def seg_file_append [of ?h "fst p" "snd p", simplified])
  moreover have "bm_update (fst p) (write_at (length (seg_file ?h p)) (concat (map (encode_frame ?h) es)))
      (files ?h [] (qs @ [p])) = files ?h [] (qs @ [?p])"
    unfolding update_last [OF dist] by (simp add: files_snoc seg_file_append [of ?h "fst p" "snd p", simplified])
  ultimately show "rep x s' (exec_steps ss d) (qs @ [?p])"
    using r ch unfolding W' ss by (simp add: rep_def cutoff_def purged_ok_def)
  show "same_rest s s'" unfolding W' by (simp add: same_rest_def)
qed

section \<open>The whole append, completed or interrupted\<close>

text \<open>The device of a store that has stopped: parts, perhaps followed by a torn frame.\<close>

definition disk_image :: "Extern \<Rightarrow> Device \<Rightarrow> LogId option \<Rightarrow> part list \<Rightarrow> bytes \<Rightarrow> bool" where
  "disk_image x d p ps junk \<longleftrightarrow>
     chained ps \<and> last_stuck (x_hash x) junk ps \<and> dv_segs d = files (x_hash x) junk ps \<and>
     dv_entries d = [] \<and> dv_committed d = None \<and> purged_ok x p d"

lemma image_rep: "rep x s d ps \<Longrightarrow> disk_image x d (in_last_purged s) ps []"
  by (simp add: disk_image_def rep_def last_stuck_def)

lemma image_segs:
  "disk_image x d p ps junk \<Longrightarrow> dv_segs d' = dv_segs d \<Longrightarrow> same_marks d d' \<Longrightarrow> disk_image x d' p ps junk"
  by (simp add: disk_image_def same_marks_def purged_ok_def)

inductive_cases crashed_NilE: "crashed [] d d'"
inductive_cases crashed_ConsE: "crashed (s # ss) d d'"
inductive_cases torn_unlinkE: "torn (UnlinkSeg i) d d'"
inductive_cases torn_publishE: "torn (PublishTmp i) d d'"
inductive_cases torn_tmpE: "torn (WriteTmp i bs) d d'"
inductive_cases torn_segE: "torn (WriteSeg i off bs) d d'"
inductive_cases torn_set_lenE: "torn (SetLenSeg i n) d d'"
inductive_cases torn_markerE: "torn (PutLastPurged bs) d d'"

lemma crashed_append: "crashed (as @ bs) d d' \<Longrightarrow> crashed as d d' \<or> crashed bs (exec_steps as d) d'"
proof (induction as arbitrary: d)
  case (Cons a as)
  then show ?case by (auto elim!: crashed_ConsE intro: crashed.intros)
qed (simp add: crashed.intros)

lemma crashed_unlink: "crashed [UnlinkSeg i] d d' \<Longrightarrow> d' = d \<or> d' = exec_steps [UnlinkSeg i] d"
  by (auto elim!: crashed_ConsE crashed_NilE torn_unlinkE)

lemma crashed_write:
  "crashed [WriteSeg i off bs] d d' \<Longrightarrow>
   d' = d \<or> d' = exec_steps [WriteSeg i off bs] d \<or>
   (\<exists>k. d' = d\<lparr>dv_segs := bm_update i (write_at off (take k bs)) (dv_segs d)\<rparr>)"
  by (auto elim!: crashed_ConsE crashed_NilE torn_segE)

lemma crashed_start:
  assumes "crashed (snd (start_segment s f)) d d'" and "dv_tmps d = []"
  shows "(dv_segs d' = dv_segs d \<and> same_marks d d') \<or> d' = exec_steps (snd (start_segment s f)) d"
  using assms
  by (auto simp: start_segment_def same_marks_def elim!: crashed_ConsE crashed_NilE torn_tmpE torn_publishE)

lemma take_frames:
  obtains j junk where "take k (concat (map (encode_frame h) es)) = concat (map (encode_frame h) (take j es)) @ junk"
    "junk = [] \<or> (\<exists>r. j < length es \<and> junk = take r (encode_frame h (es ! j)) \<and> r < length (encode_frame h (es ! j)))"
proof (induction es arbitrary: k thesis)
  case (Cons e es)
  show ?case
  proof (cases "k < length (encode_frame h e)")
    case True
    then show ?thesis by (intro Cons.prems [of 0 "take k (encode_frame h e)"]) auto
  next
    case False
    obtain j junk where j: "take (k - length (encode_frame h e)) (concat (map (encode_frame h) es)) =
        concat (map (encode_frame h) (take j es)) @ junk"
      "junk = [] \<or> (\<exists>r. j < length es \<and> junk = take r (encode_frame h (es ! j)) \<and> r < length (encode_frame h (es ! j)))"
      using Cons.IH [of "k - length (encode_frame h e)"] by blast
    then show ?thesis using False by (intro Cons.prems [of "Suc j" junk]) auto
  qed
qed auto

lemma torn_write_image:
  assumes r: "rep x s d (qs @ [p])" and nx: "next_ix (qs @ [p]) = unat (idx (hd es))"
    and num: "numbered (unat (idx (hd es))) es" and fit: "unat (idx (hd es)) + length es < 2 ^ 64"
    and d': "d' = d\<lparr>dv_segs := bm_update (fst p) (write_at (length (seg_file (x_hash x) p))
                (take k (concat (map (encode_frame (x_hash x)) es)))) (dv_segs d)\<rparr>"
  obtains j junk where "disk_image x d' (in_last_purged s) (qs @ [(fst p, snd p @ take j es)]) junk"
proof -
  let ?h = "x_hash x"
  obtain j junk where j: "take k (concat (map (encode_frame ?h) es)) = concat (map (encode_frame ?h) (take j es)) @ junk"
    and junk: "junk = [] \<or> (\<exists>r. j < length es \<and> junk = take r (encode_frame ?h (es ! j)) \<and> r < length (encode_frame ?h (es ! j)))"
    by (rule take_frames)
  let ?p = "(fst p, snd p @ take j es)"
  have "numbered (unat (idx (hd es))) (take j es)"
    using num numbered_append [of _ "take j es" "drop j es"] by simp
  moreover have "unat (idx (hd es)) + length (take j es) < 2 ^ 64" using fit by simp
  ultimately have ch: "chained (qs @ [?p])"
    using repD(1) [OF r] nx unfolding chained_snoc by (auto simp: next_ix_def numbered_append add.assoc)
  have "stuck ?h (seg_file ?h ?p @ junk) (length (seg_file ?h ?p)) n" if jne: "junk \<noteq> []" for n
  proof -
    obtain r where "j < length es" "junk = take r (encode_frame ?h (es ! j))" "r < length (encode_frame ?h (es ! j))"
      using junk jne by blast
    moreover from this have "fits (es ! j)" using numbered_range [OF num] nth_mem by blast
    ultimately show ?thesis by (simp add: stuck_def decode_torn_frame)
  qed
  then have st: "last_stuck ?h junk (qs @ [?p])" by (auto simp: last_stuck_def)
  have "dv_segs d' = files ?h junk (qs @ [?p])"
    unfolding d' repD(2) [OF r] j Device.simps update_last [OF chained_distinct [OF repD(1) [OF r]]]
    by (simp add: files_append seg_file_append [of ?h "fst p" "snd p", simplified])
  then show ?thesis using that [of j junk] ch st r d' by (simp add: disk_image_def rep_def purged_ok_def)
qed

lemma next_word:
  assumes "unat (a :: u64) = Suc (unat b)" shows "a = b + 1"
proof -
  have "word_of_nat (unat a) = (word_of_nat (Suc (unat b)) :: u64)" by (simp only: assms)
  then show ?thesis by simp
qed

lemma prepare_rep:
  assumes r: "rep x s d ps" and j: "joined (cutoff s) ps" and c: "continues (cutoff s) (logged (cutoff s) ps) es"
    and D: "drop_leftover s (idx (hd es)) = (s1, ss1)"
    and S: "(if needs_segment s1 then start_segment s1 (idx (hd es)) else (s1, [])) = (s2, ss2)"
  obtains ps2 where "rep x s2 (exec_steps (ss1 @ ss2) d) ps2" "ps2 \<noteq> []" "next_ix ps2 = unat (idx (hd es))"
    "entries ps2 = entries ps" "same_rest s s2"
    "\<And>d'. crashed (ss1 @ ss2) d d' \<Longrightarrow> \<exists>ps1. disk_image x d' (in_last_purged s) ps1 [] \<and> entries ps1 = entries ps"
proof -
  let ?f = "idx (hd es)"
  obtain ps1 where r1: "rep x s1 (exec_steps ss1 d) ps1" "entries ps1 = entries ps" "same_rest s s1"
      "same_marks d (exec_steps ss1 d)"
    and nx1: "ps1 = [] \<or> next_ix ps1 = unat ?f" and u1: "ss1 = [] \<or> (\<exists>i. ss1 = [UnlinkSeg i])"
    by (rule drop_leftover_rep [OF r j c D])
  have im: "disk_image x d (in_last_purged s) ps []" "disk_image x (exec_steps ss1 d) (in_last_purged s) ps1 []"
    using image_rep [OF r] image_rep [OF r1(1)] r1(3) by (simp_all add: same_rest_def)
  then have c1: "\<exists>ps1. disk_image x d' (in_last_purged s) ps1 [] \<and> entries ps1 = entries ps" if "crashed ss1 d d'" for d'
    using that u1 r1(2) crashed_unlink by (metis crashed_NilE)
  show ?thesis
  proof (cases "needs_segment s1")
    case False
    then have "s2 = s1" "ss2 = []" using S by simp_all
    moreover have "ps1 \<noteq> []" using False repD(3) [OF r1(1)] by (auto simp: needs_segment_def)
    ultimately show ?thesis using that [of ps1] r1 nx1 c1 by simp
  next
    case True
    have full: "snd (last ps1) \<noteq> [] \<and> next_ix ps1 = unat ?f" if "ps1 \<noteq> []"
      using nx1 full_segment_nonempty [OF _ True] that r1(1) append_butlast_last_id [of ps1] by metis
    have s2: "s2 = fst (start_segment s1 ?f)" "ss2 = snd (start_segment s1 ?f)" using S True by simp_all
    have r2: "rep x s2 (exec_steps ss2 (exec_steps ss1 d)) (ps1 @ [(?f, [])])"
      unfolding s2 by (rule start_segment_rep [OF r1(1) full])
    have rest: "same_rest s s2" using r1(3) by (simp add: s2 start_segment_def same_rest_def)
    have "\<exists>ps1. disk_image x d' (in_last_purged s) ps1 [] \<and> entries ps1 = entries ps" if "crashed ss2 (exec_steps ss1 d) d'" for d'
      using crashed_start [OF that [unfolded s2] repD(8) [OF r1(1)]] image_segs [OF im(2)] r1(2)
        image_rep [OF r2] rest by (auto simp: s2 same_rest_def)
    then have "\<exists>ps1. disk_image x d' (in_last_purged s) ps1 [] \<and> entries ps1 = entries ps" if "crashed (ss1 @ ss2) d d'" for d'
      using crashed_append [OF that] c1 by blast
    then show ?thesis using that [of "ps1 @ [(?f, [])]"] r2 r1(2) rest full
      by (cases "ps1 = []") (auto simp: next_ix_def)
  qed
qed

text \<open>
  An append under the caller's contract succeeds, adds exactly its entries, and a crash at any
  point of it leaves the old log followed by some of them.
\<close>

lemma append_guard:
  assumes "rep x s d ps" and "continues (cutoff s) (logged (cutoff s) ps) es"
  shows "\<not> (in_index s \<noteq> [] \<and> idx (hd es) \<noteq> fst (last (in_index s)) + 1)"
proof (cases "logged (cutoff s) ps = []")
  case True
  then show ?thesis using repD(4) [OF assms(1)] by (simp add: index_Nil_iff)
next
  case False
  then have "fst (last (in_index s)) = idx (last (logged (cutoff s) ps))"
    using index_of_last repD(4) [OF assms(1)] by (simp add: index_Nil_iff logged_def)
  then show ?thesis using False assms(2) by (simp add: continues_def next_word)
qed

lemma append_rep:
  assumes r: "rep x s d ps" and j: "joined (cutoff s) ps" and c: "continues (cutoff s) (logged (cutoff s) ps) es"
  obtains s' ss ps' where "fs_append (x_hash x) s es = Inr (s', ss)" "rep x s' (exec_steps ss d) ps'"
    "entries ps' = entries ps @ es" "same_rest s s'"
    "\<And>d'. crashed ss d d' \<Longrightarrow>
       \<exists>ps1 junk k. disk_image x d' (in_last_purged s) ps1 junk \<and> entries ps1 = entries ps @ take k es"
proof -
  let ?h = "x_hash x" and ?f = "idx (hd es)"
  have es: "es \<noteq> []" "numbered (unat ?f) es" "unat ?f + length es < 2 ^ 64"
    and lv: "\<forall>e \<in> set es. live (cutoff s) (idx e)"
    using c continues_live [OF c] by (auto simp: continues_def)
  obtain s1 ss1 where D: "drop_leftover s ?f = (s1, ss1)" by fastforce
  obtain s2 ss2 where S: "(if needs_segment s1 then start_segment s1 ?f else (s1, [])) = (s2, ss2)" by fastforce
  obtain ps2 where r2: "rep x s2 (exec_steps (ss1 @ ss2) d) ps2" "ps2 \<noteq> []" "next_ix ps2 = unat ?f"
      "entries ps2 = entries ps" "same_rest s s2"
    and c2: "\<And>d'. crashed (ss1 @ ss2) d d' \<Longrightarrow> \<exists>ps1. disk_image x d' (in_last_purged s) ps1 [] \<and> entries ps1 = entries ps"
    using prepare_rep [OF r j c D S] by blast
  obtain qs p where ps2: "ps2 = qs @ [p]" using r2(2) by (cases ps2 rule: rev_cases) auto
  obtain s3 ss3 where W: "write_entries ?h s2 es = (s3, ss3)" by fastforce
  have lv2: "\<forall>e \<in> set es. live (cutoff s2) (idx e)" using lv same_rest_cutoff [OF r2(5)] by simp
  note w = write_entries_rep [OF r2(1) [unfolded ps2] r2(3) [unfolded ps2] es lv2 W]
  have A: "fs_append ?h s es = Inr (s3, (ss1 @ ss2) @ ss3)"
    using append_guard [OF r c] D S W es(1) by (cases es) (auto simp: fs_append_def Let_def)
  let ?d2 = "exec_steps (ss1 @ ss2) d"
  have lp: "in_last_purged s2 = in_last_purged s" "in_last_purged s3 = in_last_purged s"
    using r2(5) w(3) by (simp_all add: same_rest_def)
  have c3: "\<exists>ps' junk k. disk_image x d' (in_last_purged s) ps' junk \<and> entries ps' = entries ps @ take k es"
    if cr: "crashed ss3 ?d2 d'" for d'
  proof -
    consider "d' = ?d2" | "d' = exec_steps ss3 ?d2"
      | k where "d' = ?d2\<lparr>dv_segs := bm_update (fst p) (write_at (length (seg_file ?h p))
          (take k (concat (map (encode_frame ?h) es)))) (dv_segs ?d2)\<rparr>"
      using crashed_write [OF cr [unfolded w(1)]] w(1) by blast
    then show ?thesis
    proof cases
      case 1
      then show ?thesis using image_rep [OF r2(1)] r2(4) lp by (metis append_Nil2 take_0)
    next
      case 2
      then have "disk_image x d' (in_last_purged s) (qs @ [(fst p, snd p @ es)]) []"
        using image_rep [OF w(2)] lp by simp
      moreover have "entries (qs @ [(fst p, snd p @ es)]) = entries ps @ take (length es) es" using r2(4) ps2 by simp
      ultimately show ?thesis by blast
    next
      case (3 k)
      obtain k' junk where "disk_image x d' (in_last_purged s2) (qs @ [(fst p, snd p @ take k' es)]) junk"
        using torn_write_image [OF r2(1) [unfolded ps2] r2(3) [unfolded ps2] es(2,3) 3] .
      moreover have "entries (qs @ [(fst p, snd p @ take k' es)]) = entries ps @ take k' es" using r2(4) ps2 by simp
      ultimately show ?thesis using lp by metis
    qed
  qed
  have crash: "\<exists>ps' junk k. disk_image x d' (in_last_purged s) ps' junk \<and> entries ps' = entries ps @ take k es"
    if "crashed ((ss1 @ ss2) @ ss3) d d'" for d'
    using crashed_append [OF that] c2 c3 by (metis append_Nil2 take_0)
  show ?thesis
    using that [OF A, of "qs @ [(fst p, snd p @ es)]"] w r2 ps2 crash same_trans(1) by simp
qed

end
