(* ===== verification/Fs_Cut.thy ===== *)
theory Fs_Cut
  imports Fs_Append "HOL-Library.Sublist"
begin

text \<open>
  Truncating the end of the log and purging its beginning.  Both unlink whole segments one at a
  time, newest first and oldest first, so that what is on the device is a contiguous log at every
  point where the node can stop.
\<close>

section \<open>Splitting parts\<close>

lemma chained_split: "chained (as @ bs) \<Longrightarrow> chained as \<and> chained bs"
proof (cases "as = [] \<or> bs = []")
  case False
  assume "chained (as @ bs)"
  then have "chain (unat (fst (hd as))) as" "chain (unat (fst (hd as)) + length (entries as)) bs"
    using False by (auto simp: chained_def chain_append)
  moreover from this(2) have "unat (fst (hd as)) + length (entries as) = unat (fst (hd bs))"
    using False by (cases bs) auto
  ultimately show ?thesis using False by (simp add: chained_def)
qed (auto simp: chained_def)

lemma chained_prefix: "chained (as @ bs) \<Longrightarrow> chained as"
  and chained_suffix: "chained (as @ bs) \<Longrightarrow> chained bs"
  using chained_split by blast+

lemma place_frames_split:
  assumes "(i, l) \<in> set (snd (place_frames h f off es))"
  obtains xs e ys where "es = xs @ e # ys" "i = idx e" "lo_segment l = f"
    "lo_offset l = off + length (concat (map (encode_frame h) xs))"
  using assms
proof (induction es arbitrary: off thesis)
  case (Cons e es)
  show ?case
  proof (cases "(i, l) \<in> set (snd (place_frames h f (off + length (encode_frame h e)) es))")
    case True
    obtain xs e' ys where "es = xs @ e' # ys" "i = idx e'" "lo_segment l = f"
      "lo_offset l = off + length (encode_frame h e) + length (concat (map (encode_frame h) xs))"
      using Cons.IH [OF _ True] by blast
    then show ?thesis by (intro Cons.prems(1) [of "e # xs"]) auto
  next
    case False
    then show ?thesis using Cons.prems(2)
      by (intro Cons.prems(1) [of "[]"]) (auto simp: place_frames_Cons simp del: place_frames.simps(2))
  qed
qed simp

lemma index_split:
  assumes "(i, l) \<in> set (index_of h co ps)"
  obtains as f xs e ys bs where "ps = as @ (f, xs @ e # ys) # bs" "i = idx e" "live co i" "lo_segment l = f"
    "lo_offset l = SEGMENT_HEADER + length (concat (map (encode_frame h) xs))"
proof -
  obtain p where p: "p \<in> set ps" "(i, l) \<in> set (part_locs h p)" "live co i"
    using assms by (auto simp: index_of_def)
  obtain as bs where ps: "ps = as @ p # bs" using split_list [OF p(1)] by blast
  obtain xs e ys where "snd p = xs @ e # ys" "i = idx e" "lo_segment l = fst p"
    "lo_offset l = SEGMENT_HEADER + length (concat (map (encode_frame h) xs))"
    using place_frames_split [OF p(2) [unfolded part_locs_def]] by blast
  then show ?thesis using that [of as "fst p" xs e ys bs] ps p(3) by (cases p) simp
qed

section \<open>Unlinking segments\<close>

abbreviation unlinks :: "part list \<Rightarrow> DeviceStep list" where
  "unlinks ps \<equiv> map (\<lambda>p. UnlinkSeg (fst p)) ps"

lemma crashed_unlinks:
  "crashed (unlinks ps) d d' \<Longrightarrow> \<exists>as bs. ps = as @ bs \<and> d' = exec_steps (unlinks as) d"
proof (induction ps arbitrary: d)
  case Nil
  then have "d' = d" by (auto elim: crashed.cases)
  then show ?case by simp
next
  case (Cons p ps)
  from Cons.prems consider "d' = d" | "crashed (unlinks ps) (exec_step (UnlinkSeg (fst p)) d) d'"
    by (auto elim!: crashed_ConsE torn_unlinkE)
  then show ?case
  proof cases
    case 1
    then have "p # ps = [] @ p # ps \<and> d' = exec_steps (unlinks []) d" by simp
    then show ?thesis by blast
  next
    case 2
    then obtain as bs where "ps = as @ bs" "d' = exec_steps (unlinks as) (exec_step (UnlinkSeg (fst p)) d)"
      using Cons.IH by blast
    then show ?thesis by (intro exI [of _ "p # as"] exI [of _ bs]) simp
  qed
qed

lemma unlinks_marks:
  "same_marks d (exec_steps (unlinks ps) d)" "dv_tmps (exec_steps (unlinks ps) d) = dv_tmps d"
  "dv_entries (exec_steps (unlinks ps) d) = dv_entries d" "dv_committed (exec_steps (unlinks ps) d) = dv_committed d"
  "dv_last_purged (exec_steps (unlinks ps) d) = dv_last_purged d"
  by (induction ps arbitrary: d) (auto simp: same_marks_def)

text \<open>Newest first, and oldest first.\<close>

lemma unlink_newest:
  "distinct (map fst (as @ bs)) \<Longrightarrow> dv_segs d = files h [] (as @ bs) \<Longrightarrow>
   dv_segs (exec_steps (unlinks (rev bs)) d) = files h [] as"
proof (induction bs arbitrary: d rule: rev_induct)
  case (snoc b bs)
  have "dv_segs (exec_step (UnlinkSeg (fst b)) d) = files h [] (as @ bs)"
    using remove_last [of "as @ bs" b h "[]"] snoc.prems by simp
  then show ?case using snoc.IH [of "exec_step (UnlinkSeg (fst b)) d"] snoc.prems(1) by simp
qed simp

lemma unlink_oldest:
  "distinct (map fst (as @ bs)) \<Longrightarrow> dv_segs d = files h [] (as @ bs) \<Longrightarrow>
   dv_segs (exec_steps (unlinks as) d) = files h [] bs"
proof (induction as arbitrary: d)
  case (Cons a as)
  have "dv_segs (exec_step (UnlinkSeg (fst a)) d) = files h [] (as @ bs)"
    using remove_first [of a "as @ bs" h "[]"] Cons.prems by simp
  then show ?case using Cons.IH [of "exec_step (UnlinkSeg (fst a)) d"] Cons.prems(1) by simp
qed simp

lemma seg_first [simp]: "sg_first_index (seg_of h p) = fst p"
  by (simp add: seg_of_def)

lemma while_split:
  assumes "\<forall>x \<in> set xs. P x" and "\<not> P y"
  shows "takeWhile P (xs @ y # ys) = xs" "dropWhile P (xs @ y # ys) = y # ys"
  using assms by (induction xs) auto

lemma takeWhile_newer:
  assumes "chained (as @ p # bs)"
  shows "takeWhile (\<lambda>g. sg_first_index g > fst p) (rev (map (seg_of h) (as @ p # bs))) = map (seg_of h) (rev bs)"
    "dropWhile (\<lambda>g. sg_first_index g > fst p) (rev (map (seg_of h) (as @ p # bs))) = map (seg_of h) (p # rev as)"
proof -
  have "\<forall>b \<in> set bs. fst p < fst b" using chained_firsts [OF assms] by (auto simp: bs_ok_append)
  then have *: "\<forall>g \<in> set (map (seg_of h) (rev bs)). sg_first_index g > fst p" by auto
  have r: "rev (map (seg_of h) (as @ p # bs)) = map (seg_of h) (rev bs) @ seg_of h p # map (seg_of h) (rev as)"
    by (simp add: rev_map)
  show "takeWhile (\<lambda>g. sg_first_index g > fst p) (rev (map (seg_of h) (as @ p # bs))) = map (seg_of h) (rev bs)"
    "dropWhile (\<lambda>g. sg_first_index g > fst p) (rev (map (seg_of h) (as @ p # bs))) = map (seg_of h) (p # rev as)"
    unfolding r using while_split [OF *, of "seg_of h p"] by simp_all
qed

section \<open>Truncation\<close>

lemma truncate_noop:
  assumes r: "rep x s d ps"
    and L: "logged (cutoff s) ps = [] \<or> idx (last (logged (cutoff s) ps)) < from"
  shows "fs_truncate_from s from = (s, [])" "filter (\<lambda>e. idx e < from) (logged (cutoff s) ps) = logged (cutoff s) ps"
proof -
  let ?L = "logged (cutoff s) ps"
  show "fs_truncate_from s from = (s, [])"
    using L index_of_last [of "x_hash x" "cutoff s" ps] repD(4) [OF r]
    by (auto simp: fs_truncate_from_def index_Nil_iff logged_def)
  have "idx e < from" if "e \<in> set ?L" for e
  proof -
    have "idx e \<le> idx (last (entries ps))"
      using that numbered_le_last chained_numbered [OF repD(1) [OF r]] by (cases "ps = []") (auto simp: logged_def)
    moreover have "?L \<noteq> []" using that by auto
    ultimately show ?thesis using L logged_last(2) [OF repD(1) [OF r]] by auto
  qed
  then show "filter (\<lambda>e. idx e < from) ?L = ?L" by (simp add: filter_id_conv)
qed

text \<open>The two ends of a truncation: the segment with the cut goes, or it is shortened.\<close>

lemma truncate_steps:
  assumes r: "rep x s d (as @ (f, xs @ zs) # bs)" and act: "\<not> (in_index s = [] \<or> fst (last (in_index s)) < from)"
    and tp: "truncation_point s from = (f, SEGMENT_HEADER + length (concat (map (encode_frame (x_hash x)) xs)))"
    and T: "fs_truncate_from s from = (s', ss)"
  shows "s' = s\<lparr>in_active := (if xs = [] then None else Some f),
                in_segments := map (seg_of (x_hash x)) as @
                  (if xs = [] then []
                   else [(seg_of (x_hash x) (f, xs @ zs))\<lparr>sg_len := length (seg_file (x_hash x) (f, xs)), sg_last_index := Some (from - 1)\<rparr>]),
                in_index := filter (\<lambda>(i, _). i < from) (in_index s)\<rparr>"
    and "ss = unlinks (rev bs) @ [if xs = [] then UnlinkSeg f else SetLenSeg f (length (seg_file (x_hash x) (f, xs)))]"
proof -
  let ?h = "x_hash x" and ?p = "(f, xs @ zs)"
  note w = takeWhile_newer [of as ?p bs ?h, OF repD(1) [OF r], simplified]
  have segs: "in_segments s = map (seg_of ?h) (as @ ?p # bs)" using repD(3) [OF r] by simp
  have off: "SEGMENT_HEADER + length (concat (map (encode_frame ?h) xs)) = SEGMENT_HEADER \<longleftrightarrow> xs = []"
    using frame_len_pos [of ?h] by (cases xs) auto
  have len: "SEGMENT_HEADER + length (concat (map (encode_frame ?h) xs)) = length (seg_file ?h (f, xs))"
    by (simp add: seg_file_def)
  show "s' = s\<lparr>in_active := (if xs = [] then None else Some f),
                in_segments := map (seg_of ?h) as @
                  (if xs = [] then []
                   else [(seg_of ?h ?p)\<lparr>sg_len := length (seg_file ?h (f, xs)), sg_last_index := Some (from - 1)\<rparr>]),
                in_index := filter (\<lambda>(i, _). i < from) (in_index s)\<rparr>"
    and "ss = unlinks (rev bs) @ [if xs = [] then UnlinkSeg f else SetLenSeg f (length (seg_file ?h (f, xs)))]"
    using T act w off len
    by (auto simp: fs_truncate_from_def tp segs active_file_def Let_def comp_def rev_map split: if_splits)
qed

text \<open>The entry at which the log is cut.\<close>

definition cut_at :: "u64 option \<Rightarrow> u64 \<Rightarrow> part list \<Rightarrow> u64 \<Rightarrow> LogEntry list \<Rightarrow> LogEntry \<Rightarrow> bool" where
  "cut_at co from as f xs e \<longleftrightarrow> live co (idx e) \<and> (idx e = from \<or> from < idx e \<and> as = [] \<and> xs = [])"

lemma numbered_find: "numbered n es \<Longrightarrow> n \<le> unat i \<Longrightarrow> unat i < n + length es \<Longrightarrow> \<exists>e \<in> set es. idx e = i"
proof (induction es arbitrary: n)
  case (Cons e es)
  then show ?case by (cases "unat i = n") (auto simp: word_unat_eq_iff)
qed simp

lemma first_live_prefix:
  assumes num: "numbered n (E @ e # R)" and lv: "live co from" and below: "from < idx e"
    and first: "idx (hd (filter (\<lambda>e. live co (idx e)) (E @ e # R))) = idx e"
  shows "E = []"
proof (rule ccontr)
  assume ne: "E \<noteq> []"
  have b: "Suc (unat (idx (last E))) = unat (idx e)"
    using num numbered_last [OF _ ne] unfolding numbered_append by auto
  have "live co (idx (last E))"
    using lv by (rule live_up) (use b below in \<open>auto simp: word_less_nat_alt word_le_nat_alt\<close>)
  then have pre: "filter (\<lambda>e. live co (idx e)) E \<noteq> []" using last_in_set [OF ne] by (auto simp: filter_empty_conv)
  then have "hd (filter (\<lambda>e. live co (idx e)) (E @ e # R)) \<in> set E" using hd_in_set [OF pre] by auto
  then show False using num first numbered_range [of n E] unfolding numbered_append by fastforce
qed

lemma truncation_split:
  assumes r: "rep x s d ps" and lv: "live (cutoff s) from"
    and act: "\<not> (in_index s = [] \<or> fst (last (in_index s)) < from)"
  obtains as f xs e ys bs where "ps = as @ (f, xs @ e # ys) # bs" "cut_at (cutoff s) from as f xs e"
    "truncation_point s from = (f, SEGMENT_HEADER + length (concat (map (encode_frame (x_hash x)) xs)))"
proof (cases "map_of (in_index s) from")
  case (Some loc)
  then have "(from, loc) \<in> set (index_of (x_hash x) (cutoff s) ps)" using repD(4) [OF r] by (auto dest: map_of_SomeD)
  then obtain as f xs e ys bs where "ps = as @ (f, xs @ e # ys) # bs" "from = idx e" "lo_segment loc = f"
    "lo_offset loc = SEGMENT_HEADER + length (concat (map (encode_frame (x_hash x)) xs))"
    by (rule index_split)
  then show ?thesis using that [of as f xs e ys bs] lv Some by (simp add: cut_at_def truncation_point_def)
next
  case None
  let ?L = "logged (cutoff s) ps" and ?l = "hd (in_index s)"
  have L: "?L \<noteq> []" using act repD(4) [OF r] by (simp add: index_Nil_iff)
  then have "ps \<noteq> []" by auto
  then have num: "numbered (unat (fst (hd ps))) (entries ps)" by (rule chained_numbered [OF repD(1) [OF r]])
  have "(fst ?l, snd ?l) \<in> set (index_of (x_hash x) (cutoff s) ps)" using act repD(4) [OF r] by simp
  then obtain as f xs e ys bs where ps: "ps = as @ (f, xs @ e # ys) # bs" and e: "fst ?l = idx e" "live (cutoff s) (idx e)"
    "lo_segment (snd ?l) = f" "lo_offset (snd ?l) = SEGMENT_HEADER + length (concat (map (encode_frame (x_hash x)) xs))"
    by (metis index_split)
  have keys: "map fst (in_index s) = map idx ?L" using index_of_keys repD(4) [OF r] by (simp add: logged_def)
  have notin: "from \<notin> idx ` set ?L" using None arg_cong [OF keys, of set] by (simp add: map_of_eq_None_iff)
  have below: "from < idx e"
  proof (rule ccontr)
    assume "\<not> from < idx e"
    then have "idx e \<le> from" "from \<le> idx (last (entries ps))"
      using act keys L logged_last [OF repD(1) [OF r] L] last_map [of "in_index s" fst] last_map [OF L, of idx] by auto
    then have "unat (fst (hd ps)) \<le> unat from" "unat from < unat (fst (hd ps)) + length (entries ps)"
      using numbered_range [OF num, of e] numbered_range [OF num, of "last (entries ps)"]
        last_in_set [OF logged_last(1) [OF repD(1) [OF r] L]] ps by (auto simp: word_le_nat_alt)
    then obtain e' where "e' \<in> set (entries ps)" "idx e' = from" using numbered_find [OF num] by blast
    then show False using notin lv by (force simp: logged_def)
  qed
  have E: "entries ps = (entries as @ xs) @ e # ys @ entries bs" using ps by simp
  have "idx (hd ?L) = idx e" using keys e(1) act L by (metis hd_map map_is_Nil_conv)
  then have "entries as @ xs = []"
    using first_live_prefix [OF num [unfolded E] lv below] by (simp add: logged_def E)
  moreover have "as = []" using calculation repD(1) [OF r] ps by (cases as) (auto simp: chained_def)
  ultimately show ?thesis using that [of as f xs e ys bs] ps e below None
    by (simp add: cut_at_def truncation_point_def)
qed

lemma cut_entries:
  assumes num: "numbered n (E @ e # R)" and at: "idx e = from \<or> from < idx e \<and> E = []"
  shows "\<forall>e' \<in> set E. idx e' < from" "\<forall>e' \<in> set (e # R). from \<le> idx e'"
proof -
  have "numbered n E" "numbered (n + length E) (e # R)" using num by (simp_all add: numbered_append)
  then have "\<forall>e' \<in> set E. idx e' < idx e" "\<forall>e' \<in> set (e # R). idx e \<le> idx e'"
    using numbered_range [of n E] numbered_range [of "n + length E" "e # R"]
    by (fastforce simp: word_less_nat_alt, fastforce simp: word_le_nat_alt)
  then show "\<forall>e' \<in> set E. idx e' < from" "\<forall>e' \<in> set (e # R). from \<le> idx e'" using at by auto
qed

lemma filter_keys_below:
  assumes "map fst ls = map idx E" and "map fst rs = map idx R"
    and "\<forall>e \<in> set E. idx e < from" and "\<forall>e \<in> set R. from \<le> idx e"
  shows "filter (\<lambda>l. fst l < from) (ls @ rs) = ls"
proof -
  have "\<forall>l \<in> set ls. fst l < from" using assms(3) arg_cong [OF assms(1), of set] by (metis (mono_tags, lifting) imageE image_eqI list.set_map)
  moreover have "\<forall>l \<in> set rs. \<not> fst l < from"
    using assms(4) arg_cong [OF assms(2), of set] by (metis (mono_tags, lifting) imageE image_eqI list.set_map not_less)
  ultimately show ?thesis by (simp add: filter_id_conv filter_empty_conv)
qed

text \<open>The parts that a truncation keeps.\<close>

abbreviation kept_parts :: "part list \<Rightarrow> u64 \<Rightarrow> LogEntry list \<Rightarrow> part list" where
  "kept_parts as f xs \<equiv> as @ (if xs = [] then [] else [(f, xs)])"

lemma chained_kept:
  assumes "chained (as @ (f, xs @ zs) # bs)" shows "chained (kept_parts as f xs)"
proof -
  have c: "chained (as @ [(f, xs @ zs)])" using chained_prefix [of "as @ [(f, xs @ zs)]" bs] assms by simp
  then have "chained as" by (rule chained_butlast)
  moreover have "chained (as @ [(f, xs)])" using c unfolding chained_snoc by (auto simp: numbered_append)
  ultimately show ?thesis by simp
qed

lemma truncate_index:
  assumes ch: "chained (as @ (f, xs @ e # ys) # bs)" and at: "cut_at co from as f xs e"
  shows "filter (\<lambda>(i, _). i < from) (index_of h co (as @ (f, xs @ e # ys) # bs)) = index_of h co (kept_parts as f xs)"
    "filter (\<lambda>e. idx e < from) (logged co (as @ (f, xs @ e # ys) # bs)) = logged co (kept_parts as f xs)"
proof -
  let ?E = "entries as @ xs" and ?R = "ys @ entries bs" and ?lv = "\<lambda>l. live co (fst l)"
  have num: "numbered (unat (fst (hd (as @ (f, xs @ e # ys) # bs)))) (?E @ e # ?R)"
    using chained_numbered [OF ch] by simp
  have "idx e = from \<or> from < idx e \<and> ?E = []" using at by (auto simp: cut_at_def)
  note E = cut_entries [OF num this]
  define locs where "locs = snd (place_frames h f (SEGMENT_HEADER + length (concat (map (encode_frame h) xs))) (e # ys))"
  have pl: "part_locs h (f, xs @ e # ys) = part_locs h (f, xs) @ locs"
    by (simp add: part_locs_def place_frames_append locs_def)
  have i: "index_of h co (as @ (f, xs @ e # ys) # bs) =
      index_of h co (as @ [(f, xs)]) @ filter ?lv locs @ index_of h co bs"
    by (simp add: pl)
  have k1: "map fst (index_of h co (as @ [(f, xs)])) = map idx (filter (\<lambda>e. live co (idx e)) ?E)"
    by (simp only: index_of_keys) simp
  have "map fst locs = map idx (e # ys)" by (simp add: locs_def del: place_frames.simps(2))
  then have k2: "map fst (filter ?lv locs @ index_of h co bs) = map idx (filter (\<lambda>e. live co (idx e)) (e # ?R))"
    by (simp only: map_append index_of_keys filter_keys append_Cons filter_append list.map) (simp add: filter_keys [of fst locs idx "e # ys"])
  have "filter (\<lambda>l. fst l < from) (index_of h co (as @ (f, xs @ e # ys) # bs)) = index_of h co (as @ [(f, xs)])"
    unfolding i by (rule filter_keys_below [OF k1 k2]) (use E in auto)
  moreover have "index_of h co (as @ [(f, [])]) = index_of h co as" by (simp add: part_locs_def)
  ultimately show "filter (\<lambda>(i, _). i < from) (index_of h co (as @ (f, xs @ e # ys) # bs)) = index_of h co (kept_parts as f xs)"
    by (cases "xs = []") (simp_all add: case_prod_unfold)
  show "filter (\<lambda>e. idx e < from) (logged co (as @ (f, xs @ e # ys) # bs)) = logged co (kept_parts as f xs)"
  proof -
    have L: "logged co (as @ (f, xs @ e # ys) # bs) =
        filter (\<lambda>e. live co (idx e)) ?E @ filter (\<lambda>e. live co (idx e)) (e # ?R)"
      by (simp add: logged_def)
    have "filter (\<lambda>e. idx e < from) (filter (\<lambda>e. live co (idx e)) ?E) = filter (\<lambda>e. live co (idx e)) ?E"
      by (rule filter_True) (use E in auto)
    moreover have "filter (\<lambda>e. idx e < from) (filter (\<lambda>e. live co (idx e)) (e # ?R)) = []"
      by (rule filter_False) (use E(2) in \<open>auto simp: not_less\<close>)
    ultimately show ?thesis unfolding L filter_append [of "\<lambda>e. idx e < from"] by (simp add: logged_def)
  qed
qed

lemma cut_last:
  assumes ch: "chained (as @ (f, xs @ e # ys) # bs)" and at: "cut_at co from as f xs e" and "xs \<noteq> []"
  shows "idx (last xs) = from - 1"
proof -
  have "numbered (unat f) (xs @ e # ys)" using chained_suffix [OF ch] by (simp add: chained_def)
  then have "Suc (unat (idx (last xs))) = unat (idx e)" using numbered_last assms(3) unfolding numbered_append by auto
  then have "idx e = idx (last xs) + 1" by (intro next_word) simp
  then have "idx e - 1 = idx (last xs)" by simp
  then show ?thesis using at assms(3) by (auto simp: cut_at_def)
qed

lemma cut_joined:
  assumes ch: "chained (as @ (f, xs @ e # ys) # bs)" and at: "cut_at co from as f xs e" and lv: "live co from"
  shows "joined co (kept_parts as f xs)"
proof -
  let ?E = "entries as @ xs"
  have E: "entries (kept_parts as f xs) = ?E" by simp
  have "co = Some (idx (last ?E))" if L: "filter (\<lambda>e. live co (idx e)) ?E = []" and ne: "?E \<noteq> []"
  proof -
    have num: "numbered (unat (fst (hd (as @ (f, xs @ e # ys) # bs)))) (?E @ e # ys @ entries bs)"
      using chained_numbered [OF ch] by simp
    have "from = idx e" using at ne by (auto simp: cut_at_def)
    moreover have "Suc (unat (idx (last ?E))) = unat (idx e)"
      using num numbered_last [OF _ ne] unfolding numbered_append by auto
    moreover have "\<not> live co (idx (last ?E))" using L last_in_set [OF ne] by (auto simp: filter_empty_conv)
    ultimately show ?thesis using lv
      by (auto simp: live_def word_less_nat_alt word_unat_eq_iff split: option.splits)
  qed
  then show ?thesis unfolding joined_def logged_def E by blast
qed

lemma truncate_device:
  assumes r: "rep x s d (as @ (f, xs @ e # ys) # bs)"
    and ss: "ss = unlinks (rev bs) @ [if xs = [] then UnlinkSeg f else SetLenSeg f (length (seg_file (x_hash x) (f, xs)))]"
  shows "dv_segs (exec_steps ss d) = files (x_hash x) [] (kept_parts as f xs)"
    "same_marks d (exec_steps ss d)" "dv_tmps (exec_steps ss d) = []"
proof -
  let ?h = "x_hash x" and ?p = "(f, xs @ e # ys)" and ?d = "exec_steps (unlinks (rev bs)) d"
  have dist: "distinct (map fst ((as @ [?p]) @ bs))" using chained_distinct [OF repD(1) [OF r]] by simp
  have segs: "dv_segs ?d = files ?h [] (as @ [?p])"
    using unlink_newest [OF dist, of d ?h] repD(2) [OF r] by simp
  have dist': "distinct (map fst (as @ [?p]))" using dist by simp
  have "seg_file ?h ?p = seg_file ?h (f, xs) @ concat (map (encode_frame ?h) (e # ys))" by (rule seg_file_append)
  then have "set_len (length (seg_file ?h (f, xs))) (seg_file ?h ?p) = seg_file ?h (f, xs)" by simp
  then show "dv_segs (exec_steps ss d) = files ?h [] (kept_parts as f xs)"
    using segs remove_last [OF dist', of ?h "[]"] update_last [OF dist', of "set_len (length (seg_file ?h (f, xs)))" ?h "[]"]
    by (cases "xs = []") (simp_all add: ss files_snoc del: map_append)
  show "same_marks d (exec_steps ss d)" "dv_tmps (exec_steps ss d) = []"
    using unlinks_marks [where d = d and ps = "rev bs"] repD(8) [OF r] by (simp_all add: ss same_marks_def)
qed

text \<open>A device on which the newest of some parts are gone.\<close>

lemma image_prefix:
  assumes r: "rep x s d (as @ bs)" and d': "d' = exec_steps (unlinks (rev bs)) d"
  shows "disk_image x d' (in_last_purged s) as []"
proof -
  have "dv_segs d' = files (x_hash x) [] as"
    unfolding d' by (rule unlink_newest [OF chained_distinct [OF repD(1) [OF r]] repD(2) [OF r]])
  then show ?thesis
    using r chained_prefix [OF repD(1) [OF r]] unlinks_marks(3-5) [where d = d and ps = "rev bs"]
    by (simp add: disk_image_def rep_def last_stuck_def purged_ok_def d')
qed

lemma logged_prefix: "\<exists>k \<ge> length (logged co as). logged co as = take k (logged co (as @ bs))"
  by (intro exI [of _ "length (logged co as)"]) simp

lemma truncate_crash:
  assumes r: "rep x s d (as @ p # bs)" and cr: "crashed (unlinks (rev bs) @ [u]) d d'"
    and u: "\<And>d1 d2. \<not> torn u d1 d2"
  obtains cs where "prefix cs bs" "d' = exec_steps (unlinks (rev (drop (length cs) bs))) d"
    | "d' = exec_steps (unlinks (rev bs) @ [u]) d"
  using crashed_append [OF cr]
proof
  assume "crashed (unlinks (rev bs)) d d'"
  then obtain ds cs where rb: "rev bs = ds @ cs" "d' = exec_steps (unlinks ds) d" using crashed_unlinks by blast
  then have "bs = rev cs @ rev ds" by (metis rev_append rev_rev_ident)
  then show thesis using rb(2) by (intro that(1) [of "rev cs"]) auto
next
  assume "crashed [u] (exec_steps (unlinks (rev bs)) d) d'"
  then show thesis using that(2) that(1) [of bs] that(1) [of "[]"] u
    by (auto elim!: crashed_ConsE crashed_NilE)
qed

lemma joined_live: "logged co ps \<noteq> [] \<Longrightarrow> joined co ps"
  by (simp add: joined_def)

lemma logged_kept: "logged co (as @ (f, xs @ zs) # bs) = logged co (kept_parts as f xs) @ logged co ((f, zs) # bs)"
  by (simp add: logged_def)

lemma truncate_crash_log:
  assumes r: "rep x s d (as @ (f, xs @ e # ys) # bs)" and at: "cut_at (cutoff s) from as f xs e"
    and lv: "live (cutoff s) from" and cr: "crashed ss d d'"
    and ss: "ss = unlinks (rev bs) @ [if xs = [] then UnlinkSeg f else SetLenSeg f (length (seg_file (x_hash x) (f, xs)))]"
  shows "\<exists>ps1 k. disk_image x d' (in_last_purged s) ps1 [] \<and> joined (cutoff s) ps1 \<and>
     logged (cutoff s) ps1 = take k (logged (cutoff s) (as @ (f, xs @ e # ys) # bs)) \<and>
     length (logged (cutoff s) (kept_parts as f xs)) \<le> k"
proof -
  let ?co = "cutoff s" and ?p = "(f, xs @ e # ys)" and ?K = "kept_parts as f xs"
  have u: "\<not> torn (if xs = [] then UnlinkSeg f else SetLenSeg f (length (seg_file (x_hash x) (f, xs)))) d1 d2" for d1 d2
    by (auto elim: torn_unlinkE torn_set_lenE)
  have le: "length (logged ?co ?K) \<le> length (logged ?co (as @ ?p # cs))" for cs
    unfolding logged_kept by simp
  show ?thesis
  proof (rule truncate_crash [OF r cr [unfolded ss] u])
    fix cs
    assume 1: "prefix cs bs" "d' = exec_steps (unlinks (rev (drop (length cs) bs))) d"
    then obtain ds where bs: "bs = cs @ ds" by (auto simp: prefix_def)
    then have "disk_image x d' (in_last_purged s) (as @ ?p # cs) []"
      using image_prefix [of x s d "as @ ?p # cs" ds d'] r 1(2) by simp
    moreover have "logged ?co (as @ ?p # cs) \<noteq> []" using at by (simp add: logged_def cut_at_def)
    then have "joined ?co (as @ ?p # cs)" by (rule joined_live)
    moreover have "logged ?co (as @ ?p # cs) = take (length (logged ?co (as @ ?p # cs))) (logged ?co (as @ ?p # bs))"
      using logged_simps(2) [of ?co "as @ ?p # cs" ds] by (simp add: bs)
    ultimately show ?thesis using le by blast
  next
    assume "d' = exec_steps (unlinks (rev bs) @
        [if xs = [] then UnlinkSeg f else SetLenSeg f (length (seg_file (x_hash x) (f, xs)))]) d"
    then have d': "d' = exec_steps ss d" by (simp add: ss)
    note dev = truncate_device [OF r ss]
    have "disk_image x d' (in_last_purged s) ?K []"
      using r dev chained_kept [OF repD(1) [OF r]] unfolding d'
      by (simp add: disk_image_def rep_def last_stuck_def purged_ok_def same_marks_def)
    moreover have "logged ?co ?K = take (length (logged ?co ?K)) (logged ?co (as @ ?p # bs))"
      unfolding logged_kept by simp
    ultimately show ?thesis using cut_joined [OF repD(1) [OF r] at lv] by blast
  qed
qed

theorem truncate_rep:
  assumes r: "rep x s d ps" and j: "joined (cutoff s) ps" and lv: "live (cutoff s) from"
  obtains s' ss ps' where "fs_truncate_from s from = (s', ss)" "rep x s' (exec_steps ss d) ps'"
    "joined (cutoff s) ps'" "same_rest s s'"
    "logged (cutoff s) ps' = filter (\<lambda>e. idx e < from) (logged (cutoff s) ps)"
    "\<And>d'. crashed ss d d' \<Longrightarrow>
       \<exists>ps1 k. disk_image x d' (in_last_purged s) ps1 [] \<and> joined (cutoff s) ps1 \<and>
         logged (cutoff s) ps1 = take k (logged (cutoff s) ps) \<and>
         length (filter (\<lambda>e. idx e < from) (logged (cutoff s) ps)) \<le> k"
proof (cases "in_index s = [] \<or> fst (last (in_index s)) < from")
  case True
  then have "logged (cutoff s) ps = [] \<or> idx (last (logged (cutoff s) ps)) < from"
    using index_of_last [of "x_hash x" "cutoff s" ps] repD(4) [OF r] index_Nil_iff [of "x_hash x" "cutoff s" ps]
    unfolding logged_def by metis
  note nop = truncate_noop [OF r this]
  show ?thesis
  proof (rule that [OF nop(1)])
    show "\<exists>ps1 k. disk_image x d' (in_last_purged s) ps1 [] \<and> joined (cutoff s) ps1 \<and>
        logged (cutoff s) ps1 = take k (logged (cutoff s) ps) \<and>
        length (filter (\<lambda>e. idx e < from) (logged (cutoff s) ps)) \<le> k" if "crashed [] d d'" for d'
      using that image_rep [OF r] j unfolding nop(2)
      by (intro exI [of _ ps] exI [of _ "length (logged (cutoff s) ps)"]) (auto elim: crashed.cases)
  qed (use r j nop(2) in simp_all)
next
  case False
  obtain as f xs e ys bs where ps: "ps = as @ (f, xs @ e # ys) # bs" and at: "cut_at (cutoff s) from as f xs e"
    and tp: "truncation_point s from = (f, SEGMENT_HEADER + length (concat (map (encode_frame (x_hash x)) xs)))"
    by (rule truncation_split [OF r lv False])
  obtain s' ss where T: "fs_truncate_from s from = (s', ss)" by fastforce
  note st = truncate_steps [OF r [unfolded ps] False tp T]
  note ch = repD(1) [OF r, unfolded ps]
  note ix = truncate_index [OF ch at]
  note dev = truncate_device [OF r [unfolded ps] st(2)]
  have seg: "(seg_of (x_hash x) (f, xs @ e # ys))\<lparr>sg_len := length (seg_file (x_hash x) (f, xs)), sg_last_index := Some (from - 1)\<rparr> =
      seg_of (x_hash x) (f, xs)" if "xs \<noteq> []"
    using cut_last [OF ch at that] that by (simp add: seg_of_def)
  have "rep x s' (exec_steps ss d) (kept_parts as f xs)"
    using r dev chained_kept [OF ch] ix(1) seg unfolding st(1) ps
    by (auto simp: rep_def purged_ok_def same_marks_def cutoff_def)
  moreover have "same_rest s s'" unfolding st(1) by (simp add: same_rest_def)
  moreover note cut_joined [OF ch at lv]
  ultimately show ?thesis
    using that [OF T] ix(2) truncate_crash_log [OF r [unfolded ps] at lv _ st(2)] unfolding ps by metis
qed

section \<open>Purging\<close>

text \<open>The documented behaviour of the serializer on log ids.\<close>

definition ids_ok :: "Extern \<Rightarrow> bool" where
  "ids_ok x \<longleftrightarrow> (\<forall>i. \<exists>bs. x_to_id x i = Inr bs \<and> x_from_id x bs = Inr i)"

lemma obsolete_seg_of:
  "obsolete m (seg_of h p) = (if snd p = [] then fst p \<le> m else idx (last (snd p)) \<le> m)"
  by (simp add: obsolete_def seg_of_def)

lemma chain_not_obsolete:
  assumes "chain n (p # ps)" and "\<not> obsolete m (seg_of h p)" and "q \<in> set ps"
  shows "\<not> obsolete m (seg_of h q)"
proof -
  have ne: "snd p \<noteq> []" using assms(1,3) by auto
  have "Suc (unat (idx (last (snd p)))) = n + length (snd p)" using assms(1) numbered_last [OF _ ne] by simp
  moreover have "n + length (snd p) \<le> unat (fst q)" using assms(1,3) chain_firsts_ge [of "n + length (snd p)" ps q] by simp
  moreover have "fst q \<le> idx (last (snd q))" if "snd q \<noteq> []"
  proof -
    obtain as bs where "ps = as @ q # bs" using split_list [OF assms(3)] by blast
    then have "numbered (unat (fst q)) (snd q)" using assms(1) by (auto simp: chain_append)
    then show ?thesis using numbered_range [OF _ last_in_set [OF that]] by (auto simp: word_le_nat_alt)
  qed
  ultimately show ?thesis using assms(2) ne
    by (auto simp: obsolete_seg_of word_le_nat_alt split: if_splits)
qed

lemma obsolete_prefix:
  "chain n ps \<Longrightarrow> \<exists>as bs. ps = as @ bs \<and> (\<forall>p \<in> set as. obsolete m (seg_of h p)) \<and> (\<forall>p \<in> set bs. \<not> obsolete m (seg_of h p))"
proof (induction ps arbitrary: n)
  case (Cons p ps)
  show ?case
  proof (cases "obsolete m (seg_of h p)")
    case True
    obtain as bs where "ps = as @ bs" "\<forall>p \<in> set as. obsolete m (seg_of h p)" "\<forall>p \<in> set bs. \<not> obsolete m (seg_of h p)"
      using Cons.IH [of "n + length (snd p)"] Cons.prems by auto
    then show ?thesis using True by (intro exI [of _ "p # as"] exI [of _ bs]) simp
  next
    case False
    have "\<forall>q \<in> set (p # ps). \<not> obsolete m (seg_of h q)"
      using False chain_not_obsolete [OF Cons.prems False] by auto
    then have "p # ps = [] @ (p # ps) \<and> (\<forall>p \<in> set []. obsolete m (seg_of h p)) \<and>
        (\<forall>q \<in> set (p # ps). \<not> obsolete m (seg_of h q))" by simp
    then show ?thesis by blast
  qed
qed simp

lemma obsolete_split:
  assumes "chained ps"
  obtains as bs where "ps = as @ bs" "\<forall>p \<in> set as. obsolete m (seg_of h p)" "\<forall>p \<in> set bs. \<not> obsolete m (seg_of h p)"
  using obsolete_prefix assms unfolding chained_def by (metis append.left_neutral empty_iff list.set(1))

text \<open>Nothing in an obsolete part is above the marker.\<close>

lemma obsolete_dead:
  assumes "chained ps" and "\<forall>p \<in> set ps. obsolete m (seg_of h p)"
  shows "\<forall>e \<in> set (entries ps). idx e \<le> m"
proof
  fix e assume "e \<in> set (entries ps)"
  then obtain p where p: "p \<in> set ps" "e \<in> set (snd p)" by (auto simp: entries_def)
  obtain as bs where ps: "ps = as @ p # bs" using split_list [OF p(1)] by blast
  then have "numbered (unat (fst p)) (snd p)" using chained_suffix [of as "p # bs"] assms(1) by (simp add: chained_def)
  then have "idx e \<le> idx (last (snd p))" using p(2) by (rule numbered_le_last)
  moreover have "snd p \<noteq> []" "obsolete m (seg_of h p)" using assms(2) p by auto
  then have "idx (last (snd p)) \<le> m" by (simp add: obsolete_seg_of)
  ultimately show "idx e \<le> m" by simp
qed

lemma purge_index:
  assumes ch: "chained (as @ bs)" and dead: "\<forall>e \<in> set (entries as). idx e \<le> m"
    and mx: "unat m + 1 < 2 ^ 64" and old: "\<forall>c. co = Some c \<longrightarrow> c < m"
  shows "filter (\<lambda>(i, _). i \<ge> m + 1) (index_of h co (as @ bs)) = index_of h (Some m) bs"
    "logged (Some m) (as @ bs) = filter (\<lambda>e. m < idx e) (logged co (as @ bs))"
    "logged (Some m) as = []"
proof -
  have m1: "m + 1 \<le> i \<longleftrightarrow> m < i" for i
    using mx by (simp add: word_le_nat_alt word_less_nat_alt unat_word_ariths Suc_le_eq)
  have lv: "(live co i \<and> m < i) = live (Some m) i" for i using old by (auto simp: live_def split: option.splits)
  have "filter (\<lambda>(i, _). i \<ge> m + 1) (index_of h co ps) = index_of h (Some m) ps" for ps
    by (simp add: index_of_def case_prod_unfold m1 lv)
  moreover have none: "logged (Some m) as = []"
    using dead by (auto simp: logged_def live_def filter_empty_conv not_less)
  moreover have "index_of h (Some m) as = []" using none index_Nil_iff by blast
  ultimately show "filter (\<lambda>(i, _). i \<ge> m + 1) (index_of h co (as @ bs)) = index_of h (Some m) bs"
    "logged (Some m) as = []" by simp_all
  show "logged (Some m) (as @ bs) = filter (\<lambda>e. m < idx e) (logged co (as @ bs))"
    by (simp add: logged_def lv)
qed

definition covered :: "Inner \<Rightarrow> u64 \<Rightarrow> bool" where
  "covered s m = (case in_last_purged s of Some p \<Rightarrow> l_index p \<ge> m | None \<Rightarrow> False)"

lemma covered_logged: "covered s m \<Longrightarrow> filter (\<lambda>e. m < idx e) (logged (cutoff s) ps) = logged (cutoff s) ps"
  by (auto simp: covered_def cutoff_def logged_def live_def split: option.splits intro!: filter_cong)

lemma cutoff_upd:
  "cutoff (s\<lparr>in_last_purged := p, in_index := i, in_active := a, in_segments := g\<rparr>) = map_option l_index p"
  by (simp add: cutoff_def)

lemma purge_steps:
  assumes r: "rep x s d (as @ bs)" and nc: "\<not> covered s (l_index lid)" and bs: "x_to_id x lid = Inr b"
    and obs: "\<forall>p \<in> set as. obsolete (l_index lid) (seg_of (x_hash x) p)"
      "\<forall>p \<in> set bs. \<not> obsolete (l_index lid) (seg_of (x_hash x) p)"
  shows "fs_purge_through x s lid =
         Inr (s\<lparr>in_last_purged := Some lid, in_index := filter (\<lambda>(i, _). i \<ge> l_index lid + 1) (in_index s),
                in_active := None, in_segments := map (seg_of (x_hash x)) bs\<rparr>,
              PutLastPurged b # unlinks as)"
proof -
  let ?o = "obsolete (l_index lid)"
  have "filter ?o (map (seg_of (x_hash x)) (as @ bs)) = map (seg_of (x_hash x)) as"
    "filter (\<lambda>g. \<not> ?o g) (map (seg_of (x_hash x)) (as @ bs)) = map (seg_of (x_hash x)) bs"
    using obs by (auto simp: filter_id_conv filter_empty_conv)
  then show ?thesis using nc repD(3) [OF r]
    by (simp add: fs_purge_through_def covered_def bs comp_def)
qed

lemma purge_crash:
  assumes r: "rep x s d (as @ bs)" and cr: "crashed (PutLastPurged b # unlinks as) d d'" and b: "x_from_id x b = Inr lid"
  obtains "d' = d" | cs where "suffix cs as" "disk_image x d' (Some lid) (cs @ bs) []"
  using cr
proof (elim crashed_ConsE torn_markerE)
  let ?d = "exec_step (PutLastPurged b) d"
  assume "crashed (unlinks as) ?d d'"
  then obtain ds cs where as: "as = ds @ cs" and d': "d' = exec_steps (unlinks ds) ?d" using crashed_unlinks by blast
  have ch: "chained (ds @ cs @ bs)" using repD(1) [OF r] by (simp add: as)
  have "dv_segs d' = files (x_hash x) [] (cs @ bs)"
    unfolding d' by (rule unlink_oldest [OF chained_distinct [OF ch]]) (use repD(2) [OF r] as in simp)
  then have "disk_image x d' (Some lid) (cs @ bs) []"
    using r chained_suffix [OF ch] unlinks_marks(3-5) [where d = ?d and ps = ds] b
    by (simp add: disk_image_def rep_def last_stuck_def purged_ok_def d')
  then show thesis using that(2) as by (auto simp: suffix_def)
qed (use that in simp)

lemma purged_joined:
  assumes ch: "chained ps" and sfx: "ps = as @ cs" and L: "logged co ps \<noteq> []" and m: "m \<le> idx (last (logged co ps))"
  shows "joined (Some m) cs"
proof -
  have "idx (last (entries cs)) = m" if no: "logged (Some m) cs = []" and ne: "entries cs \<noteq> []"
  proof -
    have "last (entries cs) = last (logged co ps)" using logged_last(2) [OF ch L] ne sfx by simp
    moreover have "\<not> m < idx (last (entries cs))"
      using no last_in_set [OF ne] by (auto simp: logged_def live_def filter_empty_conv)
    ultimately show ?thesis using m by simp
  qed
  then show ?thesis by (auto simp: joined_def)
qed

lemma kept_joined:
  assumes "\<forall>p \<in> set bs. \<not> obsolete m (seg_of h p)"
  shows "joined (Some m) bs"
proof (cases "entries bs = []")
  case False
  then obtain p where p: "p \<in> set bs" "snd p \<noteq> []" by (auto simp: entries_def)
  then have "last (snd p) \<in> set (logged (Some m) bs)"
    using assms last_in_set [OF p(2)]
    by (auto simp: obsolete_seg_of logged_def live_def entries_def not_le split: if_splits intro!: bexI [OF _ p(1)])
  then show ?thesis by (intro joined_live) auto
qed (simp add: joined_def)

definition after_purge :: "Inner \<Rightarrow> LogId \<Rightarrow> LogId option" where
  "after_purge s lid = (if covered s (l_index lid) then in_last_purged s else Some lid)"

text \<open>
  What a purge that stopped half way leaves: the log as it was or the purged log, which in
  general only joins its segments when the purge did not go past the end of the log.
\<close>

definition purge_outcome :: "Extern \<Rightarrow> Inner \<Rightarrow> LogId \<Rightarrow> LogEntry list \<Rightarrow> Device \<Rightarrow> bool" where
  "purge_outcome x s lid L d' \<longleftrightarrow>
     (\<exists>ps. disk_image x d' (in_last_purged s) ps [] \<and> logged (cutoff s) ps = L \<and> joined (cutoff s) ps) \<or>
     (\<exists>ps. disk_image x d' (Some lid) ps [] \<and> logged (Some (l_index lid)) ps = filter (\<lambda>e. l_index lid < idx e) L \<and>
        (L \<noteq> [] \<and> l_index lid \<le> idx (last L) \<longrightarrow> joined (Some (l_index lid)) ps))"

lemma purge_crash_log:
  assumes r: "rep x s d (as @ bs)" and j: "joined (cutoff s) (as @ bs)" and nc: "\<not> covered s (l_index lid)"
    and mx: "unat (l_index lid) + 1 < 2 ^ 64" and b: "x_from_id x b = Inr lid"
    and obs: "\<forall>p \<in> set as. obsolete (l_index lid) (seg_of (x_hash x) p)"
    and cr: "crashed (PutLastPurged b # unlinks as) d d'"
  shows "purge_outcome x s lid (logged (cutoff s) (as @ bs)) d'"
proof (rule purge_crash [OF r cr b])
  assume "d' = d"
  then show ?thesis using image_rep [OF r] j unfolding purge_outcome_def by blast
next
  fix cs assume cs: "suffix cs as" "disk_image x d' (Some lid) (cs @ bs) []"
  let ?m = "l_index lid" and ?L = "logged (cutoff s) (as @ bs)"
  obtain ds where as: "as = ds @ cs" using cs(1) by (auto simp: suffix_def)
  note ch = repD(1) [OF r]
  have old: "\<forall>c. cutoff s = Some c \<longrightarrow> c < ?m" using nc by (auto simp: covered_def cutoff_def)
  have "\<forall>e \<in> set (entries as). idx e \<le> ?m" using obsolete_dead [OF chained_prefix [OF ch] obs] .
  note ix = purge_index [OF ch this mx old]
  have "logged (Some ?m) (cs @ bs) = filter (\<lambda>e. ?m < idx e) ?L" using ix(2,3) as by simp
  moreover have "joined (Some ?m) (cs @ bs)" if "?L \<noteq> []" "?m \<le> idx (last ?L)"
    using purged_joined [OF ch _ that] as by simp
  ultimately show ?thesis using cs(2) unfolding purge_outcome_def by blast
qed

theorem purge_rep:
  assumes r: "rep x s d ps" and j: "joined (cutoff s) ps" and ids: "ids_ok x" and mx: "unat (l_index lid) + 1 < 2 ^ 64"
  obtains s' ss ps' where "fs_purge_through x s lid = Inr (s', ss)" "rep x s' (exec_steps ss d) ps'"
    "joined (cutoff s') ps'" "same_rest s (s'\<lparr>in_last_purged := in_last_purged s\<rparr>)" "in_last_purged s' = after_purge s lid"
    "logged (cutoff s') ps' = filter (\<lambda>e. l_index lid < idx e) (logged (cutoff s) ps)"
    "\<And>d'. crashed ss d d' \<Longrightarrow> purge_outcome x s lid (logged (cutoff s) ps) d'"
proof (cases "covered s (l_index lid)")
  case True
  then have P: "fs_purge_through x s lid = Inr (s, [])" by (simp add: fs_purge_through_def covered_def)
  have crash: "d' = d" if "crashed [] d d'" for d' using that by (auto elim: crashed.cases)
  show ?thesis
    by (rule that [OF P]) (use r j True covered_logged [OF True] image_rep [OF r] crash in
        \<open>auto simp: after_purge_def purge_outcome_def intro: exI [of _ ps]\<close>)
next
  case False
  let ?m = "l_index lid"
  obtain as bs where ps: "ps = as @ bs" and obs: "\<forall>p \<in> set as. obsolete ?m (seg_of (x_hash x) p)"
    "\<forall>p \<in> set bs. \<not> obsolete ?m (seg_of (x_hash x) p)"
    by (rule obsolete_split [OF repD(1) [OF r]])
  obtain b where b: "x_to_id x lid = Inr b" "x_from_id x b = Inr lid" using ids by (auto simp: ids_ok_def)
  note ch = repD(1) [OF r, unfolded ps]
  have old: "\<forall>c. cutoff s = Some c \<longrightarrow> c < ?m" using False by (auto simp: covered_def cutoff_def)
  have "\<forall>e \<in> set (entries as). idx e \<le> ?m" using obsolete_dead [OF chained_prefix [OF ch] obs(1)] .
  note ix = purge_index [OF ch this mx old]
  let ?s = "s\<lparr>in_last_purged := Some lid, in_index := filter (\<lambda>(i, _). i \<ge> ?m + 1) (in_index s),
      in_active := None, in_segments := map (seg_of (x_hash x)) bs\<rparr>"
  let ?d = "exec_step (PutLastPurged b) d"
  have P: "fs_purge_through x s lid = Inr (?s, PutLastPurged b # unlinks as)"
    by (rule purge_steps [OF r [unfolded ps] False b(1) obs])
  have co: "cutoff ?s = Some ?m" by (simp add: cutoff_def)
  have "dv_segs (exec_steps (unlinks as) ?d) = files (x_hash x) [] bs"
    by (rule unlink_oldest [OF chained_distinct [OF ch]]) (use repD(2) [OF r] ps in simp)
  then have "rep x ?s (exec_steps (PutLastPurged b # unlinks as) d) bs"
    using r ix(1) b(2) chained_suffix [OF ch] unlinks_marks(2-5) [where d = ?d and ps = as] unfolding ps
    by (simp add: rep_def purged_ok_def cutoff_upd del: index_of_simps)
  then show ?thesis
    using that [OF P] kept_joined [OF obs(2)] False co ix purge_crash_log [OF r [unfolded ps] j [unfolded ps] False mx b(2) obs(1)]
    unfolding ps by (simp add: same_rest_def after_purge_def)
qed

end
