(* ===== verification/Fs_Open.thy ===== *)
theory Fs_Open
  imports Fs_Cut
begin

text \<open>
  Opening a store: from any device a crash can leave, the scan finds the parts, cuts a torn frame
  off, and rebuilds the in-memory state of the log.  The committed watermark is the newer of two
  slots that are written in turn, so it survives the loss of the slot being written.
\<close>

section \<open>Recovering the log\<close>

lemma remove_tmps:
  "exec_steps (map (\<lambda>(i, _). RemoveTmp i) ts) d = d\<lparr>dv_tmps := filter (\<lambda>t. fst t \<notin> fst ` set ts) (dv_tmps d)\<rparr>"
proof (induction ts arbitrary: d)
  case (Cons t ts)
  then show ?case by (cases t) (auto simp: bm_remove_def intro!: filter_cong)
qed simp

lemma load_committed_log:
  assumes "dv_committed d = None"
  obtains s' ss where "load_committed x s d = Inr (s', ss)"
    "in_segments s' = in_segments s" "in_index s' = in_index s" "in_active s' = in_active s"
    "in_last_purged s' = in_last_purged s" "in_segment_bytes s' = in_segment_bytes s"
    "ss = [] \<or> (\<exists>bs. ss = [PutSlots bs])"
proof (cases "dv_slots d")
  case None
  then show ?thesis using that [of s "[]"] assms by (simp add: load_committed_def)
next
  case (Some bs)
  let ?best = "max_generation (List.map_filter (decode_committed (x_hash x))
      (chunks (if length bs = 2 * LEGACY_COMMITTED_SLOT then LEGACY_COMMITTED_SLOT else COMMITTED_SLOT) bs))"
  let ?s = "case ?best of Some (gen, c) \<Rightarrow> s\<lparr>in_committed_generation := gen, in_committed := c\<rparr> | None \<Rightarrow> s"
  let ?ss = "if length bs = 2 * LEGACY_COMMITTED_SLOT then [PutSlots (migrate_slots (x_hash x) bs)] else []"
  have "load_committed x s d = Inr (?s, ?ss)" using Some by (simp add: load_committed_def Let_def)
  then show ?thesis by (rule that) (auto split: option.splits)
qed

lemma crashed_removes: "crashed (map (\<lambda>(i, _). RemoveTmp i) m) d d' \<Longrightarrow> \<exists>t. d' = d\<lparr>dv_tmps := t\<rparr>"
proof (induction m arbitrary: d)
  case Nil
  then have "d' = d" by (auto elim: crashed_NilE)
  then show ?case by (intro exI [of _ "dv_tmps d"]) simp
next
  case (Cons p m)
  obtain i b where p: "p = (i, b)" by fastforce
  have "crashed (RemoveTmp i # map (\<lambda>(i, _). RemoveTmp i) m) d d'" using Cons.prems by (simp add: p)
  then show ?case
  proof (cases rule: crashed.cases)
    case crash_before
    then show ?thesis by (intro exI [of _ "dv_tmps d"]) simp
  next
    case crash_in
    then show ?thesis by (auto elim: torn.cases)
  next
    case crash_after
    then show ?thesis using Cons.IH by fastforce
  qed
qed

lemma crashed_put_slots: "crashed [PutSlots bs] d d' \<Longrightarrow> d' = d \<or> d' = d\<lparr>dv_slots := Some bs\<rparr>"
  by (auto elim!: crashed_NilE crashed_ConsE elim: torn.cases)

lemma scan_image:
  assumes im: "disk_image x d p ps junk" and s: "in_index s = []"
  obtains ss where "scan_segments (x_hash x) s d =
      Inr (s\<lparr>in_segments := map (seg_of (x_hash x)) ps, in_index := index_of (x_hash x) (cutoff s) ps\<rparr>, ss)"
    "exec_steps ss d = d\<lparr>dv_segs := files (x_hash x) [] ps\<rparr>"
    "\<And>d'. crashed ss d d' \<Longrightarrow> d' = d \<or> d' = exec_steps ss d"
proof -
  let ?h = "x_hash x" and ?ss = "if junk = [] then [] else [SetLenSeg (fst (last ps)) (length (seg_file (x_hash x) (last ps)))]"
  have ch: "chained ps" and st: "last_stuck ?h junk ps" and segs: "dv_segs d = files ?h junk ps"
    using im by (simp_all add: disk_image_def)
  have "d' = d \<or> d' = exec_steps ?ss d" if "crashed ?ss d d'" for d'
    using that by (auto split: if_splits elim!: crashed_NilE crashed_ConsE torn_set_lenE)
  moreover have "scan_files ?h (cutoff s) (files ?h junk ps) None [] [] = Inr (map (seg_of ?h) ps, index_of ?h (cutoff s) ps, ?ss)"
  proof (cases "ps = []")
    case True
    then show ?thesis using st by (simp add: last_stuck_def)
  next
    case False
    then have "chain (unat (fst (hd ps))) ps" using ch by (simp add: chained_def)
    then show ?thesis using scan_files_parts [OF _ st, of _ "[]" "cutoff s" None "[]"] index_of_sorted [OF ch]
      by (simp add: bm_ok_def)
  qed
  moreover have "exec_steps ?ss d = d\<lparr>dv_segs := files ?h [] ps\<rparr>"
  proof (cases "junk = []")
    case False
    then obtain qs q where ps: "ps = qs @ [q]" using st by (cases ps rule: rev_cases) (auto simp: last_stuck_def)
    have "bm_update (fst q) (set_len (length (seg_file ?h q))) (files ?h junk (qs @ [q])) = files ?h [] (qs @ [q])"
      unfolding update_last [OF chained_distinct [OF ch [unfolded ps]]] by (simp add: files_snoc)
    then show ?thesis using False segs ps by simp
  next
    case True
    then show ?thesis using segs by (cases d) simp
  qed
  ultimately show ?thesis using that segs s by (simp add: scan_segments_def)
qed

theorem open_image:
  assumes im: "disk_image x d p ps junk" and sb: "SEGMENT_HEADER < sb"
  obtains s ss where "fs_open x sb d = Inr (s, ss)" "rep x s (exec_steps ss d) ps" "in_last_purged s = p"
    "in_segment_bytes s = sb" "\<And>d'. crashed ss d d' \<Longrightarrow> \<exists>junk'. disk_image x d' p ps junk'"
proof -
  let ?s0 = "\<lparr>in_segment_bytes = sb, in_segments = [], in_index = [], in_active = None, in_last_purged = p,
      in_committed = None, in_committed_generation = 0, in_committed_file = False\<rparr>"
  let ?ss1 = "map (\<lambda>(i, _). RemoveTmp i) (dv_tmps d)"
  let ?d1 = "exec_steps ?ss1 d"
  have pk: "purged_ok x p d" using im by (simp add: disk_image_def)
  then have lp: "(case dv_last_purged d of None \<Rightarrow> Inr None
      | Some bs \<Rightarrow> (case x_from_id x bs of Inl err \<Rightarrow> Inl (Serialization (''decode last_purged: '' @ err)) | Inr i \<Rightarrow> Inr (Some i))) = Inr p"
    by (auto simp: purged_ok_def split: option.splits)
  have mig: "migrate_legacy_entries x (cutoff ?s0) d = Inr ?ss1"
    using im by (simp add: migrate_legacy_entries_def disk_image_def)
  have d1: "?d1 = d\<lparr>dv_tmps := []\<rparr>" unfolding remove_tmps by (simp add: filter_empty_conv)
  have im1: "disk_image x ?d1 p ps junk" using im d1 by (simp add: disk_image_def purged_ok_def)
  then obtain ss2 where sc: "scan_segments (x_hash x) ?s0 ?d1 =
      Inr (?s0\<lparr>in_segments := map (seg_of (x_hash x)) ps, in_index := index_of (x_hash x) (cutoff ?s0) ps\<rparr>, ss2)"
    and d2: "exec_steps ss2 ?d1 = ?d1\<lparr>dv_segs := files (x_hash x) [] ps\<rparr>"
    and c2: "\<And>d'. crashed ss2 ?d1 d' \<Longrightarrow> d' = ?d1 \<or> d' = exec_steps ss2 ?d1"
    using scan_image [of x ?d1 p ps junk ?s0] by auto
  let ?s2 = "?s0\<lparr>in_segments := map (seg_of (x_hash x)) ps, in_index := index_of (x_hash x) (cutoff ?s0) ps\<rparr>"
  have "dv_committed (exec_steps (?ss1 @ ss2) d) = None" using im d1 d2 by (simp add: disk_image_def)
  then obtain s3 ss3 where ld: "load_committed x ?s2 (exec_steps (?ss1 @ ss2) d) = Inr (s3, ss3)"
    and s3: "in_segments s3 = in_segments ?s2" "in_index s3 = in_index ?s2" "in_active s3 = in_active ?s2"
      "in_last_purged s3 = in_last_purged ?s2" "in_segment_bytes s3 = in_segment_bytes ?s2"
    and ss3: "ss3 = [] \<or> (\<exists>bs. ss3 = [PutSlots bs])"
    by (rule load_committed_log)
  have op: "fs_open x sb d = Inr (s3, ?ss1 @ ss2 @ ss3)"
    unfolding fs_open_def lp by (simp add: mig sc ld [simplified] Let_def)
  have co: "cutoff s3 = cutoff ?s0" using s3(4) by (simp add: cutoff_def)
  have "rep x s3 (exec_steps (?ss1 @ ss2 @ ss3) d) ps"
    using im s3 ss3 sb d1 d2 pk unfolding rep_def co by (auto simp: disk_image_def purged_ok_def)
  moreover have "\<exists>junk'. disk_image x d' p ps junk'" if cr: "crashed (?ss1 @ ss2 @ ss3) d d'" for d'
  proof -
    have im2: "disk_image x (exec_steps ss2 ?d1) p ps []"
      using im1 d2 by (simp add: disk_image_def last_stuck_def purged_ok_def)
    consider "crashed ?ss1 d d'" | "crashed ss2 ?d1 d'" | "crashed ss3 (exec_steps ss2 ?d1) d'"
      using crashed_append [OF cr] crashed_append [of ss2 ss3 ?d1 d'] by auto
    then show ?thesis
    proof cases
      case 1
      then obtain t where "d' = d\<lparr>dv_tmps := t\<rparr>" using crashed_removes by blast
      then show ?thesis using im by (auto simp: disk_image_def purged_ok_def intro!: exI [of _ junk])
    next
      case 2
      then show ?thesis using c2 im1 im2 by blast
    next
      case 3
      then have "d' = exec_steps ss2 ?d1 \<or> (\<exists>bs. d' = (exec_steps ss2 ?d1)\<lparr>dv_slots := Some bs\<rparr>)"
        using ss3 crashed_put_slots crashed_NilE by metis
      then show ?thesis using im2 by (auto simp: disk_image_def purged_ok_def)
    qed
  qed
  ultimately show ?thesis using that [OF op] s3 by simp
qed

end
