(* ===== verification/Fs_Committed.thy ===== *)
theory Fs_Committed
  imports Fs_Open
begin

text \<open>
  The committed watermark on the device: two slots on separate 4 KiB boundaries, written in turn
  with a growing generation, the newer valid one being the watermark.
\<close>

section \<open>One slot\<close>

lemma length_slot_body [simp]: "length (slot_body g c) = COMMITTED_SLOT - FRAME_HASH"
  by (simp add: slot_body_def COMMITTED_MAGIC_def COMMITTED_SLOT_def FRAME_HASH_def split: option.splits)

lemma length_encode_committed [simp]: "length (encode_committed h g c) = COMMITTED_SLOT"
  by (simp add: encode_committed_def) (simp add: COMMITTED_SLOT_def FRAME_HASH_def)

lemma slot_fields:
  "take 4 (slot_body g c) = COMMITTED_MAGIC" "slice (slot_body g c) 4 12 = u64_to_le g"
  "slot_body g (Some l) ! 12 = 1" "slot_body g None ! 12 = 0"
  "slice (slot_body g (Some l)) 13 21 = u64_to_le (l_term l)" "slice (slot_body g (Some l)) 21 29 = u64_to_le (l_index l)"
  by (simp_all add: slot_body_def COMMITTED_MAGIC_def slice_def nth_append)

lemma slot_prefix:
  assumes "k \<le> COMMITTED_SLOT - FRAME_HASH"
  shows "take k (encode_committed h g c) = take k (slot_body g c)" "slice (encode_committed h g c) j k = slice (slot_body g c) j k"
  using assms by (simp_all add: encode_committed_def)

theorem committed_round_trip: "decode_committed h (encode_committed h g c) = Some (g, c)"
proof -
  have k: "4 \<le> COMMITTED_SLOT - FRAME_HASH" "12 < COMMITTED_SLOT - FRAME_HASH" "21 \<le> COMMITTED_SLOT - FRAME_HASH"
    "29 \<le> COMMITTED_SLOT - FRAME_HASH"
    by (simp_all add: COMMITTED_SLOT_def FRAME_HASH_def)
  have nth: "encode_committed h g c ! 12 = slot_body g c ! 12" for c
    using k(2) by (simp add: encode_committed_def nth_append)
  have body: "take (COMMITTED_SLOT - FRAME_HASH) (encode_committed h g c) = slot_body g c"
    "drop (COMMITTED_SLOT - FRAME_HASH) (encode_committed h g c) = u64_to_le (h (slot_body g c))" for c
    by (simp_all add: encode_committed_def)
  show ?thesis
    using k by (cases c) (simp_all add: decode_committed_def Let_def slot_prefix nth body slot_fields)
qed

section \<open>Two slots\<close>

lemma chunks_two:
  assumes "length a = n" and "length b = n" and "0 < n"
  shows "chunks n (a @ b) = [a, b]"
proof -
  have "a @ b \<noteq> []" "b \<noteq> []" using assms by auto
  then show ?thesis using assms by (simp add: chunks.simps [of n "a @ b"] chunks.simps [of n b] chunks.simps [of n "[]"])
qed

text \<open>What a load finds in two slots.\<close>

lemma load_two:
  assumes "dv_slots d = Some (a @ b)" and "length a = COMMITTED_SLOT" and "length b = COMMITTED_SLOT"
  shows "load_committed x s d =
         Inr (case max_generation (List.map_filter (decode_committed (x_hash x)) [a, b]) of
                Some (gen, c) \<Rightarrow> s\<lparr>in_committed_generation := gen, in_committed := c\<rparr> | None \<Rightarrow> s, [])"
proof -
  have "length (a @ b) \<noteq> 2 * LEGACY_COMMITTED_SLOT" "0 < COMMITTED_SLOT"
    using assms by (simp_all add: COMMITTED_SLOT_def LEGACY_COMMITTED_SLOT_def)
  then show ?thesis using assms chunks_two [OF assms(2,3)] by (simp add: load_committed_def)
qed

text \<open>The slot of a generation, and the slots of a healthy store.\<close>

definition slot_at :: "u64 \<Rightarrow> 'a \<Rightarrow> 'a \<Rightarrow> 'a" where
  "slot_at g a b = (if g mod 2 = 0 then a else b)"

definition slots_hold :: "(bytes \<Rightarrow> u64) \<Rightarrow> Inner \<Rightarrow> bytes \<Rightarrow> bytes \<Rightarrow> bool" where
  "slots_hold h s a b \<longleftrightarrow>
     length a = COMMITTED_SLOT \<and> length b = COMMITTED_SLOT \<and>
     (let g = in_committed_generation s in
      (if g = 0 then in_committed s = None \<and> decode_committed h a = None
       else decode_committed h (slot_at g a b) = Some (g, in_committed s)) \<and>
      (\<forall>g' c'. decode_committed h (slot_at g b a) = Some (g', c') \<longrightarrow> g' < g))"

definition slots_ok :: "(bytes \<Rightarrow> u64) \<Rightarrow> Inner \<Rightarrow> Device \<Rightarrow> bool" where
  "slots_ok h s d \<longleftrightarrow>
     (case dv_slots d of
        None \<Rightarrow> in_committed s = None \<and> in_committed_generation s = 0 \<and> \<not> in_committed_file s
      | Some bs \<Rightarrow> bs = [] \<and> in_committed s = None \<and> in_committed_generation s = 0 \<or>
                   (\<exists>a b. bs = a @ b \<and> slots_hold h s a b))"

definition fresh :: "Inner \<Rightarrow> bool" where
  "fresh s \<longleftrightarrow> in_committed s = None \<and> in_committed_generation s = 0"

lemma load_slots:
  assumes "slots_hold (x_hash x) s a b" and "dv_slots d = Some (a @ b)" and "fresh s0"
  obtains s' where "load_committed x s0 d = Inr (s', [])" "in_committed s' = in_committed s"
    "in_committed_generation s' = in_committed_generation s"
proof -
  let ?D = "decode_committed (x_hash x)" and ?g = "in_committed_generation s"
  have "max_generation (List.map_filter ?D [a, b]) = (if ?g = 0 then None else Some (?g, in_committed s))"
    using assms(1)
    by (cases "?D a"; cases "?D b"; cases "?g mod 2 = 0")
      (auto simp: slots_hold_def slot_at_def Let_def List.map_filter_def split: if_splits)
  then show ?thesis using that load_two [OF assms(2)] assms(1,3)
    by (auto simp: slots_hold_def Let_def fresh_def split: if_splits)
qed

section \<open>Writing the watermark\<close>

lemma next_parity: "(g + 1) mod 2 = 0 \<longleftrightarrow> g mod 2 \<noteq> (0 :: u64)"
  by (simp add: mod_2_eq_odd)

lemma slot_offset: "unat (g mod 2) * COMMITTED_SLOT = (if g mod 2 = 0 then 0 else COMMITTED_SLOT)" for g :: u64
  by (simp add: mod_2_eq_odd)

lemma write_slot:
  assumes "length a = COMMITTED_SLOT" and "length b = COMMITTED_SLOT" and "length w = COMMITTED_SLOT"
  shows "write_at (unat (g mod 2) * COMMITTED_SLOT) w (a @ b) = slot_at g (w @ b) (a @ w)"
  using assms by (auto simp: slot_offset slot_at_def write_at_def)

lemma slots_after_write:
  assumes hold: "slots_hold h s a b" and g: "unat (in_committed_generation s) + 1 < 2 ^ 64"
    and w: "length w = COMMITTED_SLOT" "decode_committed h w = Some (in_committed_generation s + 1, c)"
  shows "slots_hold h (s\<lparr>in_committed_generation := in_committed_generation s + 1, in_committed := c, in_committed_file := f\<rparr>)
           (slot_at (in_committed_generation s + 1) w a) (slot_at (in_committed_generation s + 1) b w)"
proof -
  let ?g = "in_committed_generation s"
  have less: "g' < ?g + 1" if "g' \<le> ?g" for g'
    using g that by (simp add: word_less_nat_alt word_le_nat_alt unat_word_ariths)
  have ne: "?g + 1 \<noteq> 0" using less [of 0] by auto
  show ?thesis using hold w ne less
    by (cases "?g mod 2 = 0"; cases "?g = 0") (auto simp: slots_hold_def slot_at_def next_parity Let_def)
qed

lemma slots_after_tear:
  assumes hold: "slots_hold h s a b" and w: "length w = COMMITTED_SLOT"
    and old: "decode_committed h w = None \<or> decode_committed h w = decode_committed h (slot_at (in_committed_generation s + 1) a b)"
  shows "slots_hold h s (slot_at (in_committed_generation s + 1) w a) (slot_at (in_committed_generation s + 1) b w)"
  using hold w old
  by (cases "in_committed_generation s mod 2 = 0"; cases "in_committed_generation s = 0")
    (auto simp: slots_hold_def slot_at_def next_parity Let_def)

lemma zero_slots:
  assumes "in_committed s = None" and "in_committed_generation s = 0"
  shows "slots_hold h s (replicate COMMITTED_SLOT 0) (replicate COMMITTED_SLOT 0)"
proof -
  have "hd (take 4 (replicate COMMITTED_SLOT (0 :: u8))) = 0" "hd COMMITTED_MAGIC \<noteq> 0"
    by (simp_all add: COMMITTED_SLOT_def COMMITTED_MAGIC_def)
  then have "take 4 (replicate COMMITTED_SLOT 0) \<noteq> COMMITTED_MAGIC" by auto
  then have "decode_committed h (replicate COMMITTED_SLOT 0) = None" by (simp add: decode_committed_def)
  then show ?thesis using assms by (simp add: slots_hold_def slot_at_def)
qed

text \<open>The slots the write goes to: those on the device, or zeros in a file just created.\<close>

lemma slots_base:
  assumes ok: "slots_ok h s d"
  obtains a b where "slots_hold h s a b"
    "\<And>w. length w = COMMITTED_SLOT \<Longrightarrow>
       map_option (write_at (unat ((in_committed_generation s + 1) mod 2) * COMMITTED_SLOT) w)
         (dv_slots (if \<not> in_committed_file s \<and> dv_slots d = None then exec_step (SizeSlots (2 * COMMITTED_SLOT)) d else d)) =
       Some (slot_at (in_committed_generation s + 1) w a @ slot_at (in_committed_generation s + 1) b w)"
    "\<And>bs. dv_slots d = Some bs \<Longrightarrow> bs = [] \<or> bs = a @ b"
proof -
  let ?z = "replicate COMMITTED_SLOT (0 :: u8)" and ?g = "in_committed_generation s"
  have two: "write_at (unat ((?g + 1) mod 2) * COMMITTED_SLOT) w (a @ b) = slot_at (?g + 1) w a @ slot_at (?g + 1) b w"
    if "slots_hold h s a b" "length w = COMMITTED_SLOT" for a b w
    using that write_slot [of a b w] by (auto simp: slots_hold_def slot_at_def)
  have zero: "write_at (unat ((?g + 1) mod 2) * COMMITTED_SLOT) w [] = slot_at (?g + 1) w ?z @ slot_at (?g + 1) ?z w"
    if "?g = 0" for w
    using that by (simp add: write_at_def slot_at_def slot_offset)
  consider "dv_slots d = None" "in_committed s = None" "?g = 0" "\<not> in_committed_file s"
    | "dv_slots d = Some []" "in_committed s = None" "?g = 0"
    | a b where "dv_slots d = Some (a @ b)" "slots_hold h s a b"
    using ok by (auto simp: slots_ok_def split: option.splits)
  then show ?thesis
  proof cases
    case 1
    then have "replicate (2 * COMMITTED_SLOT) 0 = ?z @ ?z" by (simp add: replicate_add [symmetric] mult_2)
    then show ?thesis using that [OF zero_slots] two [OF zero_slots] 1 by simp
  next
    case 2
    then show ?thesis using that [OF zero_slots] zero by simp
  next
    case (3 a b)
    then show ?thesis using that [of a b] two by simp
  qed
qed

text \<open>
  What a torn slot is read as: nothing, the watermark that was being written, or what the slot held
  before.  This is what the hash of a slot is for; the two parts of a mixed slot come from different
  generations.
\<close>

definition written_slot :: "u64 \<Rightarrow> bytes \<Rightarrow> bytes" where
  "written_slot g bs = take COMMITTED_SLOT (drop (unat (g mod 2) * COMMITTED_SLOT) bs)"

definition tear_detected :: "(bytes \<Rightarrow> u64) \<Rightarrow> Inner \<Rightarrow> LogId option \<Rightarrow> Device \<Rightarrow> Device \<Rightarrow> bool" where
  "tear_detected h s c d d' \<longleftrightarrow>
     (let g = in_committed_generation s + 1;
          read = (\<lambda>d. case dv_slots d of None \<Rightarrow> None | Some bs \<Rightarrow> decode_committed h (written_slot g bs))
      in read d' = None \<or> read d' = read d \<or> read d' = Some (g, c))"

lemma written_slot_pair:
  assumes "length a = COMMITTED_SLOT" and "length b = COMMITTED_SLOT"
  shows "written_slot g (a @ b) = slot_at g a b"
  using assms by (simp add: written_slot_def slot_offset slot_at_def)

lemma decode_short: "length w < LEGACY_COMMITTED_SLOT \<Longrightarrow> decode_committed h w = None"
  by (simp add: decode_committed_def COMMITTED_SLOT_def LEGACY_COMMITTED_SLOT_def)

inductive_cases torn_sizeE: "torn (SizeSlots n) d d'"
inductive_cases torn_slotsE: "torn (WriteSlots off bs) d d'"

lemma crashed_committed:
  assumes "crashed ((if P then [SizeSlots n] else []) @ [WriteSlots off w]) d d'"
  obtains "d' = d" | "P" "d' = d\<lparr>dv_slots := Some []\<rparr>" | "P" "d' = exec_step (SizeSlots n) d"
    | v where "length v = length w" "dv_slots d' = map_option (write_at off v) (dv_slots (if P then exec_step (SizeSlots n) d else d))"
        "dv_committed d' = dv_committed d"
  using assms
  by (cases P) (fastforce elim!: crashed_ConsE crashed_NilE torn_sizeE torn_slotsE)+

lemma load_ok:
  assumes "slots_ok (x_hash x) s d" and "dv_committed d = None" and "fresh s0" and "\<not> in_committed_file s0"
  obtains s' where "load_committed x s0 d = Inr (s', [])" "slots_ok (x_hash x) s' d" "in_committed s' = in_committed s"
proof -
  consider "dv_slots d = None" "in_committed s = None" | "dv_slots d = Some []" "in_committed s = None"
    | a b where "dv_slots d = Some (a @ b)" "slots_hold (x_hash x) s a b"
    using assms(1) by (auto simp: slots_ok_def split: option.splits)
  then show ?thesis
  proof cases
    case (3 a b)
    obtain s' where s': "load_committed x s0 d = Inr (s', [])" "in_committed s' = in_committed s"
      "in_committed_generation s' = in_committed_generation s"
      by (rule load_slots [OF 3(2,1) assms(3)])
    then have "slots_hold (x_hash x) s' a b" using 3(2) by (simp add: slots_hold_def Let_def)
    then show ?thesis using that [of s'] s' 3(1) by (auto simp: slots_ok_def)
  qed (use assms that [of s0] in \<open>auto simp: load_committed_def slots_ok_def fresh_def chunks.simps
      List.map_filter_def LEGACY_COMMITTED_SLOT_def\<close>)
qed

lemma torn_slot_read:
  assumes hold: "slots_hold h s a b" and d: "\<And>bs. dv_slots d = Some bs \<Longrightarrow> bs = [] \<or> bs = a @ b"
    and v: "length v = COMMITTED_SLOT"
    and d': "dv_slots d' = Some (slot_at (in_committed_generation s + 1) v a @ slot_at (in_committed_generation s + 1) b v)"
    and det: "tear_detected h s c d d'"
  shows "decode_committed h v = None \<or>
         decode_committed h v = decode_committed h (slot_at (in_committed_generation s + 1) a b) \<or>
         decode_committed h v = Some (in_committed_generation s + 1, c)"
proof -
  let ?g = "in_committed_generation s + 1"
  have len: "length a = COMMITTED_SLOT" "length b = COMMITTED_SLOT" using hold by (simp_all add: slots_hold_def)
  have "written_slot ?g (slot_at ?g v a @ slot_at ?g b v) = v"
    using len v by (subst written_slot_pair) (auto simp: slot_at_def)
  moreover have "written_slot ?g [] = []" by (simp add: written_slot_def)
  ultimately show ?thesis using det d d' decode_short [of "[]" h] written_slot_pair [OF len]
    by (cases "dv_slots d") (auto simp: tear_detected_def Let_def LEGACY_COMMITTED_SLOT_def)
qed

lemma committed_crash_slots:
  assumes ok: "slots_ok h s d" and g: "unat (in_committed_generation s) + 1 < 2 ^ 64"
    and cr: "crashed (snd (write_committed h s d c)) d d'" and det: "tear_detected h s c d d'"
  shows "\<exists>s1. slots_ok h s1 d' \<and> in_committed s1 \<in> {in_committed s, c} \<and> dv_committed d' = dv_committed d"
proof -
  let ?g = "in_committed_generation s" and ?P = "\<not> in_committed_file s \<and> dv_slots d = None"
  let ?d = "if ?P then exec_step (SizeSlots (2 * COMMITTED_SLOT)) d else d"
  obtain a b where hold: "slots_hold h s a b"
    and wr: "\<And>w. length w = COMMITTED_SLOT \<Longrightarrow>
       map_option (write_at (unat ((?g + 1) mod 2) * COMMITTED_SLOT) w) (dv_slots ?d) = Some (slot_at (?g + 1) w a @ slot_at (?g + 1) b w)"
    and bs: "\<And>bs. dv_slots d = Some bs \<Longrightarrow> bs = [] \<or> bs = a @ b"
    by (rule slots_base [OF ok]) blast
  have zz: "replicate (2 * COMMITTED_SLOT) (0 :: u8) = replicate COMMITTED_SLOT 0 @ replicate COMMITTED_SLOT 0"
    by (simp add: replicate_add [symmetric] mult_2)
  from cr have "crashed ((if ?P then [SizeSlots (2 * COMMITTED_SLOT)] else []) @
      [WriteSlots (unat ((?g + 1) mod 2) * COMMITTED_SLOT) (encode_committed h (?g + 1) c)]) d d'"
    by (simp add: write_committed_def Let_def)
  then show ?thesis
  proof (rule crashed_committed)
    assume "?P" and d': "d' = exec_step (SizeSlots (2 * COMMITTED_SLOT)) d"
    then have "in_committed s = None" "?g = 0" using ok by (auto simp: slots_ok_def)
    then show ?thesis using zero_slots [of s h] d' zz by (intro exI [of _ s]) (auto simp: slots_ok_def)
  next
    fix v assume v: "length v = length (encode_committed h (?g + 1) c)"
      and d': "dv_slots d' = map_option (write_at (unat ((?g + 1) mod 2) * COMMITTED_SLOT) v) (dv_slots ?d)"
      and dc: "dv_committed d' = dv_committed d"
    have v: "length v = COMMITTED_SLOT" using v by simp
    note d' = d' [unfolded wr [OF v]]
    from torn_slot_read [OF hold bs v d' det] consider
      "decode_committed h v = None \<or> decode_committed h v = decode_committed h (slot_at (?g + 1) a b)"
      | "decode_committed h v = Some (?g + 1, c)" by blast
    then show ?thesis
    proof cases
      case 1
      then show ?thesis using slots_after_tear [OF hold v] d' dc by (intro exI [of _ s]) (auto simp: slots_ok_def)
    next
      case 2
      then show ?thesis using slots_after_write [OF hold g v 2, of True] d' dc
        by (intro exI [of _ "s\<lparr>in_committed_generation := ?g + 1, in_committed := c, in_committed_file := True\<rparr>"])
          (auto simp: slots_ok_def)
    qed
  qed (use ok in \<open>auto simp: slots_ok_def intro!: exI [of _ s]\<close>)
qed

text \<open>A completed write: the watermark is the one that was written.\<close>

lemma write_committed_ok:
  assumes ok: "slots_ok h s d" and g: "unat (in_committed_generation s) + 1 < 2 ^ 64"
    and W: "write_committed h s d c = (s', ss)"
  shows "slots_ok h s' (exec_steps ss d)" "in_committed s' = c" "dv_segs (exec_steps ss d) = dv_segs d"
    "same_marks d ((exec_steps ss d)\<lparr>dv_slots := dv_slots d\<rparr>)" "dv_tmps (exec_steps ss d) = dv_tmps d"
proof -
  let ?g = "in_committed_generation s" and ?w = "encode_committed h (in_committed_generation s + 1) c"
  obtain a b where hold: "slots_hold h s a b"
    and wr: "map_option (write_at (unat ((?g + 1) mod 2) * COMMITTED_SLOT) ?w)
        (dv_slots (if \<not> in_committed_file s \<and> dv_slots d = None then exec_step (SizeSlots (2 * COMMITTED_SLOT)) d else d)) =
      Some (slot_at (?g + 1) ?w a @ slot_at (?g + 1) b ?w)"
    by (rule slots_base [OF ok]) simp
  have s': "s' = s\<lparr>in_committed_generation := ?g + 1, in_committed := c, in_committed_file := True\<rparr>"
    using W by (auto simp: write_committed_def Let_def)
  have "dv_slots (exec_steps ss d) = Some (slot_at (?g + 1) ?w a @ slot_at (?g + 1) b ?w)"
    using W wr by (auto simp: write_committed_def Let_def)
  then show "slots_ok h s' (exec_steps ss d)"
    using slots_after_write [OF hold g _ committed_round_trip, where f = True] by (auto simp: slots_ok_def s')
  show "in_committed s' = c" by (simp add: s')
  show "dv_segs (exec_steps ss d) = dv_segs d" "dv_tmps (exec_steps ss d) = dv_tmps d"
    "same_marks d ((exec_steps ss d)\<lparr>dv_slots := dv_slots d\<rparr>)"
    using W by (auto simp: write_committed_def Let_def same_marks_def)
qed

end
