(* ===== verification/Fs_Store.thy ===== *)
theory Fs_Store
  imports Fs_Committed
begin

text \<open>
  The interface of a log store (\<open>RaftLogStore\<close>), the in-memory and the filesystem implementation
  of it, and what any implementation does on a sequence of operations that keeps the caller's
  contract.
\<close>

section \<open>The interface\<close>

record 's LogStore =
  st_append :: "'s \<Rightarrow> LogEntry list \<Rightarrow> StorageError + 's"
  st_truncate_from :: "'s \<Rightarrow> u64 \<Rightarrow> StorageError + 's"
  st_purge_through :: "'s \<Rightarrow> LogId \<Rightarrow> StorageError + 's"
  st_save_committed :: "'s \<Rightarrow> LogId option \<Rightarrow> StorageError + 's"
  st_read_range :: "'s \<Rightarrow> u64 \<Rightarrow> u64 \<Rightarrow> StorageError + LogEntry list"
  st_log_state :: "'s \<Rightarrow> LogState"
  st_read_committed :: "'s \<Rightarrow> LogId option"
  st_save_vote :: "'s \<Rightarrow> Vote \<Rightarrow> StorageError + 's"
  st_read_vote :: "'s \<Rightarrow> StorageError + Vote option"

definition mem_store :: "LogStoreState LogStore" where
  "mem_store =
     \<lparr>st_append = \<lambda>s es. Inr (mem_append s es),
      st_truncate_from = \<lambda>s i. Inr (mem_truncate_from s i),
      st_purge_through = \<lambda>s i. Inr (mem_purge_through s i),
      st_save_committed = \<lambda>s c. Inr (mem_save_committed s c),
      st_read_range = \<lambda>s lo hi. Inr (mem_read_range s lo hi),
      st_log_state = mem_log_state,
      st_read_committed = mem_read_committed,
      st_save_vote = \<lambda>s v. Inr (mem_save_vote s v),
      st_read_vote = \<lambda>s. Inr (mem_read_vote s)\<rparr>"

text \<open>An operation of the filesystem store, with all its steps done on the device.\<close>

definition finished :: "Device \<Rightarrow> StorageError + (Inner \<times> DeviceStep list) \<Rightarrow> StorageError + (Inner \<times> Device)" where
  "finished d r = (case r of Inl err \<Rightarrow> Inl err | Inr (s, ss) \<Rightarrow> Inr (s, exec_steps ss d))"

definition fs_store :: "Extern \<Rightarrow> (Inner \<times> Device) LogStore" where
  "fs_store x =
     \<lparr>st_append = \<lambda>(s, d) es. finished d (fs_append (x_hash x) s es),
      st_truncate_from = \<lambda>(s, d) i. finished d (Inr (fs_truncate_from s i)),
      st_purge_through = \<lambda>(s, d) i. finished d (fs_purge_through x s i),
      st_save_committed = \<lambda>(s, d) c. finished d (Inr (write_committed (x_hash x) s d c)),
      st_read_range = \<lambda>(s, d) lo hi. fs_read_range (x_hash x) s d lo hi,
      st_log_state = \<lambda>(s, d). fs_log_state s,
      st_read_committed = \<lambda>(s, d). in_committed s,
      st_save_vote = \<lambda>(s, d) v. finished d (map_sum id (Pair s) (fs_save_vote x v)),
      st_read_vote = \<lambda>(s, d). fs_read_vote x d\<rparr>"

datatype LogOp =
    OpAppend "LogEntry list"
  | OpTruncate u64
  | OpPurge LogId
  | OpCommit "LogId option"

fun store_op :: "'s LogStore \<Rightarrow> 's \<Rightarrow> LogOp \<Rightarrow> StorageError + 's" where
  "store_op st s (OpAppend es) = st_append st s es"
| "store_op st s (OpTruncate i) = st_truncate_from st s i"
| "store_op st s (OpPurge i) = st_purge_through st s i"
| "store_op st s (OpCommit c) = st_save_committed st s c"

fun store_run :: "'s LogStore \<Rightarrow> 's \<Rightarrow> LogOp list \<Rightarrow> StorageError + 's" where
  "store_run st s [] = Inr s"
| "store_run st s (op # ops) = (case store_op st s op of Inl err \<Rightarrow> Inl err | Inr s' \<Rightarrow> store_run st s' ops)"

section \<open>The specification\<close>

text \<open>The log of live entries, the purge marker and the committed watermark.\<close>

record LogSpec =
  sp_log :: "LogEntry list"
  sp_purged :: "LogId option"
  sp_committed :: "LogId option"

definition purge_mark :: "LogId option \<Rightarrow> LogId \<Rightarrow> LogId option" where
  "purge_mark p i = (case p of Some old \<Rightarrow> if l_index old \<ge> l_index i then p else Some i | None \<Rightarrow> Some i)"

fun spec_op :: "LogSpec \<Rightarrow> LogOp \<Rightarrow> LogSpec" where
  "spec_op a (OpAppend es) = a\<lparr>sp_log := sp_log a @ es\<rparr>"
| "spec_op a (OpTruncate i) = a\<lparr>sp_log := filter (\<lambda>e. idx e < i) (sp_log a)\<rparr>"
| "spec_op a (OpPurge i) =
     a\<lparr>sp_log := filter (\<lambda>e. l_index i < idx e) (sp_log a), sp_purged := purge_mark (sp_purged a) i\<rparr>"
| "spec_op a (OpCommit c) = a\<lparr>sp_committed := c\<rparr>"

text \<open>
  What the caller guarantees: an append continues the log, a truncation does not reach below the
  purge marker, and no index is the greatest 64-bit number.
\<close>

fun keeps_contract :: "LogSpec \<Rightarrow> LogOp \<Rightarrow> bool" where
  "keeps_contract a (OpAppend es) = (es = [] \<or> continues (map_option l_index (sp_purged a)) (sp_log a) es)"
| "keeps_contract a (OpTruncate i) = live (map_option l_index (sp_purged a)) i"
| "keeps_contract a (OpPurge i) = (unat (l_index i) + 1 < 2 ^ 64)"
| "keeps_contract a (OpCommit c) = True"

fun contract_run :: "LogSpec \<Rightarrow> LogOp list \<Rightarrow> bool" where
  "contract_run a [] = True"
| "contract_run a (op # ops) = (keeps_contract a op \<and> contract_run (spec_op a op) ops)"

definition spec_run :: "LogSpec \<Rightarrow> LogOp list \<Rightarrow> LogSpec" where
  "spec_run a ops = foldl spec_op a ops"

definition spec_new :: LogSpec where
  "spec_new = \<lparr>sp_log = [], sp_purged = None, sp_committed = None\<rparr>"

definition spec_state :: "LogSpec \<Rightarrow> LogState" where
  "spec_state a =
     \<lparr>ls_last_purged = sp_purged a,
      ls_last_log = (if sp_log a = [] then None else Some (le_log_id (last (sp_log a))))\<rparr>"

section \<open>What a log store promises\<close>

locale raft_log_store =
  fixes st :: "'s LogStore"
    and holds :: "'s \<Rightarrow> LogSpec \<Rightarrow> bool"
  assumes op_holds: "holds s a \<Longrightarrow> keeps_contract a op \<Longrightarrow> \<exists>s'. store_op st s op = Inr s' \<and> holds s' (spec_op a op)"
    and range_holds: "holds s a \<Longrightarrow> st_read_range st s lo hi = Inr (filter (\<lambda>e. lo \<le> idx e \<and> idx e < hi) (sp_log a))"
    and state_holds: "holds s a \<Longrightarrow> st_log_state st s = spec_state a"
    and committed_holds: "holds s a \<Longrightarrow> st_read_committed st s = sp_committed a"
begin

lemma run_holds:
  "holds s a \<Longrightarrow> contract_run a ops \<Longrightarrow> \<exists>s'. store_run st s ops = Inr s' \<and> holds s' (spec_run a ops)"
proof (induction ops arbitrary: s a)
  case (Cons op ops)
  then obtain s' where "store_op st s op = Inr s'" "holds s' (spec_op a op)" using op_holds [of s a op] by auto
  then show ?case using Cons.IH [of s' "spec_op a op"] Cons.prems by (simp add: spec_run_def)
qed (simp add: spec_run_def)

end

section \<open>The in-memory store\<close>

definition mem_holds :: "LogStoreState \<Rightarrow> LogSpec \<Rightarrow> bool" where
  "mem_holds s a \<longleftrightarrow>
     lg_entries s = map (\<lambda>e. (idx e, e)) (sp_log a) \<and> bs_ok (map idx (sp_log a)) \<and>
     lg_last_purged s = sp_purged a \<and> lg_committed s = sp_committed a"

lemma mem_append_all:
  "bs_ok (map idx (L @ es)) \<Longrightarrow>
   foldl (\<lambda>m e. bm_insert (idx e) e m) (map (\<lambda>e. (idx e, e)) L) es = map (\<lambda>e. (idx e, e)) (L @ es)"
proof (induction es arbitrary: L)
  case (Cons e es)
  then have "bm_insert (idx e) e (map (\<lambda>e. (idx e, e)) L) = map (\<lambda>e. (idx e, e)) (L @ [e])"
    by (subst bm_insert_last) (auto simp: bs_ok_append)
  then show ?case using Cons.IH [of "L @ [e]"] Cons.prems by simp
qed simp

lemma continues_sorted:
  assumes "continues co L es" and "bs_ok (map idx L)"
  shows "bs_ok (map idx (L @ es))"
proof -
  have "idx e < idx e'" if "e \<in> set L" "e' \<in> set es" for e e'
  proof -
    have "L \<noteq> []" using that(1) by auto
    moreover have "idx e \<le> idx (last L)"
      using assms(2) that(1) by (cases L rule: rev_cases) (auto simp: bs_ok_append less_imp_le)
    moreover have "unat (idx (hd es)) \<le> unat (idx e')" using assms(1) that(2) numbered_range
      unfolding continues_def by blast
    ultimately show ?thesis using assms(1) by (simp add: continues_def word_less_nat_alt word_le_nat_alt)
  qed
  then show ?thesis using assms numbered_sorted [of "unat (idx (hd es))" es]
    by (auto simp: bs_ok_append continues_def)
qed

lemma filter_pairs: "filter (\<lambda>(i, e). P i) (map (\<lambda>e. (idx e, e)) L) = map (\<lambda>e. (idx e, e)) (filter (\<lambda>e. P (idx e)) L)"
  by (simp add: filter_map comp_def)

lemma mem_op_holds:
  assumes h: "mem_holds s a" and c: "keeps_contract a op"
  shows "\<exists>s'. store_op mem_store s op = Inr s' \<and> mem_holds s' (spec_op a op)"
proof (cases op)
  case (OpAppend es)
  then have "bs_ok (map idx (sp_log a @ es))" using h c continues_sorted by (cases "es = []") (auto simp: mem_holds_def)
  then show ?thesis using h OpAppend mem_append_all by (simp add: mem_holds_def mem_store_def mem_append_def)
next
  case (OpTruncate i)
  then show ?thesis using h bs_ok_filter [of "map idx (sp_log a)" "\<lambda>j. j < i"]
    by (simp add: mem_holds_def mem_store_def mem_truncate_from_def filter_pairs filter_map comp_def)
next
  case (OpPurge i)
  then show ?thesis using h bs_ok_filter [of "map idx (sp_log a)" "\<lambda>j. l_index i < j"]
    by (auto simp: mem_holds_def mem_store_def mem_purge_through_def purge_mark_def Let_def filter_pairs filter_map comp_def
        split: option.splits)
next
  case (OpCommit c)
  then show ?thesis using h by (simp add: mem_holds_def mem_store_def mem_save_committed_def)
qed

interpretation mem: raft_log_store mem_store mem_holds
proof
  show "\<exists>s'. store_op mem_store s op = Inr s' \<and> mem_holds s' (spec_op a op)" if "mem_holds s a" "keeps_contract a op" for s a op
    by (rule mem_op_holds [OF that])
  show "st_read_range mem_store s lo hi = Inr (filter (\<lambda>e. lo \<le> idx e \<and> idx e < hi) (sp_log a))"
    if "mem_holds s a" for s a lo hi
    using that by (simp add: mem_holds_def mem_store_def mem_read_range_def filter_map comp_def)
  show "st_log_state mem_store s = spec_state a" if "mem_holds s a" for s a
    using that by (simp add: mem_holds_def mem_store_def mem_log_state_def spec_state_def bm_last_def last_map)
qed (simp_all add: mem_holds_def mem_store_def mem_read_committed_def)

section \<open>The filesystem store\<close>

definition fs_holds :: "Extern \<Rightarrow> Inner \<times> Device \<Rightarrow> LogSpec \<Rightarrow> bool" where
  "fs_holds x sd a \<longleftrightarrow>
     ids_ok x \<and>
     (\<exists>ps. rep x (fst sd) (snd sd) ps \<and> joined (cutoff (fst sd)) ps \<and> sp_log a = logged (cutoff (fst sd)) ps) \<and>
     in_last_purged (fst sd) = sp_purged a \<and> in_committed (fst sd) = sp_committed a"

lemma fs_holdsE:
  assumes "fs_holds x (s, d) a"
  obtains ps where "ids_ok x" "rep x s d ps" "joined (cutoff s) ps" "sp_log a = logged (cutoff s) ps"
    "in_last_purged s = sp_purged a" "in_committed s = sp_committed a" "cutoff s = map_option l_index (sp_purged a)"
  using assms by (auto simp: fs_holds_def cutoff_def)

lemma appended_logged:
  assumes c: "continues co (logged co ps) es" and e: "entries ps' = entries ps @ es"
  shows "logged co ps' = logged co ps @ es"
  using continues_live [OF c] e by (auto simp: logged_def intro!: filter_True)

lemma fs_append_holds:
  assumes "fs_holds x (s, d) a" and "keeps_contract a (OpAppend es)"
  shows "\<exists>s' ss. fs_append (x_hash x) s es = Inr (s', ss) \<and> fs_holds x (s', exec_steps ss d) (spec_op a (OpAppend es))"
proof (cases "es = []")
  case True
  then show ?thesis using assms(1) by (simp add: fs_append_def)
next
  case False
  obtain ps where h: "ids_ok x" "rep x s d ps" "joined (cutoff s) ps" "sp_log a = logged (cutoff s) ps"
    "in_last_purged s = sp_purged a" "in_committed s = sp_committed a" "cutoff s = map_option l_index (sp_purged a)"
    by (rule fs_holdsE [OF assms(1)])
  have c: "continues (cutoff s) (logged (cutoff s) ps) es" using assms(2) False h(4,7) by simp
  obtain s' ss ps' where A: "fs_append (x_hash x) s es = Inr (s', ss)" "rep x s' (exec_steps ss d) ps'"
    "entries ps' = entries ps @ es" "same_rest s s'"
    by (rule append_rep [OF h(2,3) c])
  have "logged (cutoff s) ps' = logged (cutoff s) ps @ es" by (rule appended_logged [OF c A(3)])
  moreover from this have "joined (cutoff s) ps'" using False by (intro joined_live) simp
  ultimately show ?thesis using A h same_rest_cutoff [OF A(4)]
    by (auto simp: fs_holds_def same_rest_def intro!: exI [of _ ps'])
qed

lemma fs_truncate_holds:
  assumes "fs_holds x (s, d) a" and "keeps_contract a (OpTruncate i)" and "fs_truncate_from s i = (s', ss)"
  shows "fs_holds x (s', exec_steps ss d) (spec_op a (OpTruncate i))"
proof -
  obtain ps where h: "ids_ok x" "rep x s d ps" "joined (cutoff s) ps" "sp_log a = logged (cutoff s) ps"
    "in_last_purged s = sp_purged a" "in_committed s = sp_committed a" "cutoff s = map_option l_index (sp_purged a)"
    by (rule fs_holdsE [OF assms(1)])
  have lv: "live (cutoff s) i" using assms(2) h(7) by simp
  obtain s1 ss1 ps' where T: "fs_truncate_from s i = (s1, ss1)" "rep x s1 (exec_steps ss1 d) ps'" "joined (cutoff s) ps'"
    "same_rest s s1" "logged (cutoff s) ps' = filter (\<lambda>e. idx e < i) (logged (cutoff s) ps)"
    by (rule truncate_rep [OF h(2,3) lv])
  then have "s1 = s'" "ss1 = ss" using assms(3) by simp_all
  then show ?thesis using T h same_rest_cutoff [OF T(4)]
    by (auto simp: fs_holds_def same_rest_def intro!: exI [of _ ps'])
qed

lemma fs_purge_holds:
  assumes "fs_holds x (s, d) a" and "keeps_contract a (OpPurge i)"
  shows "\<exists>s' ss. fs_purge_through x s i = Inr (s', ss) \<and> fs_holds x (s', exec_steps ss d) (spec_op a (OpPurge i))"
proof -
  obtain ps where h: "ids_ok x" "rep x s d ps" "joined (cutoff s) ps" "sp_log a = logged (cutoff s) ps"
    "in_last_purged s = sp_purged a" "in_committed s = sp_committed a" "cutoff s = map_option l_index (sp_purged a)"
    by (rule fs_holdsE [OF assms(1)])
  have mx: "unat (l_index i) + 1 < 2 ^ 64" using assms(2) by simp
  obtain s' ss ps' where P: "fs_purge_through x s i = Inr (s', ss)" "rep x s' (exec_steps ss d) ps'"
    "joined (cutoff s') ps'" "same_rest s (s'\<lparr>in_last_purged := in_last_purged s\<rparr>)" "in_last_purged s' = after_purge s i"
    "logged (cutoff s') ps' = filter (\<lambda>e. l_index i < idx e) (logged (cutoff s) ps)"
    by (rule purge_rep [OF h(2,3,1) mx])
  have "after_purge s i = purge_mark (sp_purged a) i"
    using h(5) by (auto simp: after_purge_def covered_def purge_mark_def split: option.splits)
  then show ?thesis using P h by (auto simp: fs_holds_def same_rest_def intro!: exI [of _ ps'])
qed

lemma commit_rep:
  assumes "rep x s d ps" and "write_committed (x_hash x) s d c = (s', ss)"
  shows "rep x s' (exec_steps ss d) ps" "in_last_purged s' = in_last_purged s" "in_committed s' = c"
proof -
  have s': "in_segments s' = in_segments s" "in_index s' = in_index s" "in_active s' = in_active s"
      "in_last_purged s' = in_last_purged s" "in_segment_bytes s' = in_segment_bytes s" "in_committed s' = c"
    using assms(2) by (auto simp: write_committed_def Let_def)
  have d': "dv_segs (exec_steps ss d) = dv_segs d" "dv_tmps (exec_steps ss d) = dv_tmps d"
      "dv_entries (exec_steps ss d) = dv_entries d" "dv_committed (exec_steps ss d) = dv_committed d"
      "dv_last_purged (exec_steps ss d) = dv_last_purged d"
    using assms(2) by (auto simp: write_committed_def Let_def)
  show "rep x s' (exec_steps ss d) ps" using assms(1) s' d' by (simp add: rep_def cutoff_def purged_ok_def)
  show "in_last_purged s' = in_last_purged s" "in_committed s' = c" using s' by simp_all
qed

lemma fs_commit_holds:
  assumes "fs_holds x (s, d) a" and W: "write_committed (x_hash x) s d c = (s', ss)"
  shows "fs_holds x (s', exec_steps ss d) (spec_op a (OpCommit c))"
proof -
  obtain ps where h: "ids_ok x" "rep x s d ps" "joined (cutoff s) ps" "sp_log a = logged (cutoff s) ps"
    "in_last_purged s = sp_purged a" "in_committed s = sp_committed a" "cutoff s = map_option l_index (sp_purged a)"
    by (rule fs_holdsE [OF assms(1)])
  have "cutoff s' = cutoff s" using commit_rep(2) [OF h(2) W] by (simp add: cutoff_def)
  then show ?thesis using commit_rep [OF h(2) W] h by (auto simp: fs_holds_def intro!: exI [of _ ps])
qed

lemma fs_op_holds:
  assumes "fs_holds x s a" and "keeps_contract a op"
  shows "\<exists>s'. store_op (fs_store x) s op = Inr s' \<and> fs_holds x s' (spec_op a op)"
proof -
  obtain i d where s: "s = (i, d)" by fastforce
  show ?thesis
  proof (cases op)
    case (OpAppend es)
    then show ?thesis using fs_append_holds assms by (fastforce simp: s fs_store_def finished_def)
  next
    case (OpTruncate n)
    then show ?thesis using fs_truncate_holds assms by (cases "fs_truncate_from i n") (auto simp: s fs_store_def finished_def)
  next
    case (OpPurge n)
    then show ?thesis using fs_purge_holds assms by (fastforce simp: s fs_store_def finished_def)
  next
    case (OpCommit c)
    then show ?thesis using fs_commit_holds assms
      by (cases "write_committed (x_hash x) i d c") (auto simp: s fs_store_def finished_def)
  qed
qed

interpretation fs: raft_log_store "fs_store x" "fs_holds x" for x
proof
  show "\<exists>s'. store_op (fs_store x) s op = Inr s' \<and> fs_holds x s' (spec_op a op)" if "fs_holds x s a" "keeps_contract a op" for s a op
    by (rule fs_op_holds [OF that])
  show "st_read_range (fs_store x) s lo hi = Inr (filter (\<lambda>e. lo \<le> idx e \<and> idx e < hi) (sp_log a))" if "fs_holds x s a" for s a lo hi
    using that rep_read_range by (cases s) (auto simp: fs_holds_def fs_store_def)
  show "st_log_state (fs_store x) s = spec_state a" if "fs_holds x s a" for s a
    using that rep_log_state by (cases s) (auto simp: fs_holds_def fs_store_def spec_state_def)
  show "st_read_committed (fs_store x) s = sp_committed a" if "fs_holds x s a" for s a
    using that by (cases s) (auto simp: fs_holds_def fs_store_def)
qed

lemma empty_image: "disk_image x empty_device None [] []"
  by (simp add: disk_image_def empty_device_def chained_def last_stuck_def purged_ok_def)

lemma fs_fresh:
  assumes "ids_ok x" and "SEGMENT_HEADER < sb"
  obtains s ss where "fs_open x sb empty_device = Inr (s, ss)" "fs_holds x (s, exec_steps ss empty_device) spec_new"
proof -
  obtain s ss where o: "fs_open x sb empty_device = Inr (s, ss)" "rep x s (exec_steps ss empty_device) []" "in_last_purged s = None"
    by (rule open_image [OF empty_image assms(2)])
  moreover have "in_committed s = None"
    using o(1) by (auto simp: fs_open_def empty_device_def migrate_legacy_entries_def scan_segments_def load_committed_def Let_def)
  ultimately have "fs_holds x (s, exec_steps ss empty_device) spec_new"
    using assms(1) by (auto simp: fs_holds_def spec_new_def joined_def intro!: exI [of _ "[]"])
  then show ?thesis using that [OF o(1)] by simp
qed

end
