(* ===== verification/Fs_Props.thy ===== *)
theory Fs_Props
  imports Fs_Store
begin

text \<open>
  The guarantees of the filesystem log store: it behaves like the in-memory store, and whenever the
  node stops in the middle of an operation, reopening the store finds everything that had been
  acknowledged.
\<close>

section \<open>Operations as device programs\<close>

fun fs_do :: "Extern \<Rightarrow> Inner \<Rightarrow> Device \<Rightarrow> LogOp \<Rightarrow> StorageError + (Inner \<times> DeviceStep list)" where
  "fs_do x s d (OpAppend es) = fs_append (x_hash x) s es"
| "fs_do x s d (OpTruncate i) = Inr (fs_truncate_from s i)"
| "fs_do x s d (OpPurge i) = fs_purge_through x s i"
| "fs_do x s d (OpCommit c) = Inr (write_committed (x_hash x) s d c)"

lemma store_op_do: "store_op (fs_store x) (s, d) op = finished d (fs_do x s d op)"
  by (cases op) (simp_all add: fs_store_def)

text \<open>The steps that touch the log and those that touch the committed slots.\<close>

fun log_step :: "DeviceStep \<Rightarrow> bool" where
  "log_step (SizeSlots n) = False"
| "log_step (WriteSlots off bs) = False"
| "log_step (PutSlots bs) = False"
| "log_step RemoveCommitted = False"
| "log_step _ = True"

fun slot_step :: "DeviceStep \<Rightarrow> bool" where
  "slot_step (SizeSlots n) = True"
| "slot_step (WriteSlots off bs) = True"
| "slot_step _ = False"

lemma log_steps_slots:
  "crashed ss d d' \<Longrightarrow> \<forall>s \<in> set ss. log_step s \<Longrightarrow> dv_slots d' = dv_slots d \<and> dv_committed d' = dv_committed d"
proof (induction ss d d' rule: crashed.induct)
  case (crash_in s d d' ss)
  then show ?case by (auto elim: torn.cases)
next
  case (crash_after ss s d d')
  then show ?case by (cases s) (auto split: option.splits)
qed simp

lemma slot_steps_log:
  "crashed ss d d' \<Longrightarrow> \<forall>s \<in> set ss. slot_step s \<Longrightarrow>
   dv_segs d' = dv_segs d \<and> dv_entries d' = dv_entries d \<and> dv_last_purged d' = dv_last_purged d \<and> dv_committed d' = dv_committed d"
proof (induction ss d d' rule: crashed.induct)
  case (crash_in s d d' ss)
  then show ?case by (auto elim: torn.cases)
next
  case (crash_after ss s d d')
  then show ?case by (cases s) auto
qed simp

lemma exec_crashed: "crashed ss d (exec_steps ss d)"
  by (induction ss arbitrary: d) (auto intro: crashed.intros)

lemma append_log_steps: "fs_append h s es = Inr (s', ss) \<Longrightarrow> \<forall>t \<in> set ss. log_step t"
  by (auto simp: fs_append_def drop_leftover_def start_segment_def write_entries_def Let_def
      split: list.splits if_splits prod.splits)

lemma truncate_log_steps: "fs_truncate_from s i = (s', ss) \<Longrightarrow> \<forall>t \<in> set ss. log_step t"
  by (auto simp: fs_truncate_from_def Let_def split: if_splits prod.splits)

lemma purge_log_steps: "fs_purge_through x s i = Inr (s', ss) \<Longrightarrow> \<forall>t \<in> set ss. log_step t"
  by (auto simp: fs_purge_through_def Let_def split: if_splits option.splits sum.splits)

lemma commit_slot_steps: "write_committed h s d c = (s', ss) \<Longrightarrow> \<forall>t \<in> set ss. slot_step t"
  by (auto simp: write_committed_def Let_def)

lemma do_log_steps: "fs_do x s d op = Inr (s', ss) \<Longrightarrow> \<forall>c. op \<noteq> OpCommit c \<Longrightarrow> \<forall>t \<in> set ss. log_step t"
  using append_log_steps truncate_log_steps purge_log_steps by (cases op) fastforce+

section \<open>Stopping and reopening\<close>

lemma slots_hold_cong:
  "in_committed s' = in_committed s \<Longrightarrow> in_committed_generation s' = in_committed_generation s \<Longrightarrow>
   slots_hold h s' a b = slots_hold h s a b"
  by (simp only: slots_hold_def)

lemma slots_ok_cong:
  "slots_ok h s d \<Longrightarrow> in_committed s' = in_committed s \<Longrightarrow> in_committed_generation s' = in_committed_generation s \<Longrightarrow>
   in_committed_file s' = in_committed_file s \<Longrightarrow> dv_slots d' = dv_slots d \<Longrightarrow> slots_ok h s' d'"
  by (simp add: slots_ok_def slots_hold_cong [of s' s] split: option.splits)

lemma scan_log_steps: "scan_files h co fs ex segs m = Inr (segs', m', ss) \<Longrightarrow> \<forall>t \<in> set ss. log_step t"
  by (induction h co fs ex segs m rule: scan_files.induct)
    (auto simp: Let_def split: if_splits prod.splits)

lemma open_committed:
  assumes op: "fs_open x sb d = Inr (s, ss)" and ok: "slots_ok (x_hash x) s1 d"
    and dc: "dv_committed d = None" and de: "dv_entries d = []"
  shows "in_committed s = in_committed s1" "slots_ok (x_hash x) s (exec_steps ss d)" "\<forall>t \<in> set ss. log_step t"
proof -
  obtain p where lp: "(case dv_last_purged d of None \<Rightarrow> Inr None
      | Some bs \<Rightarrow> (case x_from_id x bs of Inl err \<Rightarrow> Inl (Serialization (''decode last_purged: '' @ err)) | Inr i \<Rightarrow> Inr (Some i))) = Inr p"
    using op by (auto simp: fs_open_def split: sum.splits)
  let ?s0 = "\<lparr>in_segment_bytes = sb, in_segments = [], in_index = [], in_active = None, in_last_purged = p,
      in_committed = None, in_committed_generation = 0, in_committed_file = False\<rparr>"
  note op = op [unfolded fs_open_def lp Let_def sum.case]
  obtain ss1 where m: "migrate_legacy_entries x (cutoff ?s0) d = Inr ss1" using op by (auto split: sum.splits)
  obtain s2 ss2 where sc: "scan_segments (x_hash x) ?s0 (exec_steps ss1 d) = Inr (s2, ss2)"
    using op by (auto simp: m split: sum.splits)
  obtain ss3 where ld: "load_committed x s2 (exec_steps (ss1 @ ss2) d) = Inr (s, ss3)" and ss: "ss = ss1 @ ss2 @ ss3"
    using op by (auto simp: m sc split: sum.splits)
  have st: "\<forall>t \<in> set (ss1 @ ss2). log_step t"
    using m de sc scan_log_steps by (auto simp: migrate_legacy_entries_def scan_segments_def split: sum.splits)
  with log_steps_slots [OF exec_crashed] have same: "dv_slots (exec_steps (ss1 @ ss2) d) = dv_slots d" "dv_committed (exec_steps (ss1 @ ss2) d) = dv_committed d"
    by blast+
  have "fresh s2" "\<not> in_committed_file s2" using sc by (auto simp: scan_segments_def fresh_def split: sum.splits)
  moreover have "slots_ok (x_hash x) s1 (exec_steps (ss1 @ ss2) d)" using slots_ok_cong [OF ok] same by simp
  ultimately obtain s' where "load_committed x s2 (exec_steps (ss1 @ ss2) d) = Inr (s', [])"
      "slots_ok (x_hash x) s' (exec_steps (ss1 @ ss2) d)" "in_committed s' = in_committed s1"
    using load_ok same dc by metis
  then show "in_committed s = in_committed s1" "slots_ok (x_hash x) s (exec_steps ss d)" "\<forall>t \<in> set ss. log_step t"
    using ld ss st by simp_all
qed

text \<open>What a log store may hold after the node stopped in the middle of an operation.\<close>

fun survives :: "LogOp \<Rightarrow> LogSpec \<Rightarrow> LogSpec \<Rightarrow> bool" where
  "survives (OpAppend es) a a' = (\<exists>k. a' = a\<lparr>sp_log := sp_log a @ take k es\<rparr>)"
| "survives (OpTruncate i) a a' =
     (\<exists>k. a' = a\<lparr>sp_log := take k (sp_log a)\<rparr> \<and> length (filter (\<lambda>e. idx e < i) (sp_log a)) \<le> k)"
| "survives op a a' = (a' = a \<or> a' = spec_op a op)"

text \<open>A purge that stays within the log, as after a snapshot of this node's own state.\<close>

fun within_log :: "LogSpec \<Rightarrow> LogOp \<Rightarrow> bool" where
  "within_log a (OpPurge i) = (sp_log a \<noteq> [] \<and> l_index i \<le> idx (last (sp_log a)))"
| "within_log a _ = True"

fun room :: "Inner \<Rightarrow> LogOp \<Rightarrow> bool" where
  "room s (OpCommit c) = (unat (in_committed_generation s) + 1 < 2 ^ 64)"
| "room s _ = True"

fun tear_seen :: "Extern \<Rightarrow> Inner \<Rightarrow> LogOp \<Rightarrow> Device \<Rightarrow> Device \<Rightarrow> bool" where
  "tear_seen x s (OpCommit c) d d' = tear_detected (x_hash x) s c d d'"
| "tear_seen x s _ d d' = True"

text \<open>
  A device that holds a given log; the flag \<open>j\<close> says that its segments join, so that the next
  append continues them.
\<close>

definition log_image :: "Extern \<Rightarrow> bool \<Rightarrow> Device \<Rightarrow> LogSpec \<Rightarrow> bool" where
  "log_image x j d a \<longleftrightarrow>
     (\<exists>ps junk. disk_image x d (sp_purged a) ps junk \<and> (j \<longrightarrow> joined (map_option l_index (sp_purged a)) ps) \<and>
        sp_log a = logged (map_option l_index (sp_purged a)) ps)"

lemma log_imageI:
  "disk_image x d p ps junk \<Longrightarrow> (j \<Longrightarrow> joined co ps) \<Longrightarrow> sp_log a = logged co ps \<Longrightarrow> sp_purged a = p \<Longrightarrow>
   co = map_option l_index p \<Longrightarrow> log_image x j d a"
  by (auto simp: log_image_def)

lemma append_crash:
  assumes h: "fs_holds x (s, d) a" and c: "keeps_contract a (OpAppend es)"
    and op: "fs_append (x_hash x) s es = Inr (s', ss)" and cr: "crashed ss d d'"
  shows "\<exists>k. log_image x j d' (a\<lparr>sp_log := sp_log a @ take k es\<rparr>)"
proof -
  obtain ps where r: "rep x s d ps" "joined (cutoff s) ps" "sp_log a = logged (cutoff s) ps" "in_last_purged s = sp_purged a"
      "cutoff s = map_option l_index (sp_purged a)"
    using fs_holdsE [OF h] by metis
  show ?thesis
  proof (cases "es = []")
    case True
    then have "d' = d" using op cr by (auto simp: fs_append_def elim: crashed.cases)
    then show ?thesis using image_rep [OF r(1)] r True by (auto simp: log_image_def)
  next
    case False
    then have k: "continues (cutoff s) (logged (cutoff s) ps) es" using c r by simp
    obtain s1 ss1 where A: "fs_append (x_hash x) s es = Inr (s1, ss1)"
      "\<And>d'. crashed ss1 d d' \<Longrightarrow> \<exists>ps1 junk k. disk_image x d' (in_last_purged s) ps1 junk \<and> entries ps1 = entries ps @ take k es"
      using append_rep [OF r(1,2) k] by metis
    moreover have "ss1 = ss" using A(1) op by simp
    ultimately obtain ps1 junk n where im: "disk_image x d' (in_last_purged s) ps1 junk" "entries ps1 = entries ps @ take n es"
      using cr by blast
    have L: "logged (cutoff s) ps1 = sp_log a @ take n es"
      using continues_live [OF k] im(2) r(3) by (auto simp: logged_def dest: in_set_takeD intro!: filter_True)
    have "joined (cutoff s) ps1"
    proof (cases "take n es = []")
      case True
      then show ?thesis using r(2,3) L im(2) by (simp add: joined_def)
    next
      case False
      then show ?thesis using L by (intro joined_live) simp
    qed
    then have "log_image x j d' (a\<lparr>sp_log := sp_log a @ take n es\<rparr>)" using L r(4,5) by (intro log_imageI [OF im(1)]) simp_all
    then show ?thesis ..
  qed
qed

lemma truncate_crashed:
  assumes h: "fs_holds x (s, d) a" and c: "keeps_contract a (OpTruncate i)"
    and op: "fs_truncate_from s i = (s', ss)" and cr: "crashed ss d d'"
  shows "\<exists>k. log_image x j d' (a\<lparr>sp_log := take k (sp_log a)\<rparr>) \<and> length (filter (\<lambda>e. idx e < i) (sp_log a)) \<le> k"
proof -
  obtain ps where r: "rep x s d ps" "joined (cutoff s) ps" "sp_log a = logged (cutoff s) ps" "in_last_purged s = sp_purged a"
      "cutoff s = map_option l_index (sp_purged a)"
    using fs_holdsE [OF h] by metis
  have lv: "live (cutoff s) i" using c r(5) by simp
  obtain s1 ss1 where T: "fs_truncate_from s i = (s1, ss1)"
    "\<And>d'. crashed ss1 d d' \<Longrightarrow>
       \<exists>ps1 k. disk_image x d' (in_last_purged s) ps1 [] \<and> joined (cutoff s) ps1 \<and>
         logged (cutoff s) ps1 = take k (logged (cutoff s) ps) \<and> length (filter (\<lambda>e. idx e < i) (logged (cutoff s) ps)) \<le> k"
    using truncate_rep [OF r(1,2) lv] by metis
  moreover have "ss1 = ss" using T(1) op by simp
  ultimately obtain ps1 k where im: "disk_image x d' (in_last_purged s) ps1 []" "joined (cutoff s) ps1"
      "logged (cutoff s) ps1 = take k (logged (cutoff s) ps)" and k: "length (filter (\<lambda>e. idx e < i) (logged (cutoff s) ps)) \<le> k"
    using cr by blast
  then have "log_image x j d' (a\<lparr>sp_log := take k (sp_log a)\<rparr>)" using r(3-5) by (intro log_imageI [OF im(1,2)]) simp_all
  then show ?thesis using k r(3) by auto
qed

lemma purge_crashed:
  assumes h: "fs_holds x (s, d) a" and c: "keeps_contract a (OpPurge i)"
    and op: "fs_purge_through x s i = Inr (s', ss)" and cr: "crashed ss d d'"
  shows "log_image x (within_log a (OpPurge i)) d' a \<or> log_image x (within_log a (OpPurge i)) d' (spec_op a (OpPurge i))"
proof -
  obtain ps where r: "ids_ok x" "rep x s d ps" "joined (cutoff s) ps" "sp_log a = logged (cutoff s) ps" "in_last_purged s = sp_purged a"
      "cutoff s = map_option l_index (sp_purged a)"
    using fs_holdsE [OF h] by metis
  have mx: "unat (l_index i) + 1 < 2 ^ 64" using c by simp
  have cv: "covered s (l_index i) \<Longrightarrow> ss = []"
    using op by (auto simp: fs_purge_through_def covered_def split: option.splits)
  show ?thesis
  proof (cases "covered s (l_index i)")
    case True
    then have "d' = d" using cv cr by (auto elim: crashed_NilE)
    then show ?thesis using log_imageI [OF image_rep [OF r(2)] r(3)] r(4-6) by simp
  next
    case False
    obtain s1 ss1 where P: "fs_purge_through x s i = Inr (s1, ss1)"
      "\<And>d'. crashed ss1 d d' \<Longrightarrow> purge_outcome x s i (logged (cutoff s) ps) d'"
      using purge_rep [OF r(2,3,1) mx] by metis
    have "ss1 = ss" using P(1) op by simp
    moreover have "purge_mark (sp_purged a) i = Some i"
      using False r(5) by (auto simp: covered_def purge_mark_def split: option.splits)
    ultimately show ?thesis using P(2) [of d'] cr r(4-6)
      by (auto simp: purge_outcome_def log_image_def)
  qed
qed

lemma commit_crash:
  assumes h: "fs_holds x (s, d) a" and op: "write_committed (x_hash x) s d c = (s', ss)" and cr: "crashed ss d d'"
  shows "log_image x j d' (a\<lparr>sp_committed := c'\<rparr>)"
proof -
  obtain ps where r: "rep x s d ps" "joined (cutoff s) ps" "sp_log a = logged (cutoff s) ps" "in_last_purged s = sp_purged a"
      "cutoff s = map_option l_index (sp_purged a)"
    using fs_holdsE [OF h] by metis
  have "disk_image x d' (in_last_purged s) ps []"
    using image_rep [OF r(1)] slot_steps_log [OF cr commit_slot_steps [OF op]] by (simp add: disk_image_def purged_ok_def)
  then show ?thesis using r by (intro log_imageI) simp_all
qed

section \<open>A node's life\<close>

text \<open>What a store shows to its readers.\<close>

definition fs_view :: "Extern \<Rightarrow> Inner \<times> Device \<Rightarrow> LogSpec" where
  "fs_view x sd =
     \<lparr>sp_log = (case fs_read_range (x_hash x) (fst sd) (snd sd) 0 (- 1) of Inl err \<Rightarrow> [] | Inr es \<Rightarrow> es),
      sp_purged = ls_last_purged (fs_log_state (fst sd)),
      sp_committed = in_committed (fst sd)\<rparr>"

lemma chained_below_max:
  assumes "chained ps" and "e \<in> set (entries ps)"
  shows "idx e < - 1"
proof -
  obtain n where n: "chain n ps" using assms by (auto simp: chained_def)
  have "unat (idx e) < n + length (entries ps)" using numbered_range [OF chain_numbered [OF n] assms(2)] by simp
  then have "unat (idx e) + 1 < 2 ^ 64" using chain_bound [OF n] by simp
  then have "idx e \<noteq> - 1" by (auto simp: unsigned_minus_1_eq_mask mask_eq_exp_minus_1)
  then show ?thesis by (simp add: order_less_le)
qed

lemma rep_view:
  assumes "rep x s d ps"
  shows "fs_view x (s, d) = \<lparr>sp_log = logged (cutoff s) ps, sp_purged = in_last_purged s, sp_committed = in_committed s\<rparr>"
proof -
  have "filter (\<lambda>e. 0 \<le> idx e \<and> idx e < - 1) (logged (cutoff s) ps) = logged (cutoff s) ps"
    using chained_below_max [OF repD(1) [OF assms]] by (auto simp: logged_def intro!: filter_cong)
  then show ?thesis using rep_read_range [OF assms, of 0 "- 1"] by (simp add: fs_view_def fs_log_state_def)
qed

lemma holds_view: "fs_holds x (s, d) a \<Longrightarrow> fs_view x (s, d) = a"
proof -
  assume h: "fs_holds x (s, d) a"
  then obtain ps where ps: "rep x s d ps" "sp_log a = logged (cutoff s) ps" "in_last_purged s = sp_purged a" "in_committed s = sp_committed a"
    using fs_holdsE [OF h] by metis
  then show ?thesis using rep_view [OF ps(1)] by simp
qed

text \<open>
  The states a node goes through: it opens an empty directory, performs operations, and stops in
  the middle of one and opens the directory again; it may also stop while it opens it.
\<close>

definition fs_good :: "Extern \<Rightarrow> nat \<Rightarrow> Inner \<Rightarrow> Device \<Rightarrow> LogSpec \<Rightarrow> bool" where
  "fs_good x sb s d a \<longleftrightarrow> fs_holds x (s, d) a \<and> slots_ok (x_hash x) s d \<and> in_segment_bytes s = sb"

inductive restarts :: "Extern \<Rightarrow> nat \<Rightarrow> Device \<Rightarrow> Inner \<Rightarrow> Device \<Rightarrow> bool" for x sb where
  restart_completes: "fs_open x sb d = Inr (s, ss) \<Longrightarrow> restarts x sb d s (exec_steps ss d)"
| restart_stops: "fs_open x sb d = Inr (s, ss) \<Longrightarrow> crashed ss d d1 \<Longrightarrow> restarts x sb d1 s2 d2 \<Longrightarrow> restarts x sb d s2 d2"

text \<open>
  The flag \<open>ok\<close> records whether every stop so far was a safe one: not inside a purge that goes past
  the end of the log, and, inside a write of the committed slot, with the torn slot failing its hash.
\<close>

inductive fs_reach :: "Extern \<Rightarrow> nat \<Rightarrow> bool \<Rightarrow> Inner \<Rightarrow> Device \<Rightarrow> bool" for x sb where
  reach_boot: "restarts x sb empty_device s d \<Longrightarrow> fs_reach x sb True s d"
| reach_op: "fs_reach x sb ok s d \<Longrightarrow> keeps_contract (fs_view x (s, d)) op \<Longrightarrow> room s op \<Longrightarrow>
    fs_do x s d op = Inr (s', ss) \<Longrightarrow> fs_reach x sb ok s' (exec_steps ss d)"
| reach_crash: "fs_reach x sb ok s d \<Longrightarrow> keeps_contract (fs_view x (s, d)) op \<Longrightarrow> room s op \<Longrightarrow>
    fs_do x s d op = Inr (s', ss) \<Longrightarrow> crashed ss d d1 \<Longrightarrow> restarts x sb d1 s2 d2 \<Longrightarrow>
    fs_reach x sb (ok \<and> within_log (fs_view x (s, d)) op \<and> tear_seen x s op d d1) s2 d2"

text \<open>A device from which the store comes back with a given log.\<close>

definition restartable :: "Extern \<Rightarrow> bool \<Rightarrow> Device \<Rightarrow> LogSpec \<Rightarrow> bool" where
  "restartable x j d a \<longleftrightarrow> ids_ok x \<and> log_image x j d a \<and> (\<exists>s. slots_ok (x_hash x) s d \<and> in_committed s = sp_committed a)"

lemma restartable_opens:
  assumes a: "restartable x j d a" and sb: "SEGMENT_HEADER < sb"
  obtains s ss where "fs_open x sb d = Inr (s, ss)" "fs_view x (s, exec_steps ss d) = a" "j \<longrightarrow> fs_good x sb s (exec_steps ss d) a"
    "\<And>d'. crashed ss d d' \<Longrightarrow> restartable x j d' a"
proof -
  let ?co = "map_option l_index (sp_purged a)"
  obtain ps junk s1 where im: "disk_image x d (sp_purged a) ps junk" and jo: "j \<longrightarrow> joined ?co ps" "sp_log a = logged ?co ps"
    and sl: "slots_ok (x_hash x) s1 d" "in_committed s1 = sp_committed a" and ids: "ids_ok x"
    using a by (auto simp: restartable_def log_image_def)
  obtain s ss where o: "fs_open x sb d = Inr (s, ss)" "rep x s (exec_steps ss d) ps" "in_last_purged s = sp_purged a"
    "in_segment_bytes s = sb" "\<And>d'. crashed ss d d' \<Longrightarrow> \<exists>junk'. disk_image x d' (sp_purged a) ps junk'"
    using open_image [OF im sb] by metis
  have de: "dv_committed d = None" "dv_entries d = []" using im by (simp_all add: disk_image_def)
  note oc = open_committed [OF o(1) sl(1) de]
  have co: "cutoff s = ?co" using o(3) by (simp add: cutoff_def)
  then have "fs_view x (s, exec_steps ss d) = a" using rep_view [OF o(2)] o(3) oc(1) sl(2) jo(2) by simp
  moreover have "j \<longrightarrow> fs_good x sb s (exec_steps ss d) a"
    using co o(2-4) jo ids oc(1,2) sl(2) by (auto simp: fs_good_def fs_holds_def)
  moreover have "restartable x j d' a" if "crashed ss d d'" for d'
  proof -
    have "slots_ok (x_hash x) s1 d'" using slots_ok_cong [OF sl(1)] log_steps_slots [OF that oc(3)] by simp
    then show ?thesis using o(5) [OF that] jo ids sl(2) by (auto simp: restartable_def log_image_def)
  qed
  ultimately show ?thesis using that o(1) by blast
qed

lemma restarts_good:
  assumes "restarts x sb d s d2" and "restartable x j d a" and sb: "SEGMENT_HEADER < sb"
  shows "fs_view x (s, d2) = a \<and> (j \<longrightarrow> fs_good x sb s d2 a)"
  using assms(1,2)
proof (induction rule: restarts.induct)
  case (restart_completes d s ss)
  then show ?case using restartable_opens [OF _ sb] by (metis Inr_inject prod.inject)
next
  case (restart_stops d s ss d1 s2 d2)
  then show ?case using restartable_opens [OF _ sb] by (metis Inr_inject prod.inject)
qed

lemma empty_restartable: "ids_ok x \<Longrightarrow> restartable x j empty_device spec_new"
proof -
  assume "ids_ok x"
  moreover have "log_image x j empty_device spec_new"
    by (rule log_imageI [OF empty_image, where co = None]) (simp_all add: spec_new_def joined_def)
  moreover have "slots_ok (x_hash x) \<lparr>in_segment_bytes = 0, in_segments = [], in_index = [], in_active = None,
      in_last_purged = None, in_committed = None, in_committed_generation = 0, in_committed_file = False\<rparr> empty_device"
    by (simp add: slots_ok_def empty_device_def)
  ultimately show ?thesis by (auto simp: restartable_def spec_new_def)
qed

lemma do_same:
  assumes h: "fs_holds x (s, d) a" and c: "keeps_contract a op"
    and op: "fs_do x s d op = Inr (s', ss)" and nc: "\<forall>c. op \<noteq> OpCommit c"
  shows "same_rest s (s'\<lparr>in_last_purged := in_last_purged s\<rparr>)"
proof -
  have weaken: "same_rest s (t\<lparr>in_last_purged := in_last_purged s\<rparr>)" if "same_rest s t" for t
    using that by (simp add: same_rest_def)
  obtain ps where r: "ids_ok x" "rep x s d ps" "joined (cutoff s) ps" "sp_log a = logged (cutoff s) ps"
      "cutoff s = map_option l_index (sp_purged a)"
    using fs_holdsE [OF h] by metis
  show ?thesis
  proof (cases op)
    case (OpAppend es)
    show ?thesis
    proof (cases "es = []")
      case False
      then have k: "continues (cutoff s) (logged (cutoff s) ps) es" using c r OpAppend by simp
      obtain s1 ss1 where "fs_append (x_hash x) s es = Inr (s1, ss1)" "same_rest s s1"
        by (rule append_rep [OF r(2,3) k])
      then show ?thesis using weaken op OpAppend by simp
    qed (use op OpAppend in \<open>simp add: fs_append_def same_rest_def\<close>)
  next
    case (OpTruncate i)
    then have lv: "live (cutoff s) i" using c r(5) by simp
    obtain s1 ss1 where "fs_truncate_from s i = (s1, ss1)" "same_rest s s1" by (rule truncate_rep [OF r(2,3) lv])
    then show ?thesis using weaken op OpTruncate by simp
  next
    case (OpPurge i)
    then have mx: "unat (l_index i) + 1 < 2 ^ 64" using c by simp
    obtain s1 ss1 where "fs_purge_through x s i = Inr (s1, ss1)" "same_rest s (s1\<lparr>in_last_purged := in_last_purged s\<rparr>)"
      by (rule purge_rep [OF r(2,3,1) mx])
    then show ?thesis using op OpPurge by simp
  qed (use nc in simp)
qed

lemma do_good:
  assumes g: "fs_good x sb s d a" and c: "keeps_contract a op" and r: "room s op" and op: "fs_do x s d op = Inr (s', ss)"
  shows "fs_good x sb s' (exec_steps ss d) (spec_op a op)"
proof -
  have h: "fs_holds x (s, d) a" and sl: "slots_ok (x_hash x) s d" and sb: "in_segment_bytes s = sb"
    using g by (simp_all add: fs_good_def)
  have "fs_holds x (s', exec_steps ss d) (spec_op a op)"
    using fs_op_holds [OF h c] op by (simp add: store_op_do finished_def)
  moreover have "slots_ok (x_hash x) s' (exec_steps ss d) \<and> in_segment_bytes s' = sb"
  proof (cases "\<exists>c. op = OpCommit c")
    case True
    then obtain c where W: "write_committed (x_hash x) s d c = (s', ss)" and "op = OpCommit c" using op by auto
    moreover have "in_segment_bytes s' = sb" using W sb by (auto simp: write_committed_def Let_def)
    ultimately show ?thesis using write_committed_ok(1) [OF sl _ W] r by simp
  next
    case False
    then have nc: "\<forall>c. op \<noteq> OpCommit c" by blast
    have "dv_slots (exec_steps ss d) = dv_slots d" using log_steps_slots [OF exec_crashed do_log_steps [OF op nc]] by blast
    then show ?thesis using slots_ok_cong [OF sl] do_same [OF h c op nc] sb by (simp add: same_rest_def)
  qed
  ultimately show ?thesis by (simp add: fs_good_def)
qed

lemma crash_restartable:
  assumes g: "fs_good x sb s d a" and c: "keeps_contract a op" and r: "room s op"
    and op: "fs_do x s d op = Inr (s', ss)" and cr: "crashed ss d d'" and t: "tear_seen x s op d d'"
  obtains a' where "restartable x (within_log a op) d' a'" "survives op a a'"
proof -
  have h: "fs_holds x (s, d) a" and sl: "slots_ok (x_hash x) s d" and ids: "ids_ok x" and cm: "in_committed s = sp_committed a"
    using g by (simp_all add: fs_good_def fs_holds_def)
  have keep: "restartable x j d' a'" if nc: "\<forall>c. op \<noteq> OpCommit c" and a': "log_image x j d' a'" "sp_committed a' = sp_committed a" for a' j
  proof -
    have "slots_ok (x_hash x) s d'" using slots_ok_cong [OF sl] log_steps_slots [OF cr do_log_steps [OF op nc]] by simp
    then show ?thesis using a' ids cm by (auto simp: restartable_def)
  qed
  show ?thesis
  proof (cases op)
    case (OpAppend es)
    then obtain k where "log_image x True d' (a\<lparr>sp_log := sp_log a @ take k es\<rparr>)" 
      using append_crash [OF h _ _ cr, where j = True and es = es] c op by simp blast
    then show ?thesis using that keep OpAppend by fastforce
  next
    case (OpTruncate i)
    then obtain k where "log_image x True d' (a\<lparr>sp_log := take k (sp_log a)\<rparr>)" "length (filter (\<lambda>e. idx e < i) (sp_log a)) \<le> k"
      using truncate_crashed [OF h, of i s' ss d'] c op cr by auto
    then show ?thesis using that [of "a\<lparr>sp_log := take k (sp_log a)\<rparr>"] keep OpTruncate by auto
  next
    case (OpPurge i)
    then have "log_image x (within_log a op) d' a \<or> log_image x (within_log a op) d' (spec_op a op)"
      using purge_crashed [OF h, of i s' ss d'] c op cr by simp
    moreover have "restartable x (within_log a op) d' a'" if "log_image x (within_log a op) d' a'" "a' = a \<or> a' = spec_op a op" for a'
      using keep that OpPurge by auto
    ultimately show ?thesis using that OpPurge survives.simps(3) by blast
  next
    case (OpCommit v)
    then have W: "write_committed (x_hash x) s d v = (s', ss)" using op by simp
    obtain s1 where "slots_ok (x_hash x) s1 d'" "in_committed s1 \<in> {in_committed s, v}"
      using committed_crash_slots [OF sl, of v d'] r cr t W OpCommit by auto
    then have "restartable x True d' (a\<lparr>sp_committed := in_committed s1\<rparr>)"
      using commit_crash [OF h W cr, where c' = "in_committed s1"] ids by (auto simp: restartable_def)
    then show ?thesis using that \<open>in_committed s1 \<in> _\<close> cm OpCommit by auto
  qed
qed

lemma reach_good:
  assumes "fs_reach x sb ok s d" and ok and ids: "ids_ok x" and sb: "SEGMENT_HEADER < sb"
  shows "fs_good x sb s d (fs_view x (s, d))"
proof -
  have view: "fs_good x sb s d (fs_view x (s, d))" if "fs_good x sb s d a" for s d a
    using that holds_view by (auto simp: fs_good_def)
  show ?thesis using assms(1,2)
  proof (induction rule: fs_reach.induct)
    case (reach_boot s d)
    then show ?case using restarts_good [OF _ empty_restartable [OF ids] sb] view by blast
  next
    case (reach_op ok s d op s' ss)
    then show ?case using do_good view by blast
  next
    case (reach_crash ok s d op s' ss d1 s2 d2)
    then obtain a' where "restartable x True d1 a'"
      using crash_restartable [of x sb s d "fs_view x (s, d)" op s' ss d1] by (metis (full_types))
    then show ?case using restarts_good [OF reach_crash.hyps(6) _ sb] view by blast
  qed
qed

end
