(* ===== verification/Fs_Laws.thy ===== *)
theory Fs_Laws
  imports Fs_Props
begin

text \<open>
  The guarantees of the filesystem log store as statements about its operations, with a concrete
  choice of the hash and of the encodings on which they are run.
\<close>

section \<open>A concrete environment\<close>

definition plain_extern :: Extern where
  "plain_extern =
     \<lparr>x_hash = (\<lambda>bs. of_nat (length bs)),
      x_to_id = (\<lambda>i. Inr (u64_to_le (l_term i) @ u64_to_le (l_index i))),
      x_from_id = (\<lambda>bs. Inr \<lparr>l_term = u64_from_le (take 8 bs), l_index = u64_from_le (drop 8 bs)\<rparr>),
      x_from_entry = (\<lambda>bs. Inl ''unused''),
      x_to_vote = (\<lambda>v. Inl ''unused''),
      x_from_vote = (\<lambda>bs. Inl ''unused'')\<rparr>"

lemma plain_ids: "ids_ok plain_extern"
  by (simp add: ids_ok_def plain_extern_def)

definition sample_entry :: "u64 \<Rightarrow> LogEntry" where
  "sample_entry n = \<lparr>le_log_id = \<lparr>l_term = 1, l_index = n\<rparr>, le_payload = [7]\<rparr>"

section \<open>The filesystem store and the in-memory store\<close>

text \<open>
  C5: On every sequence of operations that keeps the caller's contract, the filesystem store
  opened on an empty directory succeeds and then answers every range read, the log state and the
  committed watermark exactly as the in-memory store does after the same operations.
\<close>

theorem fs_log_equals_memory:
  assumes ids: "ids_ok x" and sb: "SEGMENT_HEADER < sb" and c: "contract_run spec_new ops"
  shows "\<exists>s ss fs m.
    fs_open x sb empty_device = Inr (s, ss) \<and>
    store_run (fs_store x) (s, exec_steps ss empty_device) ops = Inr fs \<and> store_run mem_store mem_new ops = Inr m \<and>
    (\<forall>lo hi. st_read_range (fs_store x) fs lo hi = st_read_range mem_store m lo hi) \<and>
    st_log_state (fs_store x) fs = st_log_state mem_store m \<and>
    st_read_committed (fs_store x) fs = st_read_committed mem_store m"
proof -
  obtain s ss where o: "fs_open x sb empty_device = Inr (s, ss)" "fs_holds x (s, exec_steps ss empty_device) spec_new"
    by (rule fs_fresh [OF ids sb])
  have mh: "mem_holds mem_new spec_new" by (simp add: mem_holds_def mem_new_def spec_new_def)
  obtain m where m: "store_run mem_store mem_new ops = Inr m" "mem_holds m (spec_run spec_new ops)"
    using mem.run_holds [OF mh c] by blast
  obtain fs where f: "store_run (fs_store x) (s, exec_steps ss empty_device) ops = Inr fs" "fs_holds x fs (spec_run spec_new ops)"
    using fs.run_holds [OF o(2) c] by blast
  have "st_read_range (fs_store x) fs lo hi = st_read_range mem_store m lo hi" for lo hi
    using mem.range_holds [OF m(2)] fs.range_holds [OF f(2)] by simp
  moreover have "st_log_state (fs_store x) fs = st_log_state mem_store m"
    using mem.state_holds [OF m(2)] fs.state_holds [OF f(2)] by simp
  moreover have "st_read_committed (fs_store x) fs = st_read_committed mem_store m"
    using mem.committed_holds [OF m(2)] fs.committed_holds [OF f(2)] by simp
  ultimately show ?thesis using o(1) m(1) f(1) by blast
qed

definition sample_ops :: "LogOp list" where
  "sample_ops = [OpAppend [sample_entry 0, sample_entry 1, sample_entry 2], OpTruncate 2, OpAppend [sample_entry 2],
     OpCommit (Some \<lparr>l_term = 1, l_index = 1\<rparr>), OpPurge \<lparr>l_term = 1, l_index = 0\<rparr>]"

lemma sample_contract: "contract_run spec_new sample_ops"
  by (simp add: sample_ops_def spec_new_def sample_entry_def continues_def fits_def live_def purge_mark_def
      FRAME_HEADER_def FRAME_HASH_def)

theorem fs_log_equals_memory_witness:
  "contract_run spec_new sample_ops \<and>
   (\<exists>s ss fs m.
      fs_open plain_extern 100 empty_device = Inr (s, ss) \<and>
      store_run (fs_store plain_extern) (s, exec_steps ss empty_device) sample_ops = Inr fs \<and>
      store_run mem_store mem_new sample_ops = Inr m \<and>
      st_read_range (fs_store plain_extern) fs 0 5 = Inr [sample_entry 1, sample_entry 2] \<and>
      st_read_range mem_store m 0 5 = Inr [sample_entry 1, sample_entry 2])"
proof -
  have m: "store_run mem_store mem_new sample_ops =
      Inr \<lparr>lg_entries = [(1, sample_entry 1), (2, sample_entry 2)], lg_vote = None,
        lg_committed = Some \<lparr>l_term = 1, l_index = 1\<rparr>, lg_last_purged = Some \<lparr>l_term = 1, l_index = 0\<rparr>\<rparr>"
    by (simp add: sample_ops_def mem_store_def mem_new_def mem_append_def mem_truncate_from_def mem_purge_through_def
        mem_save_committed_def sample_entry_def)
  have "SEGMENT_HEADER < 100" by (simp add: SEGMENT_HEADER_def)
  from fs_log_equals_memory [OF plain_ids this sample_contract] show ?thesis
    using sample_contract m by (auto simp: mem_store_def mem_read_range_def)
qed

section \<open>Operations and stops\<close>

text \<open>
  C18: In every state a node reaches through operations that keep the caller's contract, stops and
  restarts, none of the stops inside a purge past the end of the log and no torn committed slot
  passing its hash, an operation that keeps the contract succeeds and changes what the store shows
  exactly as specified.
\<close>

theorem fs_op_refines:
  assumes "ids_ok x" and "SEGMENT_HEADER < sb" and "fs_reach x sb True s d" and "keeps_contract (fs_view x (s, d)) op"
  shows "\<exists>s' d'. store_op (fs_store x) (s, d) op = Inr (s', d') \<and> fs_view x (s', d') = spec_op (fs_view x (s, d)) op"
proof -
  have "fs_holds x (s, d) (fs_view x (s, d))" using reach_good [OF assms(3) _ assms(1,2)] by (simp add: fs_good_def)
  then obtain s' d' where "store_op (fs_store x) (s, d) op = Inr (s', d')" "fs_holds x (s', d') (spec_op (fs_view x (s, d)) op)"
    using fs_op_holds [OF _ assms(4)] by (metis prod.exhaust)
  then show ?thesis using holds_view by blast
qed

text \<open>
  C2: In a state a node reached without an earlier stop inside a purge past the end of the log, it
  performs an operation that keeps the caller's contract and stops in the middle of any step of it,
  a torn committed slot not passing its hash.  Then the log directory opens again, and whatever
  number of times the node stops while it opens, the store that comes up holds what was
  acknowledged: an append in progress is there up to some entry, a truncation has removed at most
  what it was to remove, and a purge, also one past the end of the log, or a new committed
  watermark has happened or has not.
\<close>

theorem fs_crash_recovers:
  assumes "ids_ok x" and "SEGMENT_HEADER < sb" and "fs_reach x sb True s d"
    and "keeps_contract (fs_view x (s, d)) op" and "room s op"
    and "fs_do x s d op = Inr (s', ss)" and "crashed ss d d1" and "tear_seen x s op d d1"
  shows "(\<exists>s2 ss2. fs_open x sb d1 = Inr (s2, ss2)) \<and>
    (\<forall>s2 d2. restarts x sb d1 s2 d2 \<longrightarrow> survives op (fs_view x (s, d)) (fs_view x (s2, d2)))"
proof -
  obtain a' where a': "restartable x (within_log (fs_view x (s, d)) op) d1 a'" "survives op (fs_view x (s, d)) a'"
    using crash_restartable [OF reach_good [OF assms(3) _ assms(1,2)] assms(4-8)] by blast
  have "fs_view x (s2, d2) = a'" if "restarts x sb d1 s2 d2" for s2 d2
    using restarts_good [OF that a'(1) assms(2)] by simp
  then show ?thesis using restartable_opens [OF a'(1) assms(2)] a'(2) by metis
qed

text \<open>A node that is appending its first two entries when it stops inside the second frame.\<close>

definition boot_inner :: Inner where
  "boot_inner = \<lparr>in_segment_bytes = 100, in_segments = [], in_index = [], in_active = None, in_last_purged = None,
     in_committed = None, in_committed_generation = 0, in_committed_file = False\<rparr>"

definition sample_steps :: "DeviceStep list" where
  "sample_steps =
     [WriteTmp 0 [70, 82, 83, 71, 48, 48, 48, 49, 0, 0, 0, 0, 0, 0, 0, 0], PublishTmp 0,
      WriteSeg 0 16
        [70, 82, 76, 69, 1, 0, 0, 0, 0, 0, 0, 0, 0, 0, 0, 0, 1, 0, 0, 0, 0, 0, 0, 0, 7, 25, 0, 0, 0, 0, 0, 0, 0,
         70, 82, 76, 69, 1, 0, 0, 0, 1, 0, 0, 0, 0, 0, 0, 0, 1, 0, 0, 0, 0, 0, 0, 0, 7, 25, 0, 0, 0, 0, 0, 0, 0]]"

definition sample_torn :: Device where
  "sample_torn = empty_device\<lparr>dv_segs :=
     [(0, [70, 82, 83, 71, 48, 48, 48, 49, 0, 0, 0, 0, 0, 0, 0, 0,
        70, 82, 76, 69, 1, 0, 0, 0, 0, 0, 0, 0, 0, 0, 0, 0, 1, 0, 0, 0, 0, 0, 0, 0, 7, 25, 0, 0, 0, 0, 0, 0, 0,
        70, 82, 76, 69, 1])]\<rparr>"

lemma sample_boot: "fs_open plain_extern 100 empty_device = Inr (boot_inner, [])"
  by (simp add: fs_open_def empty_device_def migrate_legacy_entries_def scan_segments_def load_committed_def boot_inner_def Let_def)

lemma sample_append: "\<exists>s. fs_append (x_hash plain_extern) boot_inner [sample_entry 0, sample_entry 1] = Inr (s, sample_steps)"
proof -
  have "map_sum id snd (fs_append (x_hash plain_extern) boot_inner [sample_entry 0, sample_entry 1]) = Inr sample_steps"
    by code_simp
  then show ?thesis by (cases "fs_append (x_hash plain_extern) boot_inner [sample_entry 0, sample_entry 1]") auto
qed

lemma sample_crash: "crashed sample_steps empty_device sample_torn"
proof -
  let ?bs = "[70, 82, 83, 71, 48, 48, 48, 49, 0, 0, 0, 0, 0, 0, 0, 0] :: bytes"
  let ?fs = "[70, 82, 76, 69, 1, 0, 0, 0, 0, 0, 0, 0, 0, 0, 0, 0, 1, 0, 0, 0, 0, 0, 0, 0, 7, 25, 0, 0, 0, 0, 0, 0, 0,
         70, 82, 76, 69, 1, 0, 0, 0, 1, 0, 0, 0, 0, 0, 0, 0, 1, 0, 0, 0, 0, 0, 0, 0, 7, 25, 0, 0, 0, 0, 0, 0, 0] :: bytes"
  let ?d = "exec_step (PublishTmp 0) (exec_step (WriteTmp 0 ?bs) empty_device)"
  have cr: "crashed [WriteSeg 0 16 ?fs] ?d (?d\<lparr>dv_segs := bm_update 0 (write_at 16 (take 38 ?fs)) (dv_segs ?d)\<rparr>)"
    by (rule crash_in [OF torn_seg])
  have eq: "?d\<lparr>dv_segs := bm_update 0 (write_at 16 (take 38 ?fs)) (dv_segs ?d)\<rparr> = sample_torn"
    by (simp add: empty_device_def sample_torn_def bm_update_def bm_remove_def write_at_def)
  show ?thesis unfolding sample_steps_def by (rule crash_after [OF crash_after [OF cr [unfolded eq]]])
qed

lemma sample_reach: "fs_reach plain_extern 100 True boot_inner empty_device"
  using restart_completes [OF sample_boot] by (intro reach_boot) simp

lemma sample_view: "fs_view plain_extern (boot_inner, empty_device) = spec_new"
proof -
  have "SEGMENT_HEADER < 100" by (simp add: SEGMENT_HEADER_def)
  then obtain s ss where o: "fs_open plain_extern 100 empty_device = Inr (s, ss)"
      "fs_holds plain_extern (s, exec_steps ss empty_device) spec_new"
    by (rule fs_fresh [OF plain_ids])
  then have "s = boot_inner" "ss = []" using sample_boot by simp_all
  then show ?thesis using holds_view o(2) by simp
qed

lemma sample_keeps: "keeps_contract spec_new (OpAppend [sample_entry 0, sample_entry 1])"
  using sample_contract by (simp add: sample_entry_def continues_def fits_def FRAME_HEADER_def FRAME_HASH_def spec_new_def)

theorem fs_op_refines_witness:
  "\<exists>s' d'. store_op (fs_store plain_extern) (boot_inner, empty_device) (OpAppend [sample_entry 0, sample_entry 1]) = Inr (s', d') \<and>
     sp_log (fs_view plain_extern (s', d')) = [sample_entry 0, sample_entry 1]"
  using fs_op_refines [OF plain_ids _ sample_reach, of "OpAppend [sample_entry 0, sample_entry 1]"] sample_keeps
  by (auto simp: sample_view SEGMENT_HEADER_def spec_new_def)

theorem fs_crash_recovers_witness:
  "\<exists>s2 ss2 k. fs_open plain_extern 100 sample_torn = Inr (s2, ss2) \<and>
     sp_log (fs_view plain_extern (s2, exec_steps ss2 sample_torn)) = take k [sample_entry 0, sample_entry 1]"
proof -
  obtain s where "fs_append (x_hash plain_extern) boot_inner [sample_entry 0, sample_entry 1] = Inr (s, sample_steps)"
    using sample_append by blast
  then have "fs_do plain_extern boot_inner empty_device (OpAppend [sample_entry 0, sample_entry 1]) = Inr (s, sample_steps)" by simp
  from fs_crash_recovers [OF plain_ids _ sample_reach _ _ this sample_crash] sample_keeps
  have "(\<exists>s2 ss2. fs_open plain_extern 100 sample_torn = Inr (s2, ss2)) \<and>
    (\<forall>s2 d2. restarts plain_extern 100 sample_torn s2 d2 \<longrightarrow>
       survives (OpAppend [sample_entry 0, sample_entry 1]) spec_new (fs_view plain_extern (s2, d2)))"
    by (simp add: sample_view SEGMENT_HEADER_def)
  moreover from this obtain s2 ss2 where o: "fs_open plain_extern 100 sample_torn = Inr (s2, ss2)" by blast
  ultimately have "survives (OpAppend [sample_entry 0, sample_entry 1]) spec_new (fs_view plain_extern (s2, exec_steps ss2 sample_torn))"
    using restart_completes [OF o] by blast
  then show ?thesis using o by (auto simp: spec_new_def)
qed

section \<open>A purge past the end of the log\<close>

text \<open>
  A purge whose marker lies past the last entry, as after installing a snapshot, that stops
  between writing the marker and removing the segments.  The store that comes back keeps the
  obsolete segment, writes the next entry into it, and the open after that takes the entry, which
  does not continue the segment, for a torn one.
\<close>

definition far_id :: LogId where
  "far_id = \<lparr>l_term = 1, l_index = 5\<rparr>"

lemma far_entry_stuck: "last_stuck h (encode_frame h (sample_entry 6)) [(0, [sample_entry 0])]"
proof -
  have "fits (sample_entry 6)" by (simp add: fits_def sample_entry_def FRAME_HEADER_def FRAME_HASH_def)
  from decode_encode_frame [OF this, of h "seg_file h (0, [sample_entry 0])" "[]"]
  show ?thesis by (simp add: last_stuck_def stuck_def sample_entry_def)
qed

lemma first_part: "chained [(0, [sample_entry 0])]"
  by (simp add: chained_def sample_entry_def fits_def FRAME_HEADER_def FRAME_HASH_def)

lemma far_append:
  assumes r: "rep x s d [(0, [sample_entry 0])]" and p: "in_last_purged s = Some far_id" and sb: "in_segment_bytes s = 100"
  obtains s' where "fs_append (x_hash x) s [sample_entry 6] =
      Inr (s', [WriteSeg 0 (length (seg_file (x_hash x) (0, [sample_entry 0]))) (encode_frame (x_hash x) (sample_entry 6))])"
    "ls_last_log (fs_log_state s') = Some \<lparr>l_term = 1, l_index = 6\<rparr>"
proof -
  let ?h = "x_hash x"
  have len: "length (seg_file ?h (0, [sample_entry 0])) < 100"
    by (simp add: seg_file_def length_frame sample_entry_def SEGMENT_HEADER_def FRAME_HEADER_def FRAME_HASH_def)
  have ix: "in_index s = []" using repD(4) [OF r] p by (simp add: index_Nil_iff cutoff_def logged_def live_def far_id_def sample_entry_def part_locs_def Let_def)
  have seg: "in_segments s = [seg_of ?h (0, [sample_entry 0])]" and ac: "in_active s = None \<or> in_active s = Some 0"
    using repD(3,6) [OF r] by simp_all
  show ?thesis
    by (rule that) (use len ix seg ac sb in \<open>auto simp: fs_append_def drop_leftover_def needs_segment_def write_entries_def
        active_file_def seg_of_def Let_def fs_log_state_def sample_entry_def split: option.splits\<close>)
qed

definition one_entry :: Device where
  "one_entry = empty_device\<lparr>dv_segs := files (x_hash plain_extern) [] [(0, [sample_entry 0])]\<rparr>"

lemma one_entry_reached:
  obtains s where "fs_reach plain_extern 100 True s one_entry"
    "in_segments s = [seg_of (x_hash plain_extern) (0, [sample_entry 0])]" "in_last_purged s = None"
proof -
  let ?h = "x_hash plain_extern" and ?op = "OpAppend [sample_entry 0]"
  obtain s where s: "fs_append ?h boot_inner [sample_entry 0] =
      Inr (s, [WriteTmp 0 (segment_header 0), PublishTmp 0, WriteSeg 0 SEGMENT_HEADER (encode_frame ?h (sample_entry 0))])"
    "in_segments s = [seg_of ?h (0, [sample_entry 0])]" "in_last_purged s = None"
    by (rule that) (auto simp: fs_append_def drop_leftover_def needs_segment_def start_segment_def write_entries_def active_file_def
        boot_inner_def seg_of_def seg_file_def sample_entry_def Let_def)
  have d: "exec_steps [WriteTmp 0 (segment_header 0), PublishTmp 0, WriteSeg 0 SEGMENT_HEADER (encode_frame ?h (sample_entry 0))]
      empty_device = one_entry"
    using write_at_end [of "segment_header 0"]
    by (simp add: one_entry_def empty_device_def bm_update_def bm_remove_def seg_file_def)
  have "keeps_contract spec_new ?op"
    by (simp add: sample_entry_def continues_def fits_def FRAME_HEADER_def FRAME_HASH_def spec_new_def)
  then have "fs_reach plain_extern 100 True s one_entry"
    using reach_op [OF sample_reach, of ?op s] s(1) by (simp add: sample_view d [symmetric])
  then show ?thesis using that s(2,3) by blast
qed

text \<open>
  C38: A node that stops during a purge past the end of its log can lose an entry it acknowledges
  afterwards: from a reachable state, a stop right after the purge marker, an open, an append that
  keeps the contract and succeeds, and a second open, the appended entry is gone from the log.
\<close>

theorem purge_past_end_loses_entry:
  "\<exists>s d s1 ss1 d1 s2 ss2 s3 ss3 s4 ss4.
     fs_reach plain_extern 100 True s d \<and>
     fs_purge_through plain_extern s far_id = Inr (s1, ss1) \<and> crashed ss1 d d1 \<and>
     fs_open plain_extern 100 d1 = Inr (s2, ss2) \<and>
     keeps_contract (fs_view plain_extern (s2, exec_steps ss2 d1)) (OpAppend [sample_entry 6]) \<and>
     fs_append (x_hash plain_extern) s2 [sample_entry 6] = Inr (s3, ss3) \<and>
     ls_last_log (fs_log_state s3) = Some \<lparr>l_term = 1, l_index = 6\<rparr> \<and>
     fs_open plain_extern 100 (exec_steps (ss2 @ ss3) d1) = Inr (s4, ss4) \<and>
     ls_last_log (fs_log_state s4) = None"
proof -
  let ?x = plain_extern and ?h = "x_hash plain_extern" and ?ps = "[(0, [sample_entry 0])] :: part list"
  obtain s where s: "fs_reach ?x 100 True s one_entry" "in_segments s = [seg_of ?h (0, [sample_entry 0])]" "in_last_purged s = None"
    by (rule one_entry_reached)
  obtain b where b: "x_to_id ?x far_id = Inr b" "x_from_id ?x b = Inr far_id" using plain_ids by (auto simp: ids_ok_def)
  let ?d1 = "exec_step (PutLastPurged b) one_entry"
  obtain s1 ss1 where P: "fs_purge_through ?x s far_id = Inr (s1, PutLastPurged b # ss1)"
    using s b by (simp add: fs_purge_through_def Let_def)
  have cr: "crashed (PutLastPurged b # ss1) one_entry ?d1" by (rule crash_after [OF crash_before])
  have img: "disk_image ?x d (Some far_id) ?ps junk"
    if "dv_segs d = files ?h junk ?ps" "dv_last_purged d = Some b" "dv_entries d = []" "dv_committed d = None" "last_stuck ?h junk ?ps"
    for d junk using that b first_part by (simp add: disk_image_def purged_ok_def)
  have sh: "SEGMENT_HEADER < 100" by (simp add: SEGMENT_HEADER_def)
  have i1: "disk_image ?x ?d1 (Some far_id) ?ps []" by (rule img) (simp_all add: one_entry_def empty_device_def last_stuck_def)
  obtain s2 ss2 where o2: "fs_open ?x 100 ?d1 = Inr (s2, ss2)" "rep ?x s2 (exec_steps ss2 ?d1) ?ps"
      "in_last_purged s2 = Some far_id" "in_segment_bytes s2 = 100"
    by (rule open_image [OF i1 sh])
  have view: "logged (cutoff s2) ?ps = []" using o2(3) by (simp add: cutoff_def logged_def live_def far_id_def sample_entry_def)
  have k: "keeps_contract (fs_view ?x (s2, exec_steps ss2 ?d1)) (OpAppend [sample_entry 6])"
    using rep_read_range [OF o2(2)] view o2(3)
    by (simp add: fs_view_def fs_log_state_def far_id_def sample_entry_def continues_def fits_def FRAME_HEADER_def FRAME_HASH_def)
  let ?ss3 = "[WriteSeg 0 (length (seg_file ?h (0, [sample_entry 0]))) (encode_frame ?h (sample_entry 6))]"
  obtain s3 where a: "fs_append ?h s2 [sample_entry 6] = Inr (s3, ?ss3)" "ls_last_log (fs_log_state s3) = Some \<lparr>l_term = 1, l_index = 6\<rparr>"
    by (rule far_append [OF o2(2-4)])
  let ?d3 = "exec_steps (ss2 @ ?ss3) ?d1"
  have i3: "disk_image ?x ?d3 (Some far_id) ?ps (encode_frame ?h (sample_entry 6))"
    using repD(2,7,9,10) [OF o2(2)] o2(3) far_entry_stuck first_part by (simp add: disk_image_def bm_update_def purged_ok_def)
  obtain s4 ss4 where o4: "fs_open ?x 100 ?d3 = Inr (s4, ss4)" "rep ?x s4 (exec_steps ss4 ?d3) ?ps" "in_last_purged s4 = Some far_id"
    by (rule open_image [OF i3 sh])
  have "logged (cutoff s4) ?ps = []" using o4(3) by (simp add: cutoff_def logged_def live_def far_id_def sample_entry_def)
  then have n: "ls_last_log (fs_log_state s4) = None" using rep_log_state [OF o4(2)] by simp
  show ?thesis
    by (intro exI conjI, rule s(1), rule P, rule cr, rule o2(1), rule k, rule a(1), rule a(2), rule o4(1), rule n)
qed

end
