(* ===== verification/Snap_Store.thy ===== *)
theory Snap_Store
  imports Fs_Frames Ledger_Id
begin

text \<open>
  The filesystem snapshot store, \<^verbatim>\<open>FsRaftSnapshotStore\<close> of
  \<^verbatim>\<open>fluree-raft-core/src/storage/fs.rs\<close>.  The snapshots directory is a map from file names to
  contents.  A write is a sequence of durable steps; a crash may fall between any two of them or
  inside the writing of a temporary file.  Encoding the metadata is a parameter.  A removal of the
  reclamation may fail, which leaves the file for a later one.
\<close>

type_synonym bytes = "u8 list"
type_synonym SnapDir = "(string, bytes) hmap"

record SnapCodec =
  sc_to_meta :: "bytes SnapshotMeta \<Rightarrow> string + bytes"
  sc_from_meta :: "bytes \<Rightarrow> string + bytes SnapshotMeta"

section \<open>Names\<close>

text \<open>\<open>as_bytes\<close> and \<open>from_utf8\<close> on identifiers.\<close>

definition str_bytes :: "string \<Rightarrow> bytes" where
  "str_bytes s = map (\<lambda>c. word_of_nat (of_char c)) s"

definition bytes_str :: "bytes \<Rightarrow> string" where
  "bytes_str bs = map (\<lambda>b. char_of (unat b)) bs"

definition is_ascii :: "bytes \<Rightarrow> bool" where
  "is_ascii bs = list_all (\<lambda>b. b < 128) bs"

definition ID_MAX_LEN :: nat where
  "ID_MAX_LEN = 128"

definition between :: "char \<Rightarrow> nat \<Rightarrow> nat \<Rightarrow> bool" where
  "between c lo hi = (lo \<le> of_char c \<and> of_char c \<le> hi)"

definition id_char :: "char \<Rightarrow> bool" where
  "id_char c =
     (between c 65 90 \<or> between c 97 122 \<or> between c 48 57 \<or> c = CHR ''-'' \<or> c = CHR ''_'' \<or> c = CHR ''.'')"

definition validate_path_safe_id :: "SnapshotId \<Rightarrow> StorageError + string" where
  "validate_path_safe_id s =
     (if s = [] then Inl (Corruption ''snapshot id is empty'')
      else if length s > ID_MAX_LEN then Inl (Corruption ''snapshot id length exceeds cap'')
      else if contains_str s ''..'' then Inl (Corruption ''snapshot id contains path-traversal'')
      else if \<not> list_all id_char s then Inl (Corruption ''snapshot id contains disallowed character'')
      else Inr s)"

definition meta_path :: "string \<Rightarrow> string" where
  "meta_path i = i @ ''.meta''"

definition data_path :: "string \<Rightarrow> string" where
  "data_path i = i @ ''.data''"

definition current_path :: string where
  "current_path = ''current''"

text \<open>\<open>Path::with_extension("tmp")\<close>: the part before the last dot, or the whole name.\<close>

definition tmp_path :: "string \<Rightarrow> string" where
  "tmp_path p =
     (let stem = butlast (rev (dropWhile (\<lambda>c. c \<noteq> CHR ''.'') (rev p)))
      in (if stem = [] then p else stem) @ ''.tmp'')"

definition strip_suffix :: "string \<Rightarrow> string \<Rightarrow> string option" where
  "strip_suffix suf s = map_option rev (strip_prefix (rev suf) (rev s))"

section \<open>Steps\<close>

datatype SnapStep =
    WriteFile string bytes
  | RenameFile string string
  | RemoveFile string

fun snap_step :: "SnapStep \<Rightarrow> SnapDir \<Rightarrow> SnapDir" where
  "snap_step (WriteFile p bs) d = hm_insert p bs d"
| "snap_step (RenameFile p q) d =
     (case hm_get d p of Some bs \<Rightarrow> hm_insert q bs (hm_remove p d) | None \<Rightarrow> d)"
| "snap_step (RemoveFile p) d = hm_remove p d"

definition snap_steps :: "SnapStep list \<Rightarrow> SnapDir \<Rightarrow> SnapDir" where
  "snap_steps ss d = foldl (\<lambda>d s. snap_step s d) d ss"

inductive snap_crashed :: "SnapStep list \<Rightarrow> SnapDir \<Rightarrow> SnapDir \<Rightarrow> bool" where
  snap_before: "snap_crashed ss d d"
| snap_inside: "snap_crashed (WriteFile p bs # ss) d (hm_insert p (take k bs) d)"
| snap_after: "snap_crashed ss (snap_step s d) d' \<Longrightarrow> snap_crashed (s # ss) d d'"

definition atomic_write :: "string \<Rightarrow> bytes \<Rightarrow> SnapStep list" where
  "atomic_write p bs = [WriteFile (tmp_path p) bs, RenameFile (tmp_path p) p]"

section \<open>Operations\<close>

definition superseded :: "string \<Rightarrow> string \<Rightarrow> bool" where
  "superseded keep name =
     ((case (case strip_suffix ''.meta'' name of Some stem \<Rightarrow> Some stem | None \<Rightarrow> strip_suffix ''.data'' name) of
         Some stem \<Rightarrow> stem \<noteq> keep | None \<Rightarrow> False) \<or>
      strip_suffix ''.tmp'' name \<noteq> None)"

definition reclaim_superseded :: "(string \<Rightarrow> bool) \<Rightarrow> string \<Rightarrow> SnapDir \<Rightarrow> SnapStep list" where
  "reclaim_superseded removable keep d =
     map RemoveFile (filter (\<lambda>n. superseded keep n \<and> removable n) (map fst d))"

definition snap_publish :: "string \<Rightarrow> bytes \<Rightarrow> bytes \<Rightarrow> SnapStep list" where
  "snap_publish i meta_bytes data =
     atomic_write (meta_path i) meta_bytes @ atomic_write (data_path i) data @ atomic_write current_path (str_bytes i)"

definition fs_snap_write ::
  "SnapCodec \<Rightarrow> (string \<Rightarrow> bool) \<Rightarrow> SnapDir \<Rightarrow> bytes SnapshotMeta \<Rightarrow> bytes \<Rightarrow> StorageError + SnapStep list" where
  "fs_snap_write c removable d m data =
     (case validate_path_safe_id (sm_id m) of
        Inl err \<Rightarrow> Inl err
      | Inr i \<Rightarrow>
          (case sc_to_meta c m of
             Inl err \<Rightarrow> Inl (Serialization (''encode snapshot meta: '' @ err))
           | Inr meta_bytes \<Rightarrow>
               let ss = snap_publish i meta_bytes data
               in Inr (ss @ reclaim_superseded removable i (snap_steps ss d))))"

definition fs_snap_read :: "SnapDir \<Rightarrow> SnapshotId \<Rightarrow> StorageError + bytes option" where
  "fs_snap_read d i = (case validate_path_safe_id i of Inl err \<Rightarrow> Inl err | Inr i \<Rightarrow> Inr (hm_get d (data_path i)))"

text \<open>
  A pointer that is not UTF-8 and one with a multi-byte character are both refused, the latter by
  the validation.
\<close>

definition fs_snap_current :: "SnapCodec \<Rightarrow> SnapDir \<Rightarrow> StorageError + (bytes SnapshotMeta \<times> bytes) option" where
  "fs_snap_current c d =
     (case hm_get d current_path of
        None \<Rightarrow> Inr None
      | Some id_bytes \<Rightarrow>
          if \<not> is_ascii id_bytes then Inl (Corruption ''current snapshot id is not an identifier'')
          else
            (case validate_path_safe_id (bytes_str id_bytes) of
               Inl err \<Rightarrow> Inl err
             | Inr i \<Rightarrow>
                 (case hm_get d (meta_path i) of
                    None \<Rightarrow> Inl (Corruption ''current snapshot pointer names a missing meta file'')
                  | Some meta_bytes \<Rightarrow>
                      (case sc_from_meta c meta_bytes of
                         Inl err \<Rightarrow> Inl (Serialization (''decode snapshot meta: '' @ err))
                       | Inr m \<Rightarrow>
                           (case hm_get d (data_path i) of
                              None \<Rightarrow> Inl (Corruption ''current snapshot pointer names a missing data file'')
                            | Some data \<Rightarrow> Inr (Some (m, data)))))))"

section \<open>Names stay apart and inside the directory\<close>

lemma validated:
  assumes "validate_path_safe_id i = Inr j"
  shows "j = i" "i \<noteq> []" "list_all id_char i"
  using assms by (auto simp: validate_path_safe_id_def split: if_splits)

lemma strip_prefix_Some: "strip_prefix p s = Some r \<longleftrightarrow> s = p @ r"
  by (induction p s rule: strip_prefix.induct) auto

lemma strip_suffix_Some: "strip_suffix suf s = Some r \<longleftrightarrow> s = r @ suf"
proof -
  have "rev s = rev suf @ rev r \<longleftrightarrow> s = r @ suf" by (metis rev_append rev_rev_ident)
  then show ?thesis by (auto simp: strip_suffix_def strip_prefix_Some)
qed

lemma strip_suffix_end [simp]: "strip_suffix suf (r @ suf) = Some r"
  by (simp add: strip_suffix_Some)

lemma paths_inject [simp]:
  "meta_path i = meta_path j \<longleftrightarrow> i = j" "data_path i = data_path j \<longleftrightarrow> i = j"
  "meta_path i \<noteq> data_path j" "data_path i \<noteq> meta_path j"
  by (simp_all add: meta_path_def data_path_def)

lemma current_apart [simp]:
  "meta_path i \<noteq> current_path" "data_path i \<noteq> current_path" "current_path \<noteq> meta_path i" "current_path \<noteq> data_path i"
proof -
  have "last (meta_path i) \<noteq> last current_path" "last (data_path i) \<noteq> last current_path"
    by (simp_all add: meta_path_def data_path_def current_path_def)
  then show "meta_path i \<noteq> current_path" "data_path i \<noteq> current_path" "current_path \<noteq> meta_path i" "current_path \<noteq> data_path i"
    by metis+
qed

definition is_tmp :: "string \<Rightarrow> bool" where
  "is_tmp n = (strip_suffix ''.tmp'' n \<noteq> None)"

lemma is_tmp_last: "is_tmp n \<Longrightarrow> last n = CHR ''p''"
  by (auto simp: is_tmp_def strip_suffix_Some)

lemma tmp_is_tmp [simp]: "is_tmp (tmp_path p)"
  by (simp add: is_tmp_def tmp_path_def Let_def)

lemma not_tmp [simp]: "\<not> is_tmp (meta_path i)" "\<not> is_tmp (data_path i)" "\<not> is_tmp current_path"
  using is_tmp_last [of "meta_path i"] is_tmp_last [of "data_path i"] is_tmp_last [of current_path]
  by (auto simp: meta_path_def data_path_def current_path_def)

lemma tmp_paths:
  assumes "i \<noteq> []"
  shows "tmp_path (meta_path i) = i @ ''.tmp''" "tmp_path (data_path i) = i @ ''.tmp''" "tmp_path current_path = ''current.tmp''"
  using assms by (simp_all add: tmp_path_def meta_path_def data_path_def current_path_def)

lemma superseded_kept [simp]:
  "\<not> superseded i (meta_path i)" "\<not> superseded i (data_path i)" "\<not> superseded i current_path"
proof -
  have "strip_suffix ''.meta'' (data_path i) = None" "strip_suffix ''.meta'' current_path = None" "strip_suffix ''.data'' current_path = None"
    using paths_inject(4) current_apart unfolding not_None_eq [symmetric] meta_path_def data_path_def
    by (metis not_None_eq strip_suffix_Some)+
  then show "\<not> superseded i (meta_path i)" "\<not> superseded i (data_path i)" "\<not> superseded i current_path"
    using not_tmp by (simp_all add: superseded_def is_tmp_def) (simp_all add: meta_path_def data_path_def)
qed

section \<open>What a reader sees\<close>

text \<open>Temporary files are never read.\<close>

definition look :: "SnapDir \<Rightarrow> string \<Rightarrow> bytes option" where
  "look d n = (if is_tmp n then None else hm_get d n)"

lemma look_eq [simp]:
  "look d (meta_path i) = hm_get d (meta_path i)" "look d (data_path i) = hm_get d (data_path i)"
  "look d current_path = hm_get d current_path"
  by (simp_all add: look_def)

lemma current_look: "look d = look d' \<Longrightarrow> fs_snap_current c d = fs_snap_current c d'"
  unfolding fs_snap_current_def look_eq [symmetric] by presburger

lemma look_write [simp]: "look (hm_insert (tmp_path p) bs d) = look d"
  by (auto simp: look_def fun_eq_iff)

lemma look_rename:
  "\<not> is_tmp p \<Longrightarrow> look (hm_insert p bs (hm_remove (tmp_path p) (hm_insert (tmp_path p) bs d))) = (look d)(p \<mapsto> bs)"
  by (auto simp: look_def fun_eq_iff)

inductive_cases snap_crashed_NilE: "snap_crashed [] d d'"
inductive_cases snap_crashed_writeE: "snap_crashed (WriteFile p bs # ss) d d'"
inductive_cases snap_crashed_renameE: "snap_crashed (RenameFile p q # ss) d d'"
inductive_cases snap_crashed_removeE: "snap_crashed (RemoveFile p # ss) d d'"

lemma crashed_atomic_write:
  assumes "snap_crashed (atomic_write p bs @ ss) d d'" and "\<not> is_tmp p"
  shows "look d' = look d \<or> (\<exists>d1. look d1 = (look d)(p \<mapsto> bs) \<and> snap_crashed ss d1 d')"
  using assms look_rename [OF assms(2)]
  by (auto simp: atomic_write_def elim!: snap_crashed_writeE snap_crashed_renameE)

lemma snap_crashed_removes:
  "snap_crashed (map RemoveFile ns) d d' \<Longrightarrow> \<exists>gone \<subseteq> set ns. look d' = (look d) |` (- gone)"
proof (induction ns arbitrary: d)
  case Nil
  then have "d' = d" by (auto elim: snap_crashed_NilE)
  then show ?case by auto
next
  case (Cons n ns)
  then have "d' = d \<or> snap_crashed (map RemoveFile ns) (hm_remove n d) d'" by (auto elim: snap_crashed_removeE)
  then show ?case
  proof
    assume "d' = d"
    then show ?thesis by (intro exI [of _ "{}"]) auto
  next
    assume "snap_crashed (map RemoveFile ns) (hm_remove n d) d'"
    from Cons.IH [OF this] obtain gone where "gone \<subseteq> set ns" "look d' = (look (hm_remove n d)) |` (- gone)" by blast
    moreover have "look (hm_remove n d) = (look d) |` (- {n})" by (auto simp: look_def restrict_map_def fun_eq_iff)
    ultimately show ?thesis by (intro exI [of _ "insert n gone"]) (auto simp: restrict_map_def fun_eq_iff)
  qed
qed

lemma bytes_str_bytes [simp]: "bytes_str (str_bytes s) = s"
  by (induction s) (simp_all add: bytes_str_def str_bytes_def unat_of_nat of_char_mod_256 del: of_nat_of_char)

lemma str_bytes_str [simp]: "str_bytes (bytes_str bs) = bs"
proof -
  have "unat b mod 256 = unat b" for b :: u8
    by (rule mod_less) (rule order_less_le_trans [OF unsigned_less], simp)
  then show ?thesis by (induction bs) (simp_all add: bytes_str_def str_bytes_def)
qed

lemma id_char_ascii: "list_all id_char i \<Longrightarrow> is_ascii (str_bytes i)"
proof -
  have "(word_of_nat (of_char c) :: u8) < 128" if "id_char c" for c
  proof -
    have "of_char c < (128 :: nat)" using that by (auto simp: id_char_def between_def)
    then show ?thesis by (simp add: word_less_nat_alt unat_of_nat del: of_nat_of_char)
  qed
  then show "list_all id_char i \<Longrightarrow> is_ascii (str_bytes i)" by (auto simp: is_ascii_def str_bytes_def list_all_iff)
qed

lemma current_names:
  assumes "validate_path_safe_id i = Inr i" and "hm_get d current_path = Some (str_bytes i)"
    and "hm_get d (meta_path i) = Some mb" and "sc_from_meta c mb = Inr m" and "hm_get d (data_path i) = Some data"
  shows "fs_snap_current c d = Inr (Some (m, data))"
  using assms id_char_ascii validated(3) [OF assms(1)] by (simp add: fs_snap_current_def)

lemma current_other:
  assumes "hm_get d current_path \<noteq> Some (str_bytes i)"
    and "\<And>n. n \<noteq> meta_path i \<Longrightarrow> n \<noteq> data_path i \<Longrightarrow> \<not> is_tmp n \<Longrightarrow> hm_get d' n = hm_get d n"
  shows "fs_snap_current c d' = fs_snap_current c d"
proof (cases "hm_get d current_path")
  case None
  then show ?thesis using assms(2) [of current_path] by (simp add: fs_snap_current_def)
next
  case (Some b)
  then have "bytes_str b \<noteq> i" using assms(1) by auto
  then have same: "hm_get d' (meta_path (bytes_str b)) = hm_get d (meta_path (bytes_str b))"
      "hm_get d' (data_path (bytes_str b)) = hm_get d (data_path (bytes_str b))" "hm_get d' current_path = hm_get d current_path"
    using assms(2) by simp_all
  consider err where "validate_path_safe_id (bytes_str b) = Inl err" | "validate_path_safe_id (bytes_str b) = Inr (bytes_str b)"
    using validated(1) by (cases "validate_path_safe_id (bytes_str b)") auto
  then show ?thesis using Some same by cases (simp_all add: fs_snap_current_def cong: option.case_cong sum.case_cong)
qed

section \<open>Writing a snapshot\<close>

text \<open>
  The states of the directory during a write: metadata, data and pointer appear in this order,
  then superseded files disappear.
\<close>

definition stage :: "string \<Rightarrow> bytes \<Rightarrow> bytes \<Rightarrow> nat \<Rightarrow> (string \<Rightarrow> bytes option) \<Rightarrow> string \<Rightarrow> bytes option" where
  "stage i mb data k V =
     (let V = (if 1 \<le> k then V(meta_path i \<mapsto> mb) else V);
          V = (if 2 \<le> k then V(data_path i \<mapsto> data) else V)
      in if 3 \<le> k then V(current_path \<mapsto> str_bytes i) else V)"

lemma crashed_publish:
  assumes "snap_crashed (snap_publish i mb data @ map RemoveFile ns) d d'"
  shows "\<exists>k gone. gone \<subseteq> set ns \<and> (gone \<noteq> {} \<longrightarrow> k = 3) \<and> look d' = (stage i mb data k (look d)) |` (- gone)"
proof -
  have stop: ?thesis if "look d' = stage i mb data k (look d)" for k
    using that by (intro exI [of _ k] exI [of _ "{}"]) (simp add: restrict_map_def)
  from crashed_atomic_write [of "meta_path i" mb _ d d'] assms
  consider "look d' = look d"
    | d1 where "look d1 = (look d)(meta_path i \<mapsto> mb)"
        "snap_crashed (atomic_write (data_path i) data @ atomic_write current_path (str_bytes i) @ map RemoveFile ns) d1 d'"
    unfolding snap_publish_def append_assoc by auto
  then show ?thesis
  proof cases
    case 1
    then show ?thesis using stop [of 0] by (simp add: stage_def)
  next
    case (2 d1)
    from crashed_atomic_write [OF 2(2)] consider "look d' = look d1"
      | d2 where "look d2 = (look d1)(data_path i \<mapsto> data)" "snap_crashed (atomic_write current_path (str_bytes i) @ map RemoveFile ns) d2 d'"
      by auto
    then show ?thesis
    proof cases
      case 1
      then show ?thesis using stop [of 1] 2(1) by (simp add: stage_def)
    next
      case d2: (2 d2)
      from crashed_atomic_write [OF d2(2)] consider "look d' = look d2"
        | d3 where "look d3 = (look d2)(current_path \<mapsto> str_bytes i)" "snap_crashed (map RemoveFile ns) d3 d'"
        by auto
      then show ?thesis
      proof cases
        case 1
        then show ?thesis using stop [of 2] 2(1) d2(1) by (simp add: stage_def)
      next
        case d3: (2 d3)
        obtain gone where "gone \<subseteq> set ns" "look d' = (look d3) |` (- gone)" using snap_crashed_removes [OF d3(2)] by blast
        then show ?thesis using 2(1) d2(1) d3(1) by (intro exI [of _ 3] exI [of _ gone]) (simp add: stage_def)
      qed
    qed
  qed
qed

lemma stage_shows:
  assumes cur: "fs_snap_current c d = Inr cur" and v: "validate_path_safe_id i = Inr i" and m: "sc_from_meta c mb = Inr m"
    and same: "hm_get d current_path = Some (str_bytes i) \<Longrightarrow> \<exists>d0. cur = Some (m, d0)"
    and gone: "\<forall>n \<in> gone. superseded i n" "gone \<noteq> {} \<longrightarrow> k = 3"
    and L: "look d' = (stage i mb data k (look d)) |` (- gone)"
  shows "fs_snap_current c d' = Inr cur \<and> hm_get d' current_path = hm_get d current_path \<or>
         fs_snap_current c d' = Inr (Some (m, data)) \<and> hm_get d' current_path = Some (str_bytes i)"
    and "3 \<le> k \<Longrightarrow> fs_snap_current c d' = Inr (Some (m, data)) \<and> hm_get d' current_path = Some (str_bytes i)"
proof -
  have kept: "meta_path i \<notin> gone" "data_path i \<notin> gone" "current_path \<notin> gone" using gone(1) superseded_kept by blast+
  have get: "\<not> is_tmp n \<Longrightarrow> n \<notin> gone \<Longrightarrow> hm_get d' n = stage i mb data k (look d) n" for n
    using fun_cong [OF L, of n] by (simp add: look_def)
  have files: "hm_get d' (meta_path i) = (if 1 \<le> k then Some mb else hm_get d (meta_path i))"
    "hm_get d' (data_path i) = (if 2 \<le> k then Some data else hm_get d (data_path i))"
    "hm_get d' current_path = (if 3 \<le> k then Some (str_bytes i) else hm_get d current_path)"
    using get [of "meta_path i"] get [of "data_path i"] get [of current_path] kept by (simp_all add: stage_def Let_def)
  show new: "fs_snap_current c d' = Inr (Some (m, data)) \<and> hm_get d' current_path = Some (str_bytes i)" if "3 \<le> k"
    using current_names [OF v _ _ m] files that by simp
  show "fs_snap_current c d' = Inr cur \<and> hm_get d' current_path = hm_get d current_path \<or>
         fs_snap_current c d' = Inr (Some (m, data)) \<and> hm_get d' current_path = Some (str_bytes i)"
  proof (cases "3 \<le> k")
    case False
    then have g: "gone = {}" using gone(2) by auto
    show ?thesis
    proof (cases "hm_get d current_path = Some (str_bytes i)")
      case True
      then obtain d0 where c0: "cur = Some (m, d0)" using same by blast
      have "\<exists>mb0. hm_get d (meta_path i) = Some mb0 \<and> sc_from_meta c mb0 = Inr m \<and> hm_get d (data_path i) = Some d0"
        using cur c0 True v by (auto simp: fs_snap_current_def split: if_splits option.splits sum.splits)
      then have "\<exists>mb1. hm_get d' (meta_path i) = Some mb1 \<and> sc_from_meta c mb1 = Inr m"
          "hm_get d' (data_path i) = Some d0 \<or> hm_get d' (data_path i) = Some data"
        using files(1,2) m by auto
      moreover have "hm_get d' current_path = Some (str_bytes i)" using files(3) True by simp
      ultimately show ?thesis using current_names [OF v] c0 True by auto
    next
      case other: False
      have "fs_snap_current c d' = fs_snap_current c d"
        by (rule current_other [OF other]) (use get g False in \<open>auto simp: stage_def Let_def look_def\<close>)
      then show ?thesis using cur files(3) False by simp
    qed
  qed (use new in simp)
qed

text \<open>The directory after a complete write.\<close>

lemma steps_atomic_write:
  assumes "\<not> is_tmp p"
  shows "\<exists>d1. snap_steps (atomic_write p bs @ ss) d = snap_steps ss d1 \<and> look d1 = (look d)(p \<mapsto> bs)"
  using look_rename [OF assms] by (auto simp: snap_steps_def atomic_write_def)

lemma steps_crashed: "snap_crashed ss d (snap_steps ss d)"
  unfolding snap_steps_def by (induction ss arbitrary: d) (auto intro: snap_crashed.intros)

lemma steps_publish:
  "\<exists>gone \<subseteq> set ns. look (snap_steps (snap_publish i mb data @ map RemoveFile ns) d) = (stage i mb data 3 (look d)) |` (- gone)"
proof -
  obtain d1 where d1: "snap_steps (snap_publish i mb data @ map RemoveFile ns) d =
      snap_steps (atomic_write (data_path i) data @ atomic_write current_path (str_bytes i) @ map RemoveFile ns) d1"
      "look d1 = (look d)(meta_path i \<mapsto> mb)"
    using steps_atomic_write [of "meta_path i" mb] by (auto simp: snap_publish_def)
  obtain d2 where d2: "snap_steps (atomic_write (data_path i) data @ atomic_write current_path (str_bytes i) @ map RemoveFile ns) d1 =
      snap_steps (atomic_write current_path (str_bytes i) @ map RemoveFile ns) d2" "look d2 = (look d1)(data_path i \<mapsto> data)"
    using steps_atomic_write [OF not_tmp(2)] by blast
  obtain d3 where d3: "snap_steps (atomic_write current_path (str_bytes i) @ map RemoveFile ns) d2 = snap_steps (map RemoveFile ns) d3"
      "look d3 = (look d2)(current_path \<mapsto> str_bytes i)"
    using steps_atomic_write [OF not_tmp(3)] by blast
  obtain gone where "gone \<subseteq> set ns" "look (snap_steps (map RemoveFile ns) d3) = (look d3) |` (- gone)"
    using snap_crashed_removes [OF steps_crashed] by metis
  moreover have "look d3 = stage i mb data 3 (look d)" using d1(2) d2(2) d3(2) by (simp add: stage_def)
  ultimately show ?thesis using d1(1) d2(1) d3(1) by (intro exI [of _ gone]) simp
qed

lemma write_parts:
  assumes "fs_snap_write c rm d m data = Inr ss"
  obtains mb ns where "validate_path_safe_id (sm_id m) = Inr (sm_id m)" "sc_to_meta c m = Inr mb"
    "ss = snap_publish (sm_id m) mb data @ map RemoveFile ns" "\<forall>n \<in> set ns. superseded (sm_id m) n"
  using assms validated(1)
  by (fastforce simp: fs_snap_write_def reclaim_superseded_def Let_def split: sum.splits)

definition metas_ok :: "SnapCodec \<Rightarrow> bool" where
  "metas_ok c \<longleftrightarrow> (\<forall>m. \<exists>b. sc_to_meta c m = Inr b \<and> sc_from_meta c b = Inr m)"

text \<open>The directories a node goes through: complete writes, and writes that stopped half way.\<close>

definition fresh_id :: "SnapCodec \<Rightarrow> SnapDir \<Rightarrow> bytes SnapshotMeta \<Rightarrow> bool" where
  "fresh_id c d m \<longleftrightarrow> (\<forall>m0 d0. fs_snap_current c d = Inr (Some (m0, d0)) \<and> sm_id m0 = sm_id m \<longrightarrow> m0 = m)"

inductive snap_reach :: "SnapCodec \<Rightarrow> SnapDir \<Rightarrow> bool" for c where
  snap_empty: "snap_reach c []"
| snap_written: "snap_reach c d \<Longrightarrow> fresh_id c d m \<Longrightarrow> fs_snap_write c rm d m data = Inr ss \<Longrightarrow> snap_reach c (snap_steps ss d)"
| snap_stopped: "snap_reach c d \<Longrightarrow> fresh_id c d m \<Longrightarrow> fs_snap_write c rm d m data = Inr ss \<Longrightarrow> snap_crashed ss d d' \<Longrightarrow> snap_reach c d'"

lemma fs_snap_write_shows:
  assumes cur: "fs_snap_current c d = Inr cur" and mo: "metas_ok c" and fr: "fresh_id c d m"
    and named: "\<And>m0 d0. cur = Some (m0, d0) \<Longrightarrow> hm_get d current_path = Some (str_bytes (sm_id m0))"
    and none: "cur = None \<Longrightarrow> hm_get d current_path = None"
    and w: "fs_snap_write c rm d m data = Inr ss"
  shows "snap_crashed ss d d' \<Longrightarrow>
      fs_snap_current c d' = Inr cur \<and> hm_get d' current_path = hm_get d current_path \<or>
      fs_snap_current c d' = Inr (Some (m, data)) \<and> hm_get d' current_path = Some (str_bytes (sm_id m))"
    and "fs_snap_current c (snap_steps ss d) = Inr (Some (m, data)) \<and> hm_get (snap_steps ss d) current_path = Some (str_bytes (sm_id m))"
proof -
  obtain mb ns where W: "validate_path_safe_id (sm_id m) = Inr (sm_id m)" "sc_to_meta c m = Inr mb"
    "ss = snap_publish (sm_id m) mb data @ map RemoveFile ns" "\<forall>n \<in> set ns. superseded (sm_id m) n"
    by (rule write_parts [OF w])
  have fm: "sc_from_meta c mb = Inr m" using mo W(2) unfolding metas_ok_def by (metis sum.inject(2))
  have inj: "s = t" if "str_bytes s = str_bytes t" for s t using arg_cong [OF that, of bytes_str] by simp
  have same: "\<exists>d0. cur = Some (m, d0)" if p: "hm_get d current_path = Some (str_bytes (sm_id m))"
  proof -
    obtain m0 d0 where c0: "cur = Some (m0, d0)" using p none by (cases cur) auto
    then have "sm_id m0 = sm_id m" using named [OF c0] p inj by simp
    then show ?thesis using fr cur c0 by (auto simp: fresh_id_def)
  qed
  show "fs_snap_current c d' = Inr cur \<and> hm_get d' current_path = hm_get d current_path \<or>
      fs_snap_current c d' = Inr (Some (m, data)) \<and> hm_get d' current_path = Some (str_bytes (sm_id m))" if cr: "snap_crashed ss d d'"
  proof -
    obtain k gone where g: "gone \<subseteq> set ns" "gone \<noteq> {} \<longrightarrow> k = 3" "look d' = (stage (sm_id m) mb data k (look d)) |` (- gone)"
      using crashed_publish [OF cr [unfolded W(3)]] by blast
    have "\<forall>n \<in> gone. superseded (sm_id m) n" using g(1) W(4) by blast
    then show ?thesis using stage_shows(1) [OF cur W(1) fm same _ g(2,3)] by simp
  qed
  obtain gone where g: "gone \<subseteq> set ns" "look (snap_steps ss d) = (stage (sm_id m) mb data 3 (look d)) |` (- gone)"
    using steps_publish [of ns "sm_id m" mb data d] unfolding W(3) by blast
  moreover from this have "\<forall>n \<in> gone. superseded (sm_id m) n" using W(4) by blast
  ultimately show "fs_snap_current c (snap_steps ss d) = Inr (Some (m, data)) \<and> hm_get (snap_steps ss d) current_path = Some (str_bytes (sm_id m))"
    using stage_shows(2) [OF cur W(1) fm same _ _ g(2)] by simp
qed

lemma reach_current:
  assumes "snap_reach c d" and mo: "metas_ok c"
  shows "\<exists>cur. fs_snap_current c d = Inr cur \<and> (cur = None \<longrightarrow> hm_get d current_path = None) \<and>
    (\<forall>m d0. cur = Some (m, d0) \<longrightarrow> hm_get d current_path = Some (str_bytes (sm_id m)))"
  using assms(1)
proof (induction rule: snap_reach.induct)
  case snap_empty
  then show ?case by (simp add: fs_snap_current_def)
next
  case (snap_written d m rm data ss)
  then obtain cur where cur: "fs_snap_current c d = Inr cur" "cur = None \<longrightarrow> hm_get d current_path = None"
      "\<forall>m d0. cur = Some (m, d0) \<longrightarrow> hm_get d current_path = Some (str_bytes (sm_id m))" by blast
  then have "fs_snap_current c (snap_steps ss d) = Inr (Some (m, data)) \<and> hm_get (snap_steps ss d) current_path = Some (str_bytes (sm_id m))"
    using fs_snap_write_shows(2) [OF cur(1) mo snap_written.hyps(2) _ _ snap_written.hyps(3)] by simp
  then show ?case by simp
next
  case (snap_stopped d m rm data ss d')
  then obtain cur where cur: "fs_snap_current c d = Inr cur" "cur = None \<longrightarrow> hm_get d current_path = None"
      "\<forall>m d0. cur = Some (m, d0) \<longrightarrow> hm_get d current_path = Some (str_bytes (sm_id m))" by blast
  then have "fs_snap_current c d' = Inr cur \<and> hm_get d' current_path = hm_get d current_path \<or>
      fs_snap_current c d' = Inr (Some (m, data)) \<and> hm_get d' current_path = Some (str_bytes (sm_id m))"
    using fs_snap_write_shows(1) [OF cur(1) mo snap_stopped.hyps(2) _ _ snap_stopped.hyps(3,4)] by simp
  then show ?case using cur by auto
qed

section \<open>Properties\<close>

text \<open>
  C7: A snapshot write that stops at any point, even inside the writing of a temporary file, leaves
  either the snapshot that was current before or the new one as the current snapshot, never an
  error or a mixture; a completed write makes the new snapshot current.
\<close>

theorem snapshot_write_atomic:
  assumes "metas_ok c" and "snap_reach c d" and "fresh_id c d m" and "fs_snap_write c rm d m data = Inr ss"
  shows "fs_snap_current c (snap_steps ss d) = Inr (Some (m, data)) \<and>
    (\<forall>d'. snap_crashed ss d d' \<longrightarrow>
       fs_snap_current c d' = fs_snap_current c d \<or> fs_snap_current c d' = Inr (Some (m, data)))"
proof -
  obtain cur where cur: "fs_snap_current c d = Inr cur" "cur = None \<longrightarrow> hm_get d current_path = None"
      "\<forall>m d0. cur = Some (m, d0) \<longrightarrow> hm_get d current_path = Some (str_bytes (sm_id m))"
    using reach_current [OF assms(2,1)] by blast
  then show ?thesis using fs_snap_write_shows [OF cur(1) assms(1,3) _ _ assms(4)] by auto
qed

text \<open>A concrete encoding of the metadata: the id with its length in unary, the log id, the membership.\<close>

definition plain_meta :: SnapCodec where
  "plain_meta =
     \<lparr>sc_to_meta = (\<lambda>m. Inr (replicate (length (sm_id m)) 1 @ [0] @ str_bytes (sm_id m) @
        (case sm_last_applied m of None \<Rightarrow> [0] | Some l \<Rightarrow> 1 # u64_to_le (l_term l) @ u64_to_le (l_index l)) @ sm_membership m)),
      sc_from_meta = (\<lambda>b. let n = length (takeWhile (\<lambda>v. v = 1) b); r = drop (n + 1 + n) b in
        Inr \<lparr>sm_id = bytes_str (take n (drop (n + 1) b)),
             sm_last_applied = (if hd r = 0 then None
               else Some \<lparr>l_term = u64_from_le (take 8 (tl r)), l_index = u64_from_le (take 8 (drop 8 (tl r)))\<rparr>),
             sm_membership = (if hd r = 0 then tl r else drop 16 (tl r))\<rparr>)\<rparr>"

lemma length_str_bytes [simp]: "length (str_bytes s) = length s"
  by (simp add: str_bytes_def)

lemma plain_meta_ok: "metas_ok plain_meta"
  by (simp add: metas_ok_def plain_meta_def Let_def takeWhile_append split: option.splits)

definition sample_meta :: "u64 \<Rightarrow> string \<Rightarrow> bytes SnapshotMeta" where
  "sample_meta n i = \<lparr>sm_id = i, sm_last_applied = Some \<lparr>l_term = 1, l_index = n\<rparr>, sm_membership = [3]\<rparr>"

theorem snapshot_write_atomic_witness:
  "\<exists>ss. fs_snap_write plain_meta (\<lambda>_. True) [] (sample_meta 5 ''snap-5-1'') [7] = Inr ss \<and>
     fs_snap_current plain_meta (snap_steps ss []) = Inr (Some (sample_meta 5 ''snap-5-1'', [7])) \<and>
     fs_snap_current plain_meta (snap_steps (take 3 ss) []) = Inr None"
proof -
  have none: "fs_snap_current plain_meta [] = Inr None" by (simp add: fs_snap_current_def)
  have v: "validate_path_safe_id (sm_id (sample_meta 5 ''snap-5-1'')) = Inr ''snap-5-1''"
    by (simp add: validate_path_safe_id_def sample_meta_def ID_MAX_LEN_def id_char_def between_def)
  obtain mb where "sc_to_meta plain_meta (sample_meta 5 ''snap-5-1'') = Inr mb" by (simp add: plain_meta_def)
  with v obtain ss where w: "fs_snap_write plain_meta (\<lambda>_. True) [] (sample_meta 5 ''snap-5-1'') [7] = Inr ss"
      "take 3 ss = [WriteFile ''snap-5-1.tmp'' mb, RenameFile ''snap-5-1.tmp'' ''snap-5-1.meta'', WriteFile ''snap-5-1.tmp'' [7]]"
    by (simp add: fs_snap_write_def snap_publish_def atomic_write_def tmp_path_def meta_path_def data_path_def Let_def)
  have "fresh_id plain_meta [] (sample_meta 5 ''snap-5-1'')" by (simp add: fresh_id_def none)
  from snapshot_write_atomic [OF plain_meta_ok snap_empty this w(1)]
  have "fs_snap_current plain_meta (snap_steps ss []) = Inr (Some (sample_meta 5 ''snap-5-1'', [7]))" by simp
  moreover have "fs_snap_current plain_meta (snap_steps (take 3 ss) []) = Inr None"
    unfolding w(2) by (simp add: snap_steps_def fs_snap_current_def current_path_def)
  ultimately show ?thesis using w(1) by blast
qed

text \<open>A name of a file directly in the directory.\<close>

definition inside :: "string \<Rightarrow> bool" where
  "inside n \<longleftrightarrow> CHR ''/'' \<notin> set n \<and> n \<noteq> [] \<and> n \<noteq> ''.'' \<and> n \<noteq> ''..''"

fun touched :: "SnapStep \<Rightarrow> string set" where
  "touched (WriteFile p bs) = {p}"
| "touched (RenameFile p q) = {p, q}"
| "touched (RemoveFile p) = {p}"

lemma id_inside:
  assumes "list_all id_char i" and "set suf \<inter> {CHR ''/''} = {}" and "2 < length suf"
  shows "inside (i @ suf)"
proof -
  have "CHR ''/'' \<notin> set i" using assms(1) by (auto simp: list_all_iff id_char_def between_def)
  moreover have "i @ suf \<noteq> n" if "length n \<le> 2" for n using assms(3) that by auto
  then have "i @ suf \<noteq> ''.''" "i @ suf \<noteq> ''..''" by simp_all
  ultimately show ?thesis using assms(2,3) by (auto simp: inside_def)
qed

abbreviation all_inside :: "SnapDir \<Rightarrow> bool" where
  "all_inside d \<equiv> fst ` set d \<subseteq> Collect inside"

lemma keys_remove: "fst ` set (hm_remove k d) = fst ` set d - {k}"
  using arg_cong [OF delete_keys [of k d], of set] by simp

lemma step_inside: "all_inside d \<Longrightarrow> \<forall>n \<in> touched s. inside n \<Longrightarrow> all_inside (snap_step s d)"
  by (cases s) (simp_all add: dom_update keys_remove subset_iff split: option.splits)

lemma crashed_inside:
  "snap_crashed ss d d' \<Longrightarrow> all_inside d \<Longrightarrow> \<forall>s \<in> set ss. \<forall>n \<in> touched s. inside n \<Longrightarrow> all_inside d'"
proof (induction rule: snap_crashed.induct)
  case (snap_inside p bs ss d k)
  then show ?case using step_inside [of d "WriteFile p (take k bs)"] by simp
next
  case (snap_after ss s d d')
  then show ?case using step_inside [of d s] by simp
qed simp

lemma names_inside:
  assumes "validate_path_safe_id i = Inr j"
  shows "inside (meta_path i)" "inside (data_path i)" "inside (i @ ''.tmp'')"
  unfolding meta_path_def data_path_def by (rule id_inside [OF validated(3) [OF assms]]; simp)+

lemma publish_inside:
  assumes "validate_path_safe_id i = Inr i"
  shows "\<forall>s \<in> set (snap_publish i mb data). \<forall>n \<in> touched s. inside n"
proof -
  have "inside current_path" "inside ''current.tmp''" by (simp_all add: inside_def current_path_def)
  then show ?thesis using names_inside [OF assms]
    by (auto simp: snap_publish_def atomic_write_def tmp_paths [OF validated(2) [OF assms]])
qed

lemma write_inside:
  assumes w: "fs_snap_write c rm d m data = Inr ss" and d: "all_inside d"
  shows "\<forall>s \<in> set ss. \<forall>n \<in> touched s. inside n"
proof -
  obtain mb where v: "validate_path_safe_id (sm_id m) = Inr (sm_id m)"
    and ss: "ss = snap_publish (sm_id m) mb data @ reclaim_superseded rm (sm_id m) (snap_steps (snap_publish (sm_id m) mb data) d)"
    using w validated(1) by (fastforce simp: fs_snap_write_def Let_def split: sum.splits)
  have "all_inside (snap_steps (snap_publish (sm_id m) mb data) d)"
    by (rule crashed_inside [OF steps_crashed d publish_inside [OF v]])
  then show ?thesis using publish_inside [OF v] unfolding ss by (auto simp: reclaim_superseded_def)
qed

lemma reach_inside: "snap_reach c d \<Longrightarrow> all_inside d"
proof (induction rule: snap_reach.induct)
  case (snap_written d m rm data ss)
  show ?case
    by (rule crashed_inside [OF steps_crashed snap_written.IH write_inside [OF snap_written.hyps(3) snap_written.IH]])
next
  case (snap_stopped d m rm data ss d')
  show ?case
    by (rule crashed_inside [OF snap_stopped.hyps(4) snap_stopped.IH write_inside [OF snap_stopped.hyps(3) snap_stopped.IH]])
qed simp

text \<open>
  C25: Whatever identifier a peer sends, every file that a snapshot write creates, renames or
  removes has a name without a path separator that is neither the directory nor its parent, so
  nothing outside the snapshots directory is touched.  A read by an identifier whose data file
  would lie elsewhere is refused, and so is a current pointer, in whatever directory, that names
  files elsewhere.
\<close>

theorem snapshot_paths_safe:
  assumes "snap_reach c d"
  shows "(\<forall>rm m data ss. fs_snap_write c rm d m data = Inr ss \<longrightarrow> (\<forall>s \<in> set ss. \<forall>n \<in> touched s. inside n)) \<and>
    (\<forall>d' i. \<not> inside (data_path i) \<longrightarrow> (\<exists>e. fs_snap_read d' i = Inl e)) \<and>
    (\<forall>d' b. hm_get d' current_path = Some b \<and> (\<not> inside (meta_path (bytes_str b)) \<or> \<not> inside (data_path (bytes_str b))) \<longrightarrow>
       (\<exists>e. fs_snap_current c d' = Inl e))"
proof (intro conjI allI impI)
  show "\<forall>s \<in> set ss. \<forall>n \<in> touched s. inside n" if "fs_snap_write c rm d m data = Inr ss" for rm m data ss
    by (rule write_inside [OF that reach_inside [OF assms]])
  show "\<exists>e. fs_snap_read d' i = Inl e" if "\<not> inside (data_path i)" for d' i
    using that names_inside(2) by (auto simp: fs_snap_read_def split: sum.splits)
  show "\<exists>e. fs_snap_current c d' = Inl e"
    if "hm_get d' current_path = Some b \<and> (\<not> inside (meta_path (bytes_str b)) \<or> \<not> inside (data_path (bytes_str b)))" for d' b
    using that names_inside(1,2) by (auto simp: fs_snap_current_def split: sum.splits)
qed

text \<open>A second snapshot written over a first one, whose files are removed.\<close>

theorem snapshot_paths_safe_witness:
  "\<exists>ss1 ss2.
     fs_snap_write plain_meta (\<lambda>_. True) [] (sample_meta 5 ''snap-5-1'') [7] = Inr ss1 \<and>
     fs_snap_write plain_meta (\<lambda>_. True) (snap_steps ss1 []) (sample_meta 6 ''snap-6-1'') [8] = Inr ss2 \<and>
     RemoveFile ''snap-5-1.meta'' \<in> set ss2 \<and> inside ''snap-5-1.meta'' \<and>
     (\<exists>e. fs_snap_read (snap_steps ss1 []) ''../../etc/x'' = Inl e)"
proof -
  have v: "validate_path_safe_id (sm_id (sample_meta 5 ''snap-5-1'')) = Inr ''snap-5-1''"
      "validate_path_safe_id (sm_id (sample_meta 6 ''snap-6-1'')) = Inr ''snap-6-1''"
    by (simp_all add: validate_path_safe_id_def sample_meta_def ID_MAX_LEN_def id_char_def between_def)
  obtain mb1 mb2 where "sc_to_meta plain_meta (sample_meta 5 ''snap-5-1'') = Inr mb1" "sc_to_meta plain_meta (sample_meta 6 ''snap-6-1'') = Inr mb2"
    by (simp add: plain_meta_def)
  note steps = fs_snap_write_def Let_def snap_publish_def atomic_write_def tmp_path_def meta_path_def data_path_def
    current_path_def reclaim_superseded_def snap_steps_def superseded_def strip_suffix_def
  obtain ss1 where w1: "fs_snap_write plain_meta (\<lambda>_. True) [] (sample_meta 5 ''snap-5-1'') [7] = Inr ss1"
      "''snap-5-1.meta'' \<in> fst ` set (snap_steps ss1 [])"
    using v(1) \<open>sc_to_meta _ _ = Inr mb1\<close> by (simp add: steps)
  obtain ss2 where w2: "fs_snap_write plain_meta (\<lambda>_. True) (snap_steps ss1 []) (sample_meta 6 ''snap-6-1'') [8] = Inr ss2"
      "RemoveFile ''snap-5-1.meta'' \<in> set ss2"
    using v(2) \<open>sc_to_meta _ _ = Inr mb2\<close> w1(2) by (auto simp: steps dom_update keys_remove)
  have "fresh_id plain_meta [] (sample_meta 5 ''snap-5-1'')" by (simp add: fresh_id_def fs_snap_current_def)
  note reach = snap_written [OF snap_empty this w1(1)]
  note safe = snapshot_paths_safe [OF reach]
  have "inside ''snap-5-1.meta''" using safe w2 by fastforce
  moreover have "\<not> inside (data_path ''../../etc/x'')" by (simp add: inside_def data_path_def)
  then have "\<exists>e. fs_snap_read (snap_steps ss1 []) ''../../etc/x'' = Inl e" using safe by blast
  ultimately show ?thesis using w1(1) w2 by blast
qed

end
