(* ===== verification/Sm_Adapter.thy ===== *)
theory Sm_Adapter
  imports Snap_Store
begin

text \<open>
  The generic state-machine seam, \<^verbatim>\<open>fluree-raft-core/src/state_machine.rs\<close>: the snapshot codec,
  an application as a record of its reduction and its snapshot format, an observer as a record of
  its hooks, and the adapter that the consensus engine drives.

  The serializer of the codec and that of the stored membership are parameters.  The world an
  observer publishes into is the type \<open>'w\<close>.  Of the engine's membership the code reads the voter
  and the learner ids.  The read-write lock is not modelled: the adapter is the only writer.
\<close>

section \<open>The snapshot codec\<close>

type_synonym u16 = "16 word"

text \<open>\<open>supported\<close> is the expected version, which the source carries printed.\<close>

datatype SnapshotCodecError =
    CodecEncode string
  | CodecDecode string
  | BadMagic
  | Truncated nat nat
  | UnsupportedVersion u16 u16

definition CODEC_MAGIC :: bytes where
  "CODEC_MAGIC = [0x46, 0x52, 0x43, 0x53]"

definition HEADER_LEN :: nat where
  "HEADER_LEN = length CODEC_MAGIC + 2"

definition u16_to_le :: "u16 \<Rightarrow> bytes" where
  "u16_to_le v = le_digits 2 (unat v)"

definition u16_from_le :: "bytes \<Rightarrow> u16" where
  "u16_from_le bs = word_of_nat (le_nat bs)"

definition codec_encode :: "('t \<Rightarrow> string + bytes) \<Rightarrow> u16 \<Rightarrow> 't \<Rightarrow> SnapshotCodecError + bytes" where
  "codec_encode to_bytes version v =
     (case to_bytes v of
        Inl err \<Rightarrow> Inl (CodecEncode err)
      | Inr body \<Rightarrow> Inr (CODEC_MAGIC @ u16_to_le version @ body))"

definition peek_version :: "bytes \<Rightarrow> SnapshotCodecError + u16" where
  "peek_version bs =
     (if length bs < HEADER_LEN then Inl (Truncated (length bs) HEADER_LEN)
      else if take (length CODEC_MAGIC) bs \<noteq> CODEC_MAGIC then Inl BadMagic
      else Inr (u16_from_le [bs ! 4, bs ! 5]))"

definition codec_decode :: "(bytes \<Rightarrow> string + 't) \<Rightarrow> bytes \<Rightarrow> u16 \<Rightarrow> SnapshotCodecError + 't" where
  "codec_decode from_bytes bs expect_version =
     (case peek_version bs of
        Inl err \<Rightarrow> Inl err
      | Inr found \<Rightarrow>
          if found \<noteq> expect_version then Inl (UnsupportedVersion found expect_version)
          else (case from_bytes (drop HEADER_LEN bs) of Inl err \<Rightarrow> Inl (CodecDecode err) | Inr v \<Rightarrow> Inr v))"

section \<open>Applications and observers\<close>

record MembershipView =
  mv_voters :: "NodeId list"
  mv_learners :: "NodeId list"

datatype SnapshotLoad = BootRestore | LiveInstall

record ('s, 'c, 'r) AppStateMachine =
  ap_initial_state :: 's
  ap_apply :: "'s \<Rightarrow> 'c \<Rightarrow> u64 \<Rightarrow> 's \<times> 'r"
  ap_noop_response :: 'r
  ap_apply_membership :: "'s \<Rightarrow> MembershipView \<Rightarrow> u64 \<Rightarrow> 's"
  ap_encode_snapshot :: "'s \<Rightarrow> SnapshotCodecError + bytes"
  ap_decode_snapshot :: "bytes \<Rightarrow> SnapshotCodecError + 's"

text \<open>\<open>on_command\<close> may change the response; every hook returns the effects it pushes.\<close>

record ('s, 'c, 'r, 'e, 'w) StateMachineObserver =
  ob_on_command :: "'s \<Rightarrow> 'c \<Rightarrow> 'r \<Rightarrow> u64 \<Rightarrow> 'r \<times> 'e list"
  ob_on_membership :: "'s \<Rightarrow> MembershipView \<Rightarrow> u64 \<Rightarrow> 'e list"
  ob_on_snapshot_loaded :: "'s \<Rightarrow> SnapshotLoad \<Rightarrow> 'e list"
  ob_publish :: "'w \<Rightarrow> 'e list \<Rightarrow> 'w"

section \<open>The adapter\<close>

text \<open>The engine's membership, and the membership with the log id of its entry.\<close>

record Membership =
  om_voters :: "NodeId list"
  om_learners :: "NodeId list"

record StoredMembership =
  md_log_id :: "OpenraftLogId option"
  md_membership :: Membership

definition default_membership :: StoredMembership where
  "default_membership = \<lparr>md_log_id = None, md_membership = \<lparr>om_voters = [], om_learners = []\<rparr>\<rparr>"

record MembershipCodec =
  mc_to :: "StoredMembership \<Rightarrow> string + bytes"
  mc_from :: "bytes \<Rightarrow> string + StoredMembership"

definition membership_view :: "Membership \<Rightarrow> MembershipView" where
  "membership_view m =
     \<lparr>mv_voters = foldr bs_insert (om_voters m) [], mv_learners = foldr bs_insert (om_learners m) []\<rparr>"

datatype 'c EntryPayload = Blank | Normal 'c | MembershipChange Membership

record 'c Entry =
  en_log_id :: OpenraftLogId
  en_payload :: "'c EntryPayload"

datatype ErrorVerb = VerbRead | VerbWrite

datatype AdapterError =
    StateError ErrorVerb SnapshotCodecError
  | MembershipError ErrorVerb string
  | SnapshotError ErrorVerb StorageError

record 'st SnapshotOps =
  so_write :: "'st \<Rightarrow> bytes SnapshotMeta \<Rightarrow> bytes \<Rightarrow> StorageError + 'st"
  so_current :: "'st \<Rightarrow> StorageError + (bytes SnapshotMeta \<times> bytes) option"

record ('s, 'st, 'w) StateMachineAdapter =
  ad_state :: 's
  ad_last_applied :: "OpenraftLogId option"
  ad_last_membership :: StoredMembership
  ad_storage :: 'st
  ad_snapshot_counter :: u64
  ad_world :: 'w

definition adapter_new :: "('s, 'c, 'r) AppStateMachine \<Rightarrow> 'st \<Rightarrow> 'w \<Rightarrow> ('s, 'st, 'w) StateMachineAdapter" where
  "adapter_new app st w =
     \<lparr>ad_state = ap_initial_state app, ad_last_applied = None, ad_last_membership = default_membership,
      ad_storage = st, ad_snapshot_counter = 0, ad_world = w\<rparr>"

definition restore_from_snapshot ::
  "('s, 'c, 'r) AppStateMachine \<Rightarrow> ('s, 'c, 'r, 'e, 'w) StateMachineObserver \<Rightarrow> MembershipCodec \<Rightarrow> 'st SnapshotOps \<Rightarrow>
   ('s, 'st, 'w) StateMachineAdapter \<Rightarrow> AdapterError + ('s, 'st, 'w) StateMachineAdapter" where
  "restore_from_snapshot app ob mc so a =
     (case so_current so (ad_storage a) of
        Inl err \<Rightarrow> Inl (SnapshotError VerbRead err)
      | Inr None \<Rightarrow> Inr a
      | Inr (Some (our_meta, bs)) \<Rightarrow>
          (case ap_decode_snapshot app bs of
             Inl err \<Rightarrow> Inl (StateError VerbRead err)
           | Inr restored \<Rightarrow>
               (case mc_from mc (sm_membership our_meta) of
                  Inl err \<Rightarrow> Inl (MembershipError VerbRead err)
                | Inr last_membership \<Rightarrow>
                    Inr (a\<lparr>ad_state := restored,
                           ad_last_applied := map_option to_openraft_log_id (sm_last_applied our_meta),
                           ad_last_membership := last_membership,
                           ad_world := ob_publish ob (ad_world a) (ob_on_snapshot_loaded ob restored BootRestore)\<rparr>))))"

definition adapter_open ::
  "('s, 'c, 'r) AppStateMachine \<Rightarrow> ('s, 'c, 'r, 'e, 'w) StateMachineObserver \<Rightarrow> MembershipCodec \<Rightarrow> 'st SnapshotOps \<Rightarrow>
   'st \<Rightarrow> 'w \<Rightarrow> AdapterError + ('s, 'st, 'w) StateMachineAdapter" where
  "adapter_open app ob mc so st w = restore_from_snapshot app ob mc so (adapter_new app st w)"

definition applied_state :: "('s, 'st, 'w) StateMachineAdapter \<Rightarrow> OpenraftLogId option \<times> StoredMembership" where
  "applied_state a = (ad_last_applied a, ad_last_membership a)"

text \<open>One entry of a batch, under the lock; the responses and the effects of the batch grow at the end.\<close>

definition apply_entry ::
  "('s, 'c, 'r) AppStateMachine \<Rightarrow> ('s, 'c, 'r, 'e, 'w) StateMachineObserver \<Rightarrow>
   ('s, 'st, 'w) StateMachineAdapter \<times> 'r list \<times> 'e list \<Rightarrow> 'c Entry \<Rightarrow>
   ('s, 'st, 'w) StateMachineAdapter \<times> 'r list \<times> 'e list" where
  "apply_entry app ob acc entry =
     (case acc of (a, responses, effects) \<Rightarrow>
        let log_id = en_log_id entry; a = a\<lparr>ad_last_applied := Some log_id\<rparr> in
        case en_payload entry of
          Blank \<Rightarrow> (a, responses @ [ap_noop_response app], effects)
        | Normal command \<Rightarrow>
            (let (s, response) = ap_apply app (ad_state a) command (o_index log_id);
                 (response, pushed) = ob_on_command ob s command response (o_index log_id)
             in (a\<lparr>ad_state := s\<rparr>, responses @ [response], effects @ pushed))
        | MembershipChange m \<Rightarrow>
            (let view = membership_view m;
                 s = ap_apply_membership app (ad_state a) view (o_index log_id);
                 pushed = ob_on_membership ob s view (o_index log_id)
             in (a\<lparr>ad_state := s, ad_last_membership := \<lparr>md_log_id = Some log_id, md_membership = m\<rparr>\<rparr>,
                 responses @ [ap_noop_response app], effects @ pushed)))"

definition adapter_apply ::
  "('s, 'c, 'r) AppStateMachine \<Rightarrow> ('s, 'c, 'r, 'e, 'w) StateMachineObserver \<Rightarrow>
   ('s, 'st, 'w) StateMachineAdapter \<Rightarrow> 'c Entry list \<Rightarrow> ('s, 'st, 'w) StateMachineAdapter \<times> 'r list" where
  "adapter_apply app ob a entries =
     (let (a, responses, effects) = foldl (apply_entry app ob) (a, [], []) entries
      in (a\<lparr>ad_world := ob_publish ob (ad_world a) effects\<rparr>, responses))"

section \<open>Snapshots\<close>

record 's SnapshotBuilder =
  sb_state :: 's
  sb_last_applied :: "OpenraftLogId option"
  sb_last_membership :: StoredMembership
  sb_counter :: u64

definition get_snapshot_builder :: "('s, 'st, 'w) StateMachineAdapter \<Rightarrow> ('s, 'st, 'w) StateMachineAdapter \<times> 's SnapshotBuilder" where
  "get_snapshot_builder a =
     (let counter = ad_snapshot_counter a + 1 in
      (a\<lparr>ad_snapshot_counter := counter\<rparr>,
       \<lparr>sb_state = ad_state a, sb_last_applied = ad_last_applied a, sb_last_membership = ad_last_membership a,
        sb_counter = counter\<rparr>))"

text \<open>Decimal printing.\<close>

fun dec :: "nat \<Rightarrow> string" where
  "dec n = (if n < 10 then [char_of (48 + n)] else dec (n div 10) @ [char_of (48 + n mod 10)])"

declare dec.simps [simp del]

definition snapshot_id :: "u64 \<Rightarrow> u64 \<Rightarrow> SnapshotId" where
  "snapshot_id last_index counter = ''snap-'' @ dec (unat last_index) @ ''-'' @ dec (unat counter)"

record Snapshot =
  sn_last_log_id :: "OpenraftLogId option"
  sn_last_membership :: StoredMembership
  sn_snapshot_id :: string
  sn_data :: bytes

definition build_snapshot ::
  "('s, 'c, 'r) AppStateMachine \<Rightarrow> MembershipCodec \<Rightarrow> 'st SnapshotOps \<Rightarrow> 'st \<Rightarrow> 's SnapshotBuilder \<Rightarrow> AdapterError + ('st \<times> Snapshot)" where
  "build_snapshot app mc so st b =
     (case ap_encode_snapshot app (sb_state b) of
        Inl err \<Rightarrow> Inl (StateError VerbWrite err)
      | Inr bs \<Rightarrow>
          let last_index = (case sb_last_applied b of Some i \<Rightarrow> o_index i | None \<Rightarrow> 0);
              sid = snapshot_id last_index (sb_counter b) in
          (case mc_to mc (sb_last_membership b) of
             Inl err \<Rightarrow> Inl (MembershipError VerbWrite err)
           | Inr membership_bytes \<Rightarrow>
               (case so_write so st \<lparr>sm_id = sid, sm_last_applied = map_option from_openraft_log_id (sb_last_applied b),
                                     sm_membership = membership_bytes\<rparr> bs of
                  Inl err \<Rightarrow> Inl (SnapshotError VerbWrite err)
                | Inr st \<Rightarrow>
                    Inr (st, \<lparr>sn_last_log_id = sb_last_applied b, sn_last_membership = sb_last_membership b,
                              sn_snapshot_id = sid, sn_data = bs\<rparr>))))"

definition install_snapshot ::
  "('s, 'c, 'r) AppStateMachine \<Rightarrow> ('s, 'c, 'r, 'e, 'w) StateMachineObserver \<Rightarrow> MembershipCodec \<Rightarrow> 'st SnapshotOps \<Rightarrow>
   ('s, 'st, 'w) StateMachineAdapter \<Rightarrow> Snapshot \<Rightarrow> AdapterError + ('s, 'st, 'w) StateMachineAdapter" where
  "install_snapshot app ob mc so a snap =
     (case ap_decode_snapshot app (sn_data snap) of
        Inl err \<Rightarrow> Inl (StateError VerbRead err)
      | Inr new_state \<Rightarrow>
          (case mc_to mc (sn_last_membership snap) of
             Inl err \<Rightarrow> Inl (MembershipError VerbWrite err)
           | Inr membership_bytes \<Rightarrow>
               let effects = ob_on_snapshot_loaded ob new_state LiveInstall in
               (case so_write so (ad_storage a)
                       \<lparr>sm_id = sn_snapshot_id snap, sm_last_applied = map_option from_openraft_log_id (sn_last_log_id snap),
                        sm_membership = membership_bytes\<rparr> (sn_data snap) of
                  Inl err \<Rightarrow> Inl (SnapshotError VerbWrite err)
                | Inr st \<Rightarrow>
                    Inr (a\<lparr>ad_storage := st, ad_state := new_state, ad_last_applied := sn_last_log_id snap,
                           ad_last_membership := sn_last_membership snap,
                           ad_world := ob_publish ob (ad_world a) effects\<rparr>))))"

definition get_current_snapshot ::
  "MembershipCodec \<Rightarrow> 'st SnapshotOps \<Rightarrow> ('s, 'st, 'w) StateMachineAdapter \<Rightarrow> AdapterError + Snapshot option" where
  "get_current_snapshot mc so a =
     (case so_current so (ad_storage a) of
        Inl err \<Rightarrow> Inl (SnapshotError VerbRead err)
      | Inr None \<Rightarrow> Inr None
      | Inr (Some (our_meta, data)) \<Rightarrow>
          (case mc_from mc (sm_membership our_meta) of
             Inl err \<Rightarrow> Inl (MembershipError VerbRead err)
           | Inr last_membership \<Rightarrow>
               Inr (Some \<lparr>sn_last_log_id = map_option to_openraft_log_id (sm_last_applied our_meta),
                          sn_last_membership = last_membership, sn_snapshot_id = sm_id our_meta, sn_data = data\<rparr>)))"

section \<open>Bookkeeping\<close>

text \<open>What a restart has to bring back: the state, the last applied log id and the membership.\<close>

definition bookkeeping :: "('s, 'st, 'w) StateMachineAdapter \<Rightarrow> 's \<times> OpenraftLogId option \<times> StoredMembership" where
  "bookkeeping a = (ad_state a, ad_last_applied a, ad_last_membership a)"

fun reduce_entry ::
  "('s, 'c, 'r) AppStateMachine \<Rightarrow> 's \<times> OpenraftLogId option \<times> StoredMembership \<Rightarrow> 'c Entry \<Rightarrow> 's \<times> OpenraftLogId option \<times> StoredMembership" where
  "reduce_entry app (s, la, lm) e =
     (case en_payload e of
        Blank \<Rightarrow> (s, Some (en_log_id e), lm)
      | Normal c \<Rightarrow> (fst (ap_apply app s c (o_index (en_log_id e))), Some (en_log_id e), lm)
      | MembershipChange m \<Rightarrow>
          (ap_apply_membership app s (membership_view m) (o_index (en_log_id e)), Some (en_log_id e),
           \<lparr>md_log_id = Some (en_log_id e), md_membership = m\<rparr>))"

lemma apply_entry_bookkeeping: "bookkeeping (fst (apply_entry app ob acc e)) = reduce_entry app (bookkeeping (fst acc)) e"
  by (cases acc) (auto simp: apply_entry_def bookkeeping_def Let_def split: EntryPayload.splits prod.splits)

lemma apply_entry_rest:
  "ad_storage (fst (apply_entry app ob acc e)) = ad_storage (fst acc)"
  "ad_world (fst (apply_entry app ob acc e)) = ad_world (fst acc)"
  "ad_snapshot_counter (fst (apply_entry app ob acc e)) = ad_snapshot_counter (fst acc)"
  by (cases acc, auto simp: apply_entry_def Let_def split: EntryPayload.splits prod.splits)+

lemma fold_entries:
  "bookkeeping (fst (foldl (apply_entry app ob) acc es)) = foldl (reduce_entry app) (bookkeeping (fst acc)) es"
  "ad_storage (fst (foldl (apply_entry app ob) acc es)) = ad_storage (fst acc)"
  by (induction es arbitrary: acc) (simp_all add: apply_entry_bookkeeping apply_entry_rest)

theorem adapter_apply_bookkeeping:
  "bookkeeping (fst (adapter_apply app ob a es)) = foldl (reduce_entry app) (bookkeeping a) es"
  "ad_storage (fst (adapter_apply app ob a es)) = ad_storage a"
  using fold_entries [of app ob "(a, [], [])" es]
  by (auto simp: adapter_apply_def bookkeeping_def split: prod.splits)

lemma builder_bookkeeping [simp]:
  "bookkeeping (fst (get_snapshot_builder a)) = bookkeeping a" "ad_storage (fst (get_snapshot_builder a)) = ad_storage a"
  "(sb_state (snd (get_snapshot_builder a)), sb_last_applied (snd (get_snapshot_builder a)), sb_last_membership (snd (get_snapshot_builder a))) =
   bookkeeping a"
  by (simp_all add: get_snapshot_builder_def bookkeeping_def Let_def)

section \<open>Snapshot identifiers\<close>

lemma dec_digit: "c \<in> set (dec n) \<Longrightarrow> between c 48 57"
proof (induction n rule: dec.induct)
  case (1 n)
  have digit: "between (char_of (48 + k)) 48 57" if "k < 10" for k :: nat using that by (simp add: between_def)
  show ?case using 1 digit [of n] digit [of "n mod 10"] by (auto simp: dec.simps [of n] split: if_splits)
qed

lemma dec_length: "n < 10 ^ k \<Longrightarrow> 0 < k \<Longrightarrow> length (dec n) \<le> k"
proof (induction k arbitrary: n)
  case (Suc k)
  show ?case
  proof (cases "n < 10")
    case True
    then show ?thesis by (simp add: dec.simps [of n])
  next
    case False
    then have "0 < k" using Suc.prems by (cases k) auto
    then have "length (dec (n div 10)) \<le> k" using Suc.IH [of "n div 10"] Suc.prems by (simp add: less_mult_imp_div_less mult.commute)
    then show ?thesis using False by (simp add: dec.simps [of n])
  qed
qed simp

lemma no_dots:
  assumes "CHR ''.'' \<notin> set s"
  shows "\<not> contains_str s ''..''"
  using assms by (induction s) (auto simp: strip_prefix_Some)

text \<open>The identifiers a node makes for its own snapshots are always accepted by the store.\<close>

theorem snapshot_id_valid: "validate_path_safe_id (snapshot_id i c) = Inr (snapshot_id i c)"
proof -
  have len: "length (dec (unat v)) \<le> 20" for v :: u64
  proof (rule dec_length)
    have "unat v < 2 ^ 64" by (rule order_less_le_trans [OF unsigned_less]) simp
    then show "unat v < 10 ^ 20" by simp
  qed simp
  have chars: "id_char x \<and> x \<noteq> CHR ''.''" if "x \<in> set (snapshot_id i c)" for x
  proof -
    have "between x 48 57 \<or> x \<in> set ''snap-''" using that dec_digit by (auto simp: snapshot_id_def)
    then show ?thesis
    proof
      assume "between x 48 57"
      moreover have "\<not> between (CHR ''.'') 48 57" by (simp add: between_def)
      ultimately show ?thesis by (auto simp: id_char_def)
    next
      have "list_all (\<lambda>x. id_char x \<and> x \<noteq> CHR ''.'') ''snap-''" by (simp add: id_char_def between_def)
      moreover assume "x \<in> set ''snap-''"
      ultimately show ?thesis unfolding list_all_iff by blast
    qed
  qed
  have "length (snapshot_id i c) \<le> ID_MAX_LEN" using len [of i] len [of c] by (simp add: snapshot_id_def ID_MAX_LEN_def)
  moreover have "\<not> contains_str (snapshot_id i c) ''..''" by (rule no_dots) (use chars in auto)
  moreover have "list_all id_char (snapshot_id i c)" using chars by (auto simp: list_all_iff)
  ultimately show ?thesis by (simp add: validate_path_safe_id_def snapshot_id_def)
qed

section \<open>What a snapshot store promises\<close>

text \<open>
  A store keeps an invariant and, for a snapshot it admits, shows after a successful write exactly
  what was written.
\<close>

locale snapshot_store =
  fixes so :: "'st SnapshotOps"
    and inv :: "'st \<Rightarrow> bool"
    and admits :: "'st \<Rightarrow> bytes SnapshotMeta \<Rightarrow> bool"
  assumes write_shows: "inv st \<Longrightarrow> admits st m \<Longrightarrow> so_write so st m data = Inr st' \<Longrightarrow>
    inv st' \<and> so_current so st' = Inr (Some (m, data))"
begin

lemma built_current:
  assumes "inv st" and "build_snapshot app mc so st b = Inr (st', snap)"
    and "\<And>m. sm_id m = sn_snapshot_id snap \<Longrightarrow> sm_last_applied m = map_option from_openraft_log_id (sb_last_applied b) \<Longrightarrow> admits st m"
  shows "\<exists>m bs. inv st' \<and> so_current so st' = Inr (Some (m, bs)) \<and> ap_encode_snapshot app (sb_state b) = Inr bs \<and>
    mc_to mc (sb_last_membership b) = Inr (sm_membership m) \<and> sm_last_applied m = map_option from_openraft_log_id (sb_last_applied b) \<and>
    sn_data snap = bs \<and> sn_last_log_id snap = sb_last_applied b \<and> sn_last_membership snap = sb_last_membership b"
proof -
  obtain bs mb where e: "ap_encode_snapshot app (sb_state b) = Inr bs" "mc_to mc (sb_last_membership b) = Inr mb"
    and w: "so_write so st \<lparr>sm_id = sn_snapshot_id snap, sm_last_applied = map_option from_openraft_log_id (sb_last_applied b), sm_membership = mb\<rparr> bs = Inr st'"
    and sn: "sn_data snap = bs" "sn_last_log_id snap = sb_last_applied b" "sn_last_membership snap = sb_last_membership b"
    using assms(2) by (auto simp: build_snapshot_def Let_def split: sum.splits)
  then show ?thesis using write_shows [OF assms(1) assms(3) w] by fastforce
qed

lemma installed_current:
  assumes "inv (ad_storage a)" and "install_snapshot app ob mc so a snap = Inr a'"
    and "\<And>m. sm_id m = sn_snapshot_id snap \<Longrightarrow> sm_last_applied m = map_option from_openraft_log_id (sn_last_log_id snap) \<Longrightarrow> admits (ad_storage a) m"
  shows "\<exists>m. inv (ad_storage a') \<and> so_current so (ad_storage a') = Inr (Some (m, sn_data snap)) \<and>
    mc_to mc (sn_last_membership snap) = Inr (sm_membership m) \<and> sm_last_applied m = map_option from_openraft_log_id (sn_last_log_id snap) \<and>
    ap_decode_snapshot app (sn_data snap) = Inr (ad_state a') \<and>
    ad_last_applied a' = sn_last_log_id snap \<and> ad_last_membership a' = sn_last_membership snap"
proof -
  obtain mb st where e: "ap_decode_snapshot app (sn_data snap) = Inr (ad_state a')" "mc_to mc (sn_last_membership snap) = Inr mb"
    and w: "so_write so (ad_storage a) \<lparr>sm_id = sn_snapshot_id snap, sm_last_applied = map_option from_openraft_log_id (sn_last_log_id snap), sm_membership = mb\<rparr>
        (sn_data snap) = Inr (ad_storage a')"
    and a': "ad_last_applied a' = sn_last_log_id snap" "ad_last_membership a' = sn_last_membership snap"
    using assms(2) by (auto simp: install_snapshot_def Let_def split: sum.splits)
  then show ?thesis using write_shows [OF assms(1) assms(3) w] by fastforce
qed

lemma open_current:
  assumes "so_current so st = Inr (Some (m, bs))" and "ap_decode_snapshot app bs = Inr s" and "mc_from mc (sm_membership m) = Inr lm"
  shows "\<exists>a. adapter_open app ob mc so st w = Inr a \<and> ad_storage a = st \<and>
    bookkeeping a = (s, map_option to_openraft_log_id (sm_last_applied m), lm)"
  using assms by (simp add: adapter_open_def restore_from_snapshot_def adapter_new_def bookkeeping_def)

end

definition mem_ops :: "bytes SnapshotStoreState SnapshotOps" where
  "mem_ops = \<lparr>so_write = snap_write, so_current = snap_current\<rparr>"

definition fs_ops :: "SnapCodec \<Rightarrow> (string \<Rightarrow> bool) \<Rightarrow> SnapDir SnapshotOps" where
  "fs_ops c removable =
     \<lparr>so_write = \<lambda>d m data. map_sum id (\<lambda>ss. snap_steps ss d) (fs_snap_write c removable d m data),
      so_current = fs_snap_current c\<rparr>"

interpretation mem_snap: snapshot_store mem_ops "\<lambda>_. True" "\<lambda>_ _. True"
  by unfold_locales (auto simp: mem_ops_def snap_write_def snap_current_def)

lemma fs_ops_write:
  assumes "metas_ok c \<and> snap_reach c d" and "fresh_id c d m" and "so_write (fs_ops c rm) d m data = Inr d'"
  shows "(metas_ok c \<and> snap_reach c d') \<and> so_current (fs_ops c rm) d' = Inr (Some (m, data))"
proof -
  obtain ss where w: "fs_snap_write c rm d m data = Inr ss" "d' = snap_steps ss d"
    using assms(3) by (cases "fs_snap_write c rm d m data") (auto simp: fs_ops_def)
  obtain cur where cur: "fs_snap_current c d = Inr cur" "cur = None \<longrightarrow> hm_get d current_path = None"
      "\<forall>m d0. cur = Some (m, d0) \<longrightarrow> hm_get d current_path = Some (str_bytes (sm_id m))"
    using reach_current assms(1) by blast
  have "fs_snap_current c d' = Inr (Some (m, data))"
    using fs_snap_write_shows(2) [OF cur(1) _ assms(2) _ _ w(1)] cur assms(1) w(2) by simp
  then show ?thesis using snap_written [OF _ assms(2) w(1)] assms(1) w(2) by (simp add: fs_ops_def)
qed

interpretation fs_snap: snapshot_store "fs_ops c rm" "\<lambda>d. metas_ok c \<and> snap_reach c d" "fresh_id c" for c rm
  by unfold_locales (rule fs_ops_write)

section \<open>Properties\<close>

lemma le_two: "le_nat (le_digits 2 (unat (v :: u16))) = unat v"
proof -
  have "unat v < 2 ^ 16" by (rule order_less_le_trans [OF unsigned_less]) simp
  then show ?thesis by (simp add: le_nat_digits)
qed

lemma magic_length [simp]: "length CODEC_MAGIC = 4" "HEADER_LEN = 6"
  by (simp_all add: CODEC_MAGIC_def HEADER_LEN_def)

lemma peek_framed: "peek_version (CODEC_MAGIC @ u16_to_le v @ body) = Inr v"
proof -
  obtain a b where ab: "u16_to_le v = [a, b]"
    by (simp add: u16_to_le_def numeral_2_eq_2)
  moreover have "u16_from_le (u16_to_le v) = v" by (simp add: u16_from_le_def u16_to_le_def le_two)
  ultimately show ?thesis by (simp add: peek_version_def CODEC_MAGIC_def)
qed

text \<open>
  A framed snapshot decodes to what was encoded when the expected version is the one it
  carries, is refused with its version under any other, and is refused as truncated when it is
  shorter than the header.
\<close>

theorem codec_round_trip:
  assumes "to_bytes v = Inr body" and "from_bytes body = Inr v"
  shows "\<exists>bs. codec_encode to_bytes ver v = Inr bs \<and> peek_version bs = Inr ver \<and> codec_decode from_bytes bs ver = Inr v \<and>
    (\<forall>other. other \<noteq> ver \<longrightarrow> codec_decode from_bytes bs other = Inl (UnsupportedVersion ver other)) \<and>
    (\<forall>k < HEADER_LEN. codec_decode from_bytes (take k bs) ver = Inl (Truncated k HEADER_LEN))"
proof -
  let ?bs = "CODEC_MAGIC @ u16_to_le ver @ body"
  have len: "length (u16_to_le ver) = 2" by (simp add: u16_to_le_def)
  have drop: "drop HEADER_LEN ?bs = body" using len by simp
  have short: "codec_decode from_bytes (take k ?bs) ver = Inl (Truncated k HEADER_LEN)" if "k < HEADER_LEN" for k
    using that len by (auto simp: codec_decode_def peek_version_def min_def)
  have enc: "codec_encode to_bytes ver v = Inr ?bs" using assms(1) by (simp add: codec_encode_def)
  have decode: "codec_decode from_bytes ?bs w = (if w = ver then Inr v else Inl (UnsupportedVersion ver w))" for w
    unfolding codec_decode_def peek_framed drop using assms(2) by simp
  show ?thesis using enc peek_framed [of ver body] decode short by (intro exI [of _ ?bs]) simp
qed

text \<open>
  C19: A node that builds a snapshot and restarts from its storage, at once or after any further
  entries, comes back with the state, the last applied log id and the membership of the moment of
  the snapshot; applying the entries after it again leads to exactly the bookkeeping of a node that
  never stopped.
\<close>

theorem restart_recovers:
  assumes "metas_ok c" and "snap_reach c (ad_storage a)"
    and dec: "\<And>s bs. ap_encode_snapshot app s = Inr bs \<Longrightarrow> ap_decode_snapshot app bs = Inr s"
    and mem: "\<And>m b. mc_to mc m = Inr b \<Longrightarrow> mc_from mc b = Inr m"
    and b: "get_snapshot_builder a = (a1, b)" and built: "build_snapshot app mc (fs_ops c rm) (ad_storage a1) b = Inr (st, snap)"
    and new: "\<And>m d. fs_snap_current c (ad_storage a) = Inr (Some (m, d)) \<Longrightarrow> sm_id m \<noteq> sn_snapshot_id snap"
  shows "\<exists>a2. adapter_open app ob mc (fs_ops c rm) st w = Inr a2 \<and> bookkeeping a2 = bookkeeping a \<and>
    (\<forall>es. bookkeeping (fst (adapter_apply app ob a2 es)) = bookkeeping (fst (adapter_apply app ob a es)))"
proof -
  have a1: "ad_storage a1 = ad_storage a" "(sb_state b, sb_last_applied b, sb_last_membership b) = bookkeeping a"
    using b builder_bookkeeping [of a] by simp_all
  have "fresh_id c (ad_storage a1) m" if "sm_id m = sn_snapshot_id snap" for m
    using new that a1(1) by (auto simp: fresh_id_def)
  then obtain m bs where cur: "so_current (fs_ops c rm) st = Inr (Some (m, bs))" "ap_encode_snapshot app (sb_state b) = Inr bs"
      "mc_to mc (sb_last_membership b) = Inr (sm_membership m)" "sm_last_applied m = map_option from_openraft_log_id (sb_last_applied b)"
    using fs_snap.built_current [OF _ built] assms(1,2) a1(1) by auto
  obtain a2 where "adapter_open app ob mc (fs_ops c rm) st w = Inr a2" "bookkeeping a2 = bookkeeping a"
    using fs_snap.open_current [OF cur(1) dec [OF cur(2)] mem [OF cur(3)], of ob w] cur(4) a1(2) by auto
  then show ?thesis using adapter_apply_bookkeeping(1) by metis
qed

text \<open>An application that keeps the bytes it is sent, with no effects.\<close>

definition echo_app :: "(bytes, u8, bytes) AppStateMachine" where
  "echo_app =
     \<lparr>ap_initial_state = [], ap_apply = (\<lambda>s b i. (s @ [b], s)), ap_noop_response = [],
      ap_apply_membership = (\<lambda>s v i. s), ap_encode_snapshot = Inr, ap_decode_snapshot = Inr\<rparr>"

definition quiet :: "(bytes, u8, bytes, unit, unit) StateMachineObserver" where
  "quiet =
     \<lparr>ob_on_command = (\<lambda>s c r i. (r, [])), ob_on_membership = (\<lambda>s v i. []), ob_on_snapshot_loaded = (\<lambda>s l. []),
      ob_publish = (\<lambda>w es. w)\<rparr>"

definition sole_membership :: MembershipCodec where
  "sole_membership =
     \<lparr>mc_to = (\<lambda>m. if m = default_membership then Inr [] else Inl ''unsupported''), mc_from = (\<lambda>b. Inr default_membership)\<rparr>"

definition echo_entry :: "u64 \<Rightarrow> u8 \<Rightarrow> u8 Entry" where
  "echo_entry i b = \<lparr>en_log_id = \<lparr>o_leader_term = 1, o_index = i\<rparr>, en_payload = Normal b\<rparr>"

definition echo_node :: "(bytes, SnapDir, unit) StateMachineAdapter" where
  "echo_node = fst (adapter_apply echo_app quiet (adapter_new echo_app [] ()) [echo_entry 1 7, echo_entry 2 8])"

lemma echo_bookkeeping: "bookkeeping echo_node = ([7, 8], Some \<lparr>o_leader_term = 1, o_index = 2\<rparr>, default_membership)" "ad_storage echo_node = []"
  unfolding echo_node_def adapter_apply_bookkeeping
  by (simp_all add: bookkeeping_def adapter_new_def echo_app_def echo_entry_def)

lemma echo_write:
  assumes "validate_path_safe_id i = Inr i"
  shows "\<exists>d. so_write (fs_ops plain_meta (\<lambda>_. True)) [] \<lparr>sm_id = i, sm_last_applied = la, sm_membership = mb\<rparr> bs = Inr d"
  using assms by (simp add: fs_ops_def fs_snap_write_def plain_meta_def Let_def)

lemma echo_built:
  assumes "sb_last_membership b = default_membership"
  obtains st snap where "build_snapshot echo_app sole_membership (fs_ops plain_meta (\<lambda>_. True)) [] b = Inr (st, snap)"
    "so_current (fs_ops plain_meta (\<lambda>_. True)) st =
       Inr (Some (\<lparr>sm_id = sn_snapshot_id snap, sm_last_applied = map_option from_openraft_log_id (sb_last_applied b), sm_membership = []\<rparr>, sb_state b))"
    "validate_path_safe_id (sn_snapshot_id snap) = Inr (sn_snapshot_id snap)" "sn_data snap = sb_state b"
proof -
  let ?so = "fs_ops plain_meta (\<lambda>_. True)" and ?i = "snapshot_id (case sb_last_applied b of Some i \<Rightarrow> o_index i | None \<Rightarrow> 0) (sb_counter b)"
  let ?m = "\<lparr>sm_id = ?i, sm_last_applied = map_option from_openraft_log_id (sb_last_applied b), sm_membership = []\<rparr>"
  obtain d where d: "so_write ?so [] ?m (sb_state b) = Inr d" using echo_write [OF snapshot_id_valid] by blast
  have "so_current ?so d = Inr (Some (?m, sb_state b))"
    using fs_snap.write_shows [OF _ _ d] plain_meta_ok snap_empty by (simp add: fresh_id_def fs_snap_current_def)
  then show ?thesis using that d assms snapshot_id_valid
    by (simp add: build_snapshot_def echo_app_def sole_membership_def)
qed

theorem restart_recovers_witness:
  "\<exists>st snap a2. build_snapshot echo_app sole_membership (fs_ops plain_meta (\<lambda>_. True)) [] (snd (get_snapshot_builder echo_node)) = Inr (st, snap) \<and>
     adapter_open echo_app quiet sole_membership (fs_ops plain_meta (\<lambda>_. True)) st () = Inr a2 \<and>
     bookkeeping a2 = ([7, 8], Some \<lparr>o_leader_term = 1, o_index = 2\<rparr>, default_membership) \<and>
     ad_state (fst (adapter_apply echo_app quiet a2 [echo_entry 3 9])) = [7, 8, 9]"
proof -
  let ?so = "fs_ops plain_meta (\<lambda>_. True)"
  obtain a1 b where g: "get_snapshot_builder echo_node = (a1, b)" by fastforce
  have b: "sb_state b = [7, 8]" "sb_last_membership b = default_membership" "ad_storage a1 = []"
    using builder_bookkeeping(2,3) [of echo_node] g echo_bookkeeping by simp_all
  obtain st snap where built: "build_snapshot echo_app sole_membership ?so [] b = Inr (st, snap)"
    using echo_built [OF b(2)] by metis
  have dec: "ap_encode_snapshot echo_app s = Inr bs \<Longrightarrow> ap_decode_snapshot echo_app bs = Inr s" for s bs by (simp add: echo_app_def)
  have mem: "mc_to sole_membership m = Inr x \<Longrightarrow> mc_from sole_membership x = Inr m" for m x
    by (simp add: sole_membership_def split: if_splits)
  have "snap_reach plain_meta (ad_storage echo_node)" by (simp add: echo_bookkeeping snap_empty)
  from restart_recovers [OF plain_meta_ok this dec mem g built [folded b(3)], of quiet "()"]
  obtain a2 where a2: "adapter_open echo_app quiet sole_membership ?so st () = Inr a2" "bookkeeping a2 = bookkeeping echo_node"
      "\<And>es. bookkeeping (fst (adapter_apply echo_app quiet a2 es)) = bookkeeping (fst (adapter_apply echo_app quiet echo_node es))"
    by (auto simp: echo_bookkeeping fs_snap_current_def)
  have "bookkeeping (fst (adapter_apply echo_app quiet a2 [echo_entry 3 9])) =
      ([7, 8, 9], Some \<lparr>o_leader_term = 1, o_index = 3\<rparr>, default_membership)"
    unfolding adapter_apply_bookkeeping a2(2) echo_bookkeeping by (simp add: echo_app_def echo_entry_def)
  then show ?thesis using a2(1,2) built g echo_bookkeeping(1) by (auto simp: bookkeeping_def)
qed

text \<open>
  C20: A follower that installs the snapshot its leader serves takes over exactly the bookkeeping the
  leader's storage holds, and a restart of the follower brings the same bookkeeping back.
\<close>

theorem snapshot_transfer:
  assumes "metas_ok c" and "snap_reach c (ad_storage f)"
    and mem: "\<And>m b. mc_to mc m = Inr b \<Longrightarrow> mc_from mc b = Inr m"
    and served: "get_current_snapshot mc so l = Inr (Some snap)"
    and installed: "install_snapshot app ob mc (fs_ops c rm) f snap = Inr f'"
    and new: "\<And>m d. fs_snap_current c (ad_storage f) = Inr (Some (m, d)) \<Longrightarrow> sm_id m \<noteq> sn_snapshot_id snap"
  shows "\<exists>l2 f2. adapter_open app ob mc so (ad_storage l) w = Inr l2 \<and> bookkeeping f' = bookkeeping l2 \<and>
    adapter_open app ob mc (fs_ops c rm) (ad_storage f') w' = Inr f2 \<and> bookkeeping f2 = bookkeeping f'"
proof -
  have "fresh_id c (ad_storage f) m" if "sm_id m = sn_snapshot_id snap" for m using new that by (auto simp: fresh_id_def)
  then obtain m where cur: "so_current (fs_ops c rm) (ad_storage f') = Inr (Some (m, sn_data snap))"
      "mc_to mc (sn_last_membership snap) = Inr (sm_membership m)" "sm_last_applied m = map_option from_openraft_log_id (sn_last_log_id snap)"
      "ap_decode_snapshot app (sn_data snap) = Inr (ad_state f')"
      "ad_last_applied f' = sn_last_log_id snap" "ad_last_membership f' = sn_last_membership snap"
    using fs_snap.installed_current [OF _ installed] assms(1,2) by auto
  have f': "bookkeeping f' = (ad_state f', sn_last_log_id snap, sn_last_membership snap)" using cur(5,6) by (simp add: bookkeeping_def)
  obtain f2 where f2: "adapter_open app ob mc (fs_ops c rm) (ad_storage f') w' = Inr f2" "bookkeeping f2 = bookkeeping f'"
    using fs_snap.open_current [OF cur(1) cur(4) mem [OF cur(2)], of ob w'] cur(3) f' by auto
  obtain lm ld where s: "so_current so (ad_storage l) = Inr (Some (lm, ld))" "mc_from mc (sm_membership lm) = Inr (sn_last_membership snap)"
      "sn_last_log_id snap = map_option to_openraft_log_id (sm_last_applied lm)" "sn_data snap = ld"
    using served by (auto simp: get_current_snapshot_def split: sum.splits option.splits)
  then have "\<exists>l2. adapter_open app ob mc so (ad_storage l) w = Inr l2 \<and> bookkeeping l2 = bookkeeping f'"
    using cur(4) f' by (simp add: adapter_open_def restore_from_snapshot_def adapter_new_def bookkeeping_def)
  then show ?thesis using f2 by metis
qed

theorem snapshot_transfer_witness:
  "\<exists>st snap f'. get_current_snapshot sole_membership (fs_ops plain_meta (\<lambda>_. True)) (echo_node\<lparr>ad_storage := st\<rparr>) = Inr (Some snap) \<and>
     install_snapshot echo_app quiet sole_membership (fs_ops plain_meta (\<lambda>_. True)) (adapter_new echo_app [] ()) snap = Inr f' \<and>
     bookkeeping f' = ([7, 8], Some \<lparr>o_leader_term = 1, o_index = 2\<rparr>, default_membership)"
proof -
  let ?so = "fs_ops plain_meta (\<lambda>_. True)" and ?b = "snd (get_snapshot_builder echo_node)" and ?f = "adapter_new echo_app [] () :: (bytes, SnapDir, unit) StateMachineAdapter"
  have b: "sb_last_membership ?b = default_membership" "sb_state ?b = [7, 8]" "sb_last_applied ?b = Some \<lparr>o_leader_term = 1, o_index = 2\<rparr>"
    using builder_bookkeeping(3) [of echo_node] unfolding echo_bookkeeping(1) by (simp_all del: builder_bookkeeping)
  obtain st and sn :: Snapshot where st: "so_current ?so st = Inr (Some (\<lparr>sm_id = sn_snapshot_id sn,
      sm_last_applied = map_option from_openraft_log_id (sb_last_applied ?b), sm_membership = []\<rparr>, sb_state ?b))"
      "validate_path_safe_id (sn_snapshot_id sn) = Inr (sn_snapshot_id sn)"
    by (rule echo_built [OF b(1)]) blast
  let ?l = "echo_node\<lparr>ad_storage := st\<rparr>"
  let ?sn = "\<lparr>sn_last_log_id = Some \<lparr>o_leader_term = 1, o_index = 2\<rparr>, sn_last_membership = default_membership,
      sn_snapshot_id = sn_snapshot_id sn, sn_data = [7, 8]\<rparr>"
  have served: "get_current_snapshot sole_membership ?so ?l = Inr (Some ?sn)"
    using st(1) b by (simp add: get_current_snapshot_def sole_membership_def)
  obtain d where "so_write ?so [] \<lparr>sm_id = sn_snapshot_id sn, sm_last_applied = Some (from_openraft_log_id \<lparr>o_leader_term = 1, o_index = 2\<rparr>),
      sm_membership = []\<rparr> [7, 8] = Inr d" using echo_write [OF st(2)] by blast
  then obtain f' where inst: "install_snapshot echo_app quiet sole_membership ?so ?f ?sn = Inr f'"
    by (simp add: install_snapshot_def echo_app_def sole_membership_def adapter_new_def)
  have mem: "mc_to sole_membership m = Inr x \<Longrightarrow> mc_from sole_membership x = Inr m" for m x
    by (simp add: sole_membership_def split: if_splits)
  have reach: "snap_reach plain_meta (ad_storage ?f)" by (simp add: adapter_new_def snap_empty)
  from snapshot_transfer [OF plain_meta_ok reach mem served inst, of "()" "()"]
  obtain l2 where l2: "adapter_open echo_app quiet sole_membership ?so st () = Inr l2" "bookkeeping f' = bookkeeping l2"
    by (auto simp: adapter_new_def fs_snap_current_def)
  have "bookkeeping l2 = ([7, 8], Some \<lparr>o_leader_term = 1, o_index = 2\<rparr>, default_membership)"
    using fs_snap.open_current [OF st(1), of echo_app "[7, 8]" sole_membership default_membership quiet "()"] l2(1) b
    by (auto simp: echo_app_def sole_membership_def)
  then show ?thesis using served inst l2(2) by metis
qed

end
