(* ===== verification/Log_Adapter.thy ===== *)
theory Log_Adapter
  imports Fs_Laws Sm_Adapter
begin

text \<open>
  The log-storage adapter of \<^verbatim>\<open>fluree-raft-core/src/log_adapter.rs\<close> over any log store: entries of
  the engine are serialized on the way in and deserialized on the way out, and every error of the
  store becomes an error of the engine with its verb and subject.  The serialization of an entry is
  a parameter.  The conversions themselves are in \<open>Raft_Storage\<close>.
\<close>

section \<open>Operations\<close>

datatype ErrorSubject = SubjectLogs | SubjectVote

datatype ErrorSource = SourceStorage StorageError | SourceCodec string | SourceMessage string

datatype LogError = IoErr ErrorVerb ErrorSubject ErrorSource

definition read_log_err :: "ErrorSource \<Rightarrow> LogError" where
  "read_log_err source = IoErr VerbRead SubjectLogs source"

definition write_log_err :: "ErrorSource \<Rightarrow> LogError" where
  "write_log_err source = IoErr VerbWrite SubjectLogs source"

definition vote_err :: "ErrorVerb \<Rightarrow> ErrorSource \<Rightarrow> LogError" where
  "vote_err verb source = IoErr verb SubjectVote source"

record 'c EntryCodec =
  ec_serialize :: "'c Entry \<Rightarrow> string + u8 list"
  ec_deserialize :: "u8 list \<Rightarrow> string + 'c Entry"

fun deserialize_all :: "'c EntryCodec \<Rightarrow> LogEntry list \<Rightarrow> LogError + 'c Entry list" where
  "deserialize_all ec [] = Inr []"
| "deserialize_all ec (raw_entry # raw) =
     (case ec_deserialize ec (le_payload raw_entry) of
        Inl err \<Rightarrow> Inl (read_log_err (SourceCodec err))
      | Inr e \<Rightarrow> (case deserialize_all ec raw of Inl err \<Rightarrow> Inl err | Inr es \<Rightarrow> Inr (e # es)))"

definition try_get_log_entries :: "'s LogStore \<Rightarrow> 'c EntryCodec \<Rightarrow> 's \<Rightarrow> Bound \<Rightarrow> Bound \<Rightarrow> LogError + 'c Entry list" where
  "try_get_log_entries st ec s lo hi =
     (let (start, end') = resolve_range lo hi in
      case st_read_range st s start end' of
        Inl err \<Rightarrow> Inl (read_log_err (SourceStorage err))
      | Inr raw \<Rightarrow> deserialize_all ec raw)"

definition get_log_state :: "'s LogStore \<Rightarrow> 's \<Rightarrow> LogError + OpenraftLogState" where
  "get_log_state st s = Inr (to_openraft_log_state (st_log_state st s))"

definition adapter_save_vote :: "'s LogStore \<Rightarrow> 's \<Rightarrow> OpenraftVote \<Rightarrow> LogError + 's" where
  "adapter_save_vote st s vote =
     (case from_openraft_vote vote of
        None \<Rightarrow> Inl (vote_err VerbWrite (SourceMessage ''openraft attempted to save a vote with no voted_for''))
      | Some ours \<Rightarrow> (case st_save_vote st s ours of Inl err \<Rightarrow> Inl (vote_err VerbWrite (SourceStorage err)) | Inr s' \<Rightarrow> Inr s'))"

definition adapter_read_vote :: "'s LogStore \<Rightarrow> 's \<Rightarrow> LogError + OpenraftVote option" where
  "adapter_read_vote st s =
     (case st_read_vote st s of Inl err \<Rightarrow> Inl (vote_err VerbRead (SourceStorage err)) | Inr ours \<Rightarrow> Inr (map_option to_openraft_vote ours))"

definition adapter_save_committed :: "'s LogStore \<Rightarrow> 's \<Rightarrow> OpenraftLogId option \<Rightarrow> LogError + 's" where
  "adapter_save_committed st s committed =
     (case st_save_committed st s (map_option from_openraft_log_id committed) of
        Inl err \<Rightarrow> Inl (write_log_err (SourceStorage err)) | Inr s' \<Rightarrow> Inr s')"

definition adapter_read_committed :: "'s LogStore \<Rightarrow> 's \<Rightarrow> LogError + OpenraftLogId option" where
  "adapter_read_committed st s = Inr (map_option to_openraft_log_id (st_read_committed st s))"

fun serialize_all :: "'c EntryCodec \<Rightarrow> 'c Entry list \<Rightarrow> LogError + LogEntry list" where
  "serialize_all ec [] = Inr []"
| "serialize_all ec (entry # rest) =
     (case ec_serialize ec entry of
        Inl err \<Rightarrow> Inl (write_log_err (SourceCodec err))
      | Inr payload \<Rightarrow>
          (case serialize_all ec rest of
             Inl err \<Rightarrow> Inl err
           | Inr ours \<Rightarrow> Inr (\<lparr>le_log_id = from_openraft_log_id (en_log_id entry), le_payload = payload\<rparr> # ours)))"

text \<open>The result, and what the flush callback is told: nothing when the serialization fails.\<close>

definition adapter_append ::
  "'s LogStore \<Rightarrow> 'c EntryCodec \<Rightarrow> 's \<Rightarrow> 'c Entry list \<Rightarrow> (LogError + 's) \<times> (StorageError + unit) option" where
  "adapter_append st ec s es =
     (case serialize_all ec es of
        Inl err \<Rightarrow> (Inl err, None)
      | Inr ours \<Rightarrow>
          (case st_append st s ours of
             Inr s' \<Rightarrow> (Inr s', Some (Inr ()))
           | Inl err \<Rightarrow> (Inl (write_log_err (SourceStorage err)), Some (Inl err))))"

definition adapter_truncate :: "'s LogStore \<Rightarrow> 's \<Rightarrow> OpenraftLogId \<Rightarrow> LogError + 's" where
  "adapter_truncate st s log_id =
     (case st_truncate_from st s (o_index log_id) of Inl err \<Rightarrow> Inl (write_log_err (SourceStorage err)) | Inr s' \<Rightarrow> Inr s')"

definition adapter_purge :: "'s LogStore \<Rightarrow> 's \<Rightarrow> OpenraftLogId \<Rightarrow> LogError + 's" where
  "adapter_purge st s log_id =
     (case st_purge_through st s (from_openraft_log_id log_id) of
        Inl err \<Rightarrow> Inl (write_log_err (SourceStorage err)) | Inr s' \<Rightarrow> Inr s')"

section \<open>Entries on the way in and out\<close>

text \<open>A stored entry carries the log id and the serialized form of an entry of the engine.\<close>

definition stores_entry :: "'c EntryCodec \<Rightarrow> LogEntry \<Rightarrow> 'c Entry \<Rightarrow> bool" where
  "stores_entry ec l e \<longleftrightarrow> le_log_id l = from_openraft_log_id (en_log_id e) \<and>
     ec_serialize ec e = Inr (le_payload l) \<and> ec_deserialize ec (le_payload l) = Inr e"

abbreviation stores_log :: "'c EntryCodec \<Rightarrow> LogEntry list \<Rightarrow> 'c Entry list \<Rightarrow> bool" where
  "stores_log ec \<equiv> list_all2 (stores_entry ec)"

definition codec_ok :: "'c EntryCodec \<Rightarrow> bool" where
  "codec_ok ec \<longleftrightarrow> (\<forall>e bs. ec_serialize ec e = Inr bs \<longrightarrow> ec_deserialize ec bs = Inr e)"

lemma serialize_stores: "codec_ok ec \<Longrightarrow> serialize_all ec es = Inr L \<Longrightarrow> stores_log ec L es"
  by (induction es arbitrary: L) (auto simp: stores_entry_def codec_ok_def split: sum.splits)

lemma deserialize_stores: "stores_log ec L es \<Longrightarrow> deserialize_all ec L = Inr es"
  by (induction L es rule: list_all2_induct) (simp_all add: stores_entry_def)

lemma stores_filter:
  "stores_log ec L es \<Longrightarrow> stores_log ec (filter (\<lambda>l. P (idx l)) L) (filter (\<lambda>e. P (o_index (en_log_id e))) es)"
  by (induction L es rule: list_all2_induct) (auto simp: stores_entry_def from_openraft_log_id_def)

lemma stores_last: "stores_log ec L es \<Longrightarrow> es \<noteq> [] \<Longrightarrow> L \<noteq> [] \<and> to_openraft_log_id (le_log_id (last L)) = en_log_id (last es)"
  by (induction L es rule: list_all2_induct) (auto simp: stores_entry_def)

text \<open>The indices a pair of range bounds stands for.\<close>

fun above :: "Bound \<Rightarrow> u64 \<Rightarrow> bool" where
  "above (Included n) i = (n \<le> i)"
| "above (Excluded n) i = (n < i)"
| "above Unbounded i = True"

fun below :: "Bound \<Rightarrow> u64 \<Rightarrow> bool" where
  "below (Included n) i = (i \<le> n)"
| "below (Excluded n) i = (i < n)"
| "below Unbounded i = True"

definition in_bounds :: "Bound \<Rightarrow> Bound \<Rightarrow> u64 \<Rightarrow> bool" where
  "in_bounds lo hi i \<longleftrightarrow> above lo i \<and> below hi i"

lemma saturating_succ:
  fixes n i :: u64
  assumes "i < - 1"
  shows "saturating_add n 1 \<le> i \<longleftrightarrow> n < i" "i < saturating_add n 1 \<longleftrightarrow> i \<le> n"
proof -
  have "saturating_add n 1 = (if n = - 1 then - 1 else n + 1)"
    by (auto simp: saturating_add_def not_le dest: inc_less_eq_triv_imp [OF less_imp_le])
  then show "saturating_add n 1 \<le> i \<longleftrightarrow> n < i" "i < saturating_add n 1 \<longleftrightarrow> i \<le> n"
    using assms inc_less_eq_iff [of n i] by auto
qed

lemma resolve_in_bounds:
  assumes "i < - 1"
  shows "fst (resolve_range lo hi) \<le> i \<and> i < snd (resolve_range lo hi) \<longleftrightarrow> in_bounds lo hi i"
  using saturating_succ [OF assms] assms by (auto simp: resolve_range_def in_bounds_def split: Bound.splits)

text \<open>What the engine sees of any store that keeps the promises of a log store.\<close>

context raft_log_store
begin

lemma engine_reads:
  assumes "holds s a" and "stores_log ec (sp_log a) es" and "\<forall>l \<in> set (sp_log a). idx l < - 1"
  shows "try_get_log_entries st ec s lo hi = Inr (filter (\<lambda>e. in_bounds lo hi (o_index (en_log_id e))) es)"
    "es \<noteq> [] \<Longrightarrow> map_sum id o_last_log_id (get_log_state st s) = Inr (Some (en_log_id (last es)))"
proof -
  have "filter (\<lambda>l. fst (resolve_range lo hi) \<le> idx l \<and> idx l < snd (resolve_range lo hi)) (sp_log a) = filter (\<lambda>l. in_bounds lo hi (idx l)) (sp_log a)"
    using assms(3) by (intro filter_cong) (simp_all add: resolve_in_bounds)
  then have "st_read_range st s (fst (resolve_range lo hi)) (snd (resolve_range lo hi)) = Inr (filter (\<lambda>l. in_bounds lo hi (idx l)) (sp_log a))"
    using range_holds [OF assms(1)] by simp
  then show "try_get_log_entries st ec s lo hi = Inr (filter (\<lambda>e. in_bounds lo hi (o_index (en_log_id e))) es)"
    using deserialize_stores [OF stores_filter [OF assms(2), of "in_bounds lo hi"]]
    by (simp add: try_get_log_entries_def case_prod_beta)
  show "map_sum id o_last_log_id (get_log_state st s) = Inr (Some (en_log_id (last es)))" if "es \<noteq> []"
    using stores_last [OF assms(2) that] state_holds [OF assms(1)]
    by (simp add: get_log_state_def to_openraft_log_state_def spec_state_def Let_def)
qed

lemma engine_appends:
  assumes "holds s a" and "stores_log ec (sp_log a) old" and "codec_ok ec" and "serialize_all ec es = Inr L" and "keeps_contract a (OpAppend L)"
  shows "\<exists>s'. adapter_append st ec s es = (Inr s', Some (Inr ())) \<and> holds s' (spec_op a (OpAppend L)) \<and>
    stores_log ec (sp_log (spec_op a (OpAppend L))) (old @ es)"
proof -
  obtain s' where "st_append st s L = Inr s'" "holds s' (spec_op a (OpAppend L))" using op_holds [OF assms(1,5)] by auto
  then show ?thesis using assms(4) serialize_stores [OF assms(3,4)] list_all2_appendI [OF assms(2)]
    by (simp add: adapter_append_def)
qed

end

lemma fs_holds_below:
  assumes "fs_holds x sd a"
  shows "\<forall>l \<in> set (sp_log a). idx l < - 1"
proof -
  obtain ps where "rep x (fst sd) (snd sd) ps" "sp_log a = logged (cutoff (fst sd)) ps" using assms by (auto simp: fs_holds_def)
  then show ?thesis using chained_below_max [OF repD(1)] by (auto simp: logged_def)
qed

text \<open>A vote of the engine that the store saved is the vote it reads back, and the log is untouched.\<close>

lemma vote_read_back:
  assumes "from_openraft_vote vote = Some v" and "x_to_vote x v = Inr bs" and "x_from_vote x bs = Inr v" and "fs_holds x sd a"
  shows "\<exists>sd'. adapter_save_vote (fs_store x) sd vote = Inr sd' \<and> fs_holds x sd' a \<and>
    adapter_read_vote (fs_store x) sd' = Inr (Some (to_openraft_vote v))"
proof -
  obtain s d where sd: "sd = (s, d)" by (cases sd)
  have "rep x s (exec_step (PutVote bs) d) ps = rep x s d ps" for ps by (simp add: rep_def purged_ok_def)
  then have "fs_holds x (s, exec_step (PutVote bs) d) a" using assms(4) by (simp add: fs_holds_def sd)
  then show ?thesis using assms(1-3)
    by (simp add: sd adapter_save_vote_def adapter_read_vote_def fs_store_def finished_def fs_save_vote_def fs_read_vote_def)
qed

section \<open>Properties\<close>

text \<open>
  C24: over the filesystem store, an append by the engine whose entries serialize and continue the
  log as the caller's contract asks succeeds and the flush callback is told so; from then on a read
  of any range, with inclusive, exclusive or absent bounds, gives back exactly the engine's entries
  whose index lies within these bounds, the earlier ones and the new ones, in order, and the log
  state names the last of them.
\<close>

theorem engine_entries_round_trip:
  assumes "fs_holds x sd a" and "stores_log ec (sp_log a) old" and "codec_ok ec"
    and "serialize_all ec es = Inr L" and "keeps_contract a (OpAppend L)" and "old @ es \<noteq> []"
  shows "\<exists>sd'. adapter_append (fs_store x) ec sd es = (Inr sd', Some (Inr ())) \<and>
    (\<forall>lo hi. try_get_log_entries (fs_store x) ec sd' lo hi =
       Inr (filter (\<lambda>e. in_bounds lo hi (o_index (en_log_id e))) (old @ es))) \<and>
    map_sum id o_last_log_id (get_log_state (fs_store x) sd') = Inr (Some (en_log_id (last (old @ es))))"
proof -
  obtain sd' where s: "adapter_append (fs_store x) ec sd es = (Inr sd', Some (Inr ()))" "fs_holds x sd' (spec_op a (OpAppend L))"
      "stores_log ec (sp_log (spec_op a (OpAppend L))) (old @ es)"
    using fs.engine_appends [OF assms(1-5)] by blast
  then show ?thesis using fs.engine_reads [OF s(2,3) fs_holds_below [OF s(2)]] assms(6) by blast
qed

text \<open>An entry of a single byte, stored with its term and index.\<close>

definition byte_codec :: "u8 EntryCodec" where
  "byte_codec =
     \<lparr>ec_serialize = (\<lambda>e. case en_payload e of
        Normal b \<Rightarrow> if o_leader_term (en_log_id e) = 1 \<and> o_index (en_log_id e) = 0 then Inr [b] else Inl ''unsupported''
      | _ \<Rightarrow> Inl ''unsupported''),
      ec_deserialize = (\<lambda>bs. case bs of [b] \<Rightarrow> Inr \<lparr>en_log_id = \<lparr>o_leader_term = 1, o_index = 0\<rparr>, en_payload = Normal b\<rparr> | _ \<Rightarrow> Inl ''unsupported'')\<rparr>"

lemma byte_codec_ok: "codec_ok byte_codec"
proof -
  have "ec_deserialize byte_codec bs = Inr e" if "ec_serialize byte_codec e = Inr bs" for e bs
    using that by (cases e) (auto simp: byte_codec_def split: EntryPayload.splits if_splits)
  then show ?thesis by (simp add: codec_ok_def)
qed

theorem engine_entries_round_trip_witness:
  "\<exists>s ss sd. fs_open plain_extern 100 empty_device = Inr (s, ss) \<and>
     adapter_append (fs_store plain_extern) byte_codec (s, exec_steps ss empty_device) [echo_entry 0 7] = (Inr sd, Some (Inr ())) \<and>
     try_get_log_entries (fs_store plain_extern) byte_codec sd Unbounded (Included 0) = Inr [echo_entry 0 7] \<and>
     try_get_log_entries (fs_store plain_extern) byte_codec sd (Excluded 0) Unbounded = Inr []"
proof -
  have "SEGMENT_HEADER < 100" by (simp add: SEGMENT_HEADER_def)
  then obtain s ss where o: "fs_open plain_extern 100 empty_device = Inr (s, ss)" "fs_holds plain_extern (s, exec_steps ss empty_device) spec_new"
    using fs_fresh [OF plain_ids] by metis
  let ?L = "[\<lparr>le_log_id = \<lparr>l_term = 1, l_index = 0\<rparr>, le_payload = [7 :: u8]\<rparr>]"
  have "serialize_all byte_codec [echo_entry 0 7] = Inr ?L" by (simp add: byte_codec_def echo_entry_def from_openraft_log_id_def)
  moreover have "keeps_contract spec_new (OpAppend ?L)"
    by (simp add: spec_new_def continues_def fits_def live_def FRAME_HEADER_def FRAME_HASH_def)
  ultimately obtain sd where "adapter_append (fs_store plain_extern) byte_codec (s, exec_steps ss empty_device) [echo_entry 0 7] = (Inr sd, Some (Inr ()))"
      "\<And>lo hi. try_get_log_entries (fs_store plain_extern) byte_codec sd lo hi =
         Inr (filter (\<lambda>e. in_bounds lo hi (o_index (en_log_id e))) [echo_entry 0 7])"
    using engine_entries_round_trip [OF o(2) _ byte_codec_ok, of "[]" "[echo_entry 0 7]" ?L] by (auto simp: spec_new_def)
  moreover have "in_bounds Unbounded (Included 0) (o_index (en_log_id (echo_entry 0 7)))"
      "\<not> in_bounds (Excluded 0) Unbounded (o_index (en_log_id (echo_entry 0 7)))"
    by (simp_all add: in_bounds_def echo_entry_def)
  ultimately show ?thesis using o(1) by (intro exI [of _ s] exI [of _ ss] exI [of _ sd]) simp
qed

end
