(* ===== verification/Ns_App.thy ===== *)
theory Ns_App
  imports Sm_Adapter Waiter_Inv Ns_Apply
begin

text \<open>
  The nameservice as an application of the generic seam and the observer that carries its effects,
  \<^verbatim>\<open>fluree-db-consensus/src/raft/app.rs\<close>, with the head watermarks of the ledger cache
  (\<^verbatim>\<open>fluree-db-api/src/ledger_manager.rs\<close>).

  The serialized form of the state is a parameter.  The event bus is the list of the events it was
  given, each with the watermarks that a subscriber reacting to it reads; the release channel is
  the list of what was sent and whether its receiver is still there.
\<close>

section \<open>The application\<close>

text \<open>\<open>BTreeSet::difference\<close>, in ascending order.\<close>

definition bs_difference :: "'a list \<Rightarrow> 'a list \<Rightarrow> 'a list" where
  "bs_difference a b = filter (\<lambda>x. x \<notin> set b) a"

definition ns_apply_membership :: "NameServiceState \<Rightarrow> MembershipView \<Rightarrow> u64 \<Rightarrow> NameServiceState" where
  "ns_apply_membership s membership log_index =
     (let new_voters = mv_voters membership;
          surviving_demotions =
            filter (\<lambda>i. i \<in> set new_voters) (bs_difference (ns_configured_voters s) (ns_worker_eligible_voters s))
      in s\<lparr>ns_worker_eligible_voters := bs_difference new_voters surviving_demotions,
           ns_configured_voters := new_voters\<rparr>)"

record NsSnapshotFormat =
  nf_to_snapshot :: "NameServiceState \<Rightarrow> string + bytes"
  nf_from_snapshot :: "bytes \<Rightarrow> string + NameServiceState"

definition name_service_app :: "NsSnapshotFormat \<Rightarrow> (NameServiceState, Command, Response) AppStateMachine" where
  "name_service_app nf =
     \<lparr>ap_initial_state = new_state,
      ap_apply = ns_apply,
      ap_noop_response = NoOp,
      ap_apply_membership = ns_apply_membership,
      ap_encode_snapshot = (\<lambda>s. map_sum CodecEncode id (nf_to_snapshot nf s)),
      ap_decode_snapshot = (\<lambda>b. map_sum CodecDecode id (nf_from_snapshot nf b))\<rparr>"

section \<open>Effects\<close>

datatype NameServiceEvent =
    LedgerCommitPublished string ContentId i64
  | LedgerIndexPublished string ContentId i64
  | LedgerRetractedEvent string
  | GraphSourceConfigPublished string GraphSourceType "string list"
  | GraphSourceIndexPublished string ContentId i64
  | GraphSourceRetractedEvent string

datatype WaiterResolution =
    BindWaiter ContentId u64
  | AppliedWaiter u64 ContentId i64
  | AbortedWaiter u64 AbortReason
  | AbortBranchWaiters RefKey AbortReason

datatype Effect =
    EventEffect NameServiceEvent
  | HeadAdvance string i64
  | WaiterEffect WaiterResolution
  | ReleaseEffect string ContentId
  | InvalidateInFlight

definition waiter_resolution_for :: "Command \<Rightarrow> Response \<Rightarrow> WaiterResolution option" where
  "waiter_resolution_for cmd response =
     (case cmd of
        EnqueueCommand args \<Rightarrow>
          (case response of
             Enqueued _ queue_id \<Rightarrow> Some (BindWaiter (qs_request_cid args) queue_id)
           | InFlight _ queue_id \<Rightarrow> Some (BindWaiter (qs_request_cid args) queue_id)
           | _ \<Rightarrow> None)
      | ApplyHead args \<Rightarrow>
          (case response of
             HeadApplied _ commit_id commit_t _ \<Rightarrow> Some (AppliedWaiter (sh_queue_id args) commit_id commit_t)
           | _ \<Rightarrow> None)
      | PoisonQueueEntry args \<Rightarrow>
          (case response of
             Poisoned _ queue_id reason _ \<Rightarrow> Some (AbortedWaiter queue_id (AbortPoisoned reason))
           | _ \<Rightarrow> None)
      | DropBranch ledger_id branch _ \<Rightarrow>
          (case response of
             BranchDropped _ _ _ \<Rightarrow> Some (AbortBranchWaiters (ref_key ledger_id branch) AbortBranchDropped)
           | _ \<Rightarrow> None)
      | PurgeBranch ledger_id branch _ \<Rightarrow>
          (case response of
             Purged _ _ \<Rightarrow> Some (AbortBranchWaiters (ref_key ledger_id branch) AbortBranchPurged)
           | _ \<Rightarrow> None)
      | ResetHead ledger_id branch _ _ \<Rightarrow>
          (case response of
             HeadReset _ _ \<Rightarrow> Some (AbortBranchWaiters (ref_key ledger_id branch) AbortBranchHeadReset)
           | _ \<Rightarrow> None)
      | RetractLedger ledger_id branch _ \<Rightarrow>
          (case response of
             Retracted _ _ \<Rightarrow> Some (AbortBranchWaiters (ref_key ledger_id branch) AbortBranchRetracted)
           | _ \<Rightarrow> None)
      | _ \<Rightarrow> None)"

definition event_for :: "Command \<Rightarrow> Response \<Rightarrow> NameServiceEvent option" where
  "event_for cmd response =
     (case cmd of
        ApplyHead args \<Rightarrow>
          (case response of
             HeadApplied _ commit_id commit_t _ \<Rightarrow>
               Some (LedgerCommitPublished (format_ledger_id (sh_ledger_id args) (sh_branch args)) commit_id commit_t)
           | _ \<Rightarrow> None)
      | AdvanceIndexHead args \<Rightarrow>
          (case response of
             IndexAdvanced index_t index_head \<Rightarrow>
               Some (LedgerIndexPublished (format_ledger_id (ni_ledger_id args) (ni_branch args)) index_head index_t)
           | _ \<Rightarrow> None)
      | RetractLedger _ _ _ \<Rightarrow> (case response of Retracted ledger_id _ \<Rightarrow> Some (LedgerRetractedEvent ledger_id) | _ \<Rightarrow> None)
      | PurgeBranch _ _ _ \<Rightarrow> (case response of Purged ledger_id _ \<Rightarrow> Some (LedgerRetractedEvent ledger_id) | _ \<Rightarrow> None)
      | DropBranch _ _ _ \<Rightarrow> (case response of BranchDropped ledger_id _ _ \<Rightarrow> Some (LedgerRetractedEvent ledger_id) | _ \<Rightarrow> None)
      | CreateBranch _ \<Rightarrow>
          (case response of BranchCreated ledger_id head t \<Rightarrow> Some (LedgerCommitPublished ledger_id head t) | _ \<Rightarrow> None)
      | _ \<Rightarrow> None)"

text \<open>The response with its envelopes taken out, and the pairs to release.\<close>

definition drain_releases :: "Response \<Rightarrow> Response \<times> (string \<times> ContentId) list" where
  "drain_releases response =
     (case response of
        EvictionApplied n released \<Rightarrow> (EvictionApplied n [], released)
      | Purged l released \<Rightarrow> (Purged l [], released)
      | BranchDropped l p released \<Rightarrow> (BranchDropped l p [], released)
      | HeadReset l released \<Rightarrow> (HeadReset l [], released)
      | Retracted l released \<Rightarrow> (Retracted l [], released)
      | HeadApplied l c t (Some cid) \<Rightarrow> (HeadApplied l c t None, [(l, cid)])
      | Poisoned l q r (Some cid) \<Rightarrow> (Poisoned l q r None, [(l, cid)])
      | _ \<Rightarrow> (response, []))"

definition ns_on_command :: "NameServiceState \<Rightarrow> Command \<Rightarrow> Response \<Rightarrow> u64 \<Rightarrow> Response \<times> Effect list" where
  "ns_on_command s command response log_index =
     (let (response', released) = drain_releases response
      in (response',
          (case event_for command response of Some e \<Rightarrow> [EventEffect e] | None \<Rightarrow> []) @
          (case waiter_resolution_for command response of Some r \<Rightarrow> [WaiterEffect r] | None \<Rightarrow> []) @
          map (\<lambda>(l, cid). ReleaseEffect l cid) released))"

definition ns_on_snapshot_loaded :: "NameServiceState \<Rightarrow> SnapshotLoad \<Rightarrow> Effect list" where
  "ns_on_snapshot_loaded s load =
     map (\<lambda>(key, entry). HeadAdvance (rk_ledger_id key) (re_t entry)) (ns_refs s) @
     (if load = LiveInstall then [InvalidateInFlight] else [])"

section \<open>Publishing\<close>

type_synonym watermarks = "(string, i64) hmap"

definition note_head_advance :: "watermarks \<Rightarrow> string \<Rightarrow> i64 \<Rightarrow> watermarks" where
  "note_head_advance w ledger_id commit_t =
     (case hm_get w ledger_id of
        None \<Rightarrow> hm_insert ledger_id commit_t w
      | Some entry \<Rightarrow> if entry < commit_t then hm_insert ledger_id commit_t w else w)"

definition head_watermark :: "watermarks \<Rightarrow> string \<Rightarrow> i64 option" where
  "head_watermark w ledger_id = hm_get w ledger_id"

record ReleaseChannel =
  rc_open :: bool
  rc_sent :: "(string \<times> ContentId) list"

record NameServiceObserver =
  no_event_bus :: "(NameServiceEvent \<times> watermarks option) list option"
  no_waiter_map :: "WaiterMap option"
  no_staged_receipts :: "StagedReceiptMap option"
  no_release_tx :: "ReleaseChannel option"
  no_ledger_manager :: "watermarks option"

definition resolve_waiter :: "NameServiceObserver \<Rightarrow> WaiterResolution \<Rightarrow> NameServiceObserver" where
  "resolve_waiter ob resolution =
     (case no_waiter_map ob of
        None \<Rightarrow> ob
      | Some waiters \<Rightarrow>
          (case resolution of
             BindWaiter cid queue_id \<Rightarrow> ob\<lparr>no_waiter_map := Some (bind waiters cid queue_id)\<rparr>
           | AppliedWaiter queue_id commit_id commit_t \<Rightarrow>
               (let (stash, receipt) =
                      (case no_staged_receipts ob of
                         None \<Rightarrow> (None, MinimalReceipt commit_id commit_t)
                       | Some s \<Rightarrow> (case take_receipt s queue_id of
                                    (s, r) \<Rightarrow> (Some s, case r of Some r \<Rightarrow> r | None \<Rightarrow> MinimalReceipt commit_id commit_t)))
                in ob\<lparr>no_staged_receipts := stash, no_waiter_map := Some (resolve_applied waiters queue_id receipt)\<rparr>)
           | AbortedWaiter queue_id reason \<Rightarrow>
               ob\<lparr>no_staged_receipts := map_option (\<lambda>s. fst (take_receipt s queue_id)) (no_staged_receipts ob),
                  no_waiter_map := Some (resolve_aborted waiters queue_id reason)\<rparr>
           | AbortBranchWaiters key reason \<Rightarrow>
               ob\<lparr>no_staged_receipts := map_option (\<lambda>s. fst (take_for_ref_key s key)) (no_staged_receipts ob),
                  no_waiter_map := Some (abort_all_for_branch waiters key reason)\<rparr>))"

text \<open>Phase one: every watermark of the batch.\<close>

fun report_head :: "watermarks \<Rightarrow> Effect \<Rightarrow> watermarks" where
  "report_head w (EventEffect (LedgerCommitPublished ledger_id _ commit_t)) = note_head_advance w ledger_id commit_t"
| "report_head w (HeadAdvance ledger_id commit_t) = note_head_advance w ledger_id commit_t"
| "report_head w _ = w"

text \<open>Phase two: one effect.\<close>

fun perform :: "NameServiceObserver \<Rightarrow> Effect \<Rightarrow> NameServiceObserver" where
  "perform ob (EventEffect event) =
     ob\<lparr>no_event_bus := map_option (\<lambda>b. b @ [(event, no_ledger_manager ob)]) (no_event_bus ob)\<rparr>"
| "perform ob (HeadAdvance _ _) = ob"
| "perform ob (WaiterEffect resolution) = resolve_waiter ob resolution"
| "perform ob (ReleaseEffect ledger_id cid) =
     ob\<lparr>no_release_tx := map_option (\<lambda>tx. if rc_open tx then tx\<lparr>rc_sent := rc_sent tx @ [(ledger_id, cid)]\<rparr> else tx) (no_release_tx ob)\<rparr>"
| "perform ob InvalidateInFlight =
     ob\<lparr>no_waiter_map := map_option (\<lambda>w. drain_all_with w AbortSnapshotInstalled) (no_waiter_map ob),
        no_staged_receipts := map_option clear_all (no_staged_receipts ob)\<rparr>"

definition ns_publish :: "NameServiceObserver \<Rightarrow> Effect list \<Rightarrow> NameServiceObserver" where
  "ns_publish ob effects =
     foldl perform (ob\<lparr>no_ledger_manager := map_option (\<lambda>w. foldl report_head w effects) (no_ledger_manager ob)\<rparr>) effects"

definition name_service_observer :: "(NameServiceState, Command, Response, Effect, NameServiceObserver) StateMachineObserver" where
  "name_service_observer =
     \<lparr>ob_on_command = ns_on_command, ob_on_membership = (\<lambda>s v i. []), ob_on_snapshot_loaded = ns_on_snapshot_loaded,
      ob_publish = ns_publish\<rparr>"

end
