(* ===== verification/Ns_Observer.thy ===== *)
theory Ns_Observer
  imports Ns_Effects
begin

text \<open>
  The properties of the nameservice's effects, with the lemmas on waiters and voters they rest on.
\<close>

section \<open>Waiters across a batch\<close>

lemma perform_waiters:
  assumes "no_waiter_map ob = Some m" and "e \<noteq> InvalidateInFlight" and "P m"
    and bind: "\<And>c q. e = WaiterEffect (BindWaiter c q) \<Longrightarrow> P (bind m c q)"
    and resolve: "\<And>m q out. P m \<Longrightarrow> P (resolve_with m q out)"
  shows "\<exists>m'. no_waiter_map (perform ob e) = Some m' \<and> P m'"
proof (cases e)
  case (WaiterEffect r)
  have abort: "P (abort_all_for_branch m k why)" for k why
    unfolding abort_all_for_branch_def resolve_aborted_def by (rule foldl_inv) (use assms(3) resolve in auto)
  show ?thesis
  proof (cases r)
    case (BindWaiter c q)
    then show ?thesis using bind assms(1) WaiterEffect by (simp add: resolve_waiter_def)
  next
    case (AppliedWaiter q c t)
    then show ?thesis using resolve [OF assms(3)] assms(1) WaiterEffect
      by (simp add: resolve_waiter_def resolve_applied_def Let_def case_prod_beta)
  next
    case (AbortedWaiter q why)
    then show ?thesis using resolve [OF assms(3)] assms(1) WaiterEffect by (simp add: resolve_waiter_def resolve_aborted_def)
  next
    case (AbortBranchWaiters k why)
    then show ?thesis using abort assms(1) WaiterEffect by (simp add: resolve_waiter_def)
  qed
qed (use assms in simp_all)

lemma batch_waiters:
  assumes "no_waiter_map ob = Some m" and "P m" and "InvalidateInFlight \<notin> set es"
    and bind: "\<And>m c q. P m \<Longrightarrow> WaiterEffect (BindWaiter c q) \<in> set es \<Longrightarrow> P (bind m c q)"
    and resolve: "\<And>m q out. P m \<Longrightarrow> P (resolve_with m q out)"
  shows "\<exists>m'. no_waiter_map (foldl perform ob es) = Some m' \<and> P m'"
  using assms(1-3) bind
proof (induction es arbitrary: ob m)
  case (Cons e es)
  have "e \<noteq> InvalidateInFlight" using Cons.prems(3) by auto
  from perform_waiters [OF Cons.prems(1) this Cons.prems(2) _ resolve]
  obtain m1 where m1: "no_waiter_map (perform ob e) = Some m1" "P m1" using Cons.prems(4) [OF Cons.prems(2)] by auto
  show ?case using Cons.IH [OF m1] Cons.prems(3,4) by simp
qed simp

text \<open>The three stages of a ticket: of interest, waiting in a slot, answered.\<close>

definition interested :: "ContentId \<Rightarrow> ticket \<Rightarrow> WaiterMap \<Rightarrow> bool" where
  "interested c t m \<longleftrightarrow> (\<exists>i. hm_get (wm_interests m) c = Some i \<and> in_ticket i = t)"

definition waiting :: "u64 \<Rightarrow> ticket \<Rightarrow> WaiterMap \<Rightarrow> bool" where
  "waiting q t m \<longleftrightarrow> hm_get (wm_chan m) t = Some ChanOpen \<longrightarrow> (\<exists>w. hm_get (wm_waiters m) q = Some w \<and> wt_ticket w = t)"

definition answered :: "ticket \<Rightarrow> WaiterMap \<Rightarrow> bool" where
  "answered t m \<longleftrightarrow> hm_get (wm_chan m) t \<noteq> Some ChanOpen"

lemma interested_kept:
  "interested c t m \<Longrightarrow> interested c t (resolve_with m q out)"
  "interested c t m \<Longrightarrow> c' \<noteq> c \<Longrightarrow> interested c t (bind m c' q)"
  by (auto simp: interested_def resolve_with_def bind_def send_def drop_sender_def Let_def split: option.splits)

lemma waiting_kept:
  "waiting q t m \<Longrightarrow> waiting q t (resolve_with m q' out)"
  "waiting q t m \<Longrightarrow> waiting q t (bind m c q')"
  by (auto simp: waiting_def resolve_with_def bind_def send_def drop_sender_def Let_def split: option.splits if_splits)

lemma answered_kept:
  "answered t m \<Longrightarrow> answered t (resolve_with m q out)"
  "answered t m \<Longrightarrow> answered t (bind m c q)"
  by (auto simp: answered_def resolve_with_def bind_def send_def drop_sender_def Let_def split: option.splits if_splits)

lemma interested_bound: "interested c t m \<Longrightarrow> waiting q t (bind m c q)"
  by (auto simp: interested_def waiting_def bind_def drop_sender_def Let_def split: option.splits)

lemma waiting_resolved: "waiting q t m \<Longrightarrow> answered t (resolve_with m q out)"
  by (auto simp: waiting_def answered_def resolve_with_def send_def split: option.splits)

lemma publish_wakes:
  assumes m: "no_waiter_map ob = Some m" and i: "interested c t m"
    and es: "es = xs @ [WaiterEffect (BindWaiter c q)] @ ys @ [WaiterEffect (AppliedWaiter q cid ct)] @ zs"
    and inv: "InvalidateInFlight \<notin> set es" and first: "\<And>q'. WaiterEffect (BindWaiter c q') \<notin> set xs"
  shows "\<exists>m'. no_waiter_map (ns_publish ob es) = Some m' \<and> answered t m'"
proof -
  let ?ob = "ob\<lparr>no_ledger_manager := map_option (\<lambda>w. foldl report_head w es) (no_ledger_manager ob)\<rparr>"
  have inv': "InvalidateInFlight \<notin> set xs" "InvalidateInFlight \<notin> set ys" "InvalidateInFlight \<notin> set zs" using inv es by auto
  let ?o1 = "foldl perform ?ob xs"
  obtain m1 where m1: "no_waiter_map ?o1 = Some m1" "interested c t m1"
    using batch_waiters [where P = "interested c t", of ?ob m xs] m i inv'(1) first interested_kept by fastforce
  let ?o2 = "perform ?o1 (WaiterEffect (BindWaiter c q))"
  have "no_waiter_map ?o2 = Some (bind m1 c q)" using m1(1) by (simp add: resolve_waiter_def)
  from batch_waiters [where P = "waiting q t", OF this interested_bound [OF m1(2)] inv'(2)]
  obtain m3 where m3: "no_waiter_map (foldl perform ?o2 ys) = Some m3" "waiting q t m3" using waiting_kept by auto
  let ?o4 = "perform (foldl perform ?o2 ys) (WaiterEffect (AppliedWaiter q cid ct))"
  obtain r where "no_waiter_map ?o4 = Some (resolve_with m3 q r)"
    using m3(1) by (simp add: resolve_waiter_def resolve_applied_def Let_def case_prod_beta)
  from batch_waiters [where P = "answered t", OF this waiting_resolved [OF m3(2)] inv'(3)]
  obtain m5 where "no_waiter_map (foldl perform ?o4 zs) = Some m5" "answered t m5" using answered_kept by auto
  moreover have "ns_publish ob es = foldl perform ?o4 zs" by (simp add: ns_publish_def es)
  ultimately show ?thesis by simp
qed

section \<open>The effects of one entry\<close>

lemma split_two:
  assumes "j < k" and "k < length xs"
  obtains mid where "xs = take j xs @ xs ! j # mid @ xs ! k # drop (Suc k) xs"
proof
  have "xs = take j xs @ xs ! j # drop (Suc j) xs" using assms by (intro id_take_nth_drop) simp
  moreover have "drop (Suc j) xs = take (k - Suc j) (drop (Suc j) xs) @ drop (Suc j) xs ! (k - Suc j) # drop (Suc (k - Suc j)) (drop (Suc j) xs)"
    using assms by (intro id_take_nth_drop) simp
  moreover have "drop (Suc j) xs ! (k - Suc j) = xs ! k" "drop (Suc (k - Suc j)) (drop (Suc j) xs) = drop (Suc k) xs"
    using assms by simp_all
  ultimately show "xs = take j xs @ xs ! j # take (k - Suc j) (drop (Suc j) xs) @ xs ! k # drop (Suc k) xs" by simp
qed

lemma entry_effects:
  "InvalidateInFlight \<notin> set (snd (snd (ns_step nf s e)))"
  "WaiterEffect (BindWaiter c q) \<in> set (snd (snd (ns_step nf s e))) \<Longrightarrow>
     \<exists>qs. en_payload e = Normal (EnqueueCommand qs) \<and> qs_request_cid qs = c"
proof -
  have "InvalidateInFlight \<notin> set (snd (ns_on_command s' d r i))" for s' d r i by (auto split: option.splits)
  then show "InvalidateInFlight \<notin> set (snd (snd (ns_step nf s e)))"
    by (simp add: ns_step_eq del: ns_on_command_simps split: EntryPayload.split)
next
  have bind: "\<exists>qs. d = EnqueueCommand qs \<and> qs_request_cid qs = c" if "waiter_resolution_for d r = Some (BindWaiter c q)" for d r
    using that by (cases d) (auto simp: waiter_resolution_for_def split: Response.splits)
  assume "WaiterEffect (BindWaiter c q) \<in> set (snd (snd (ns_step nf s e)))"
  then show "\<exists>qs. en_payload e = Normal (EnqueueCommand qs) \<and> qs_request_cid qs = c"
    using bind by (auto simp: ns_step_eq split: EntryPayload.splits option.splits)
qed

lemma normal_step: "en_payload e = Normal c \<Longrightarrow> \<exists>s' r i. snd (ns_step nf s e) = ns_on_command s' c r i"
  by (auto simp: ns_step_eq simp del: ns_on_command_simps)

lemma on_enqueued:
  "snd (ns_on_command s (EnqueueCommand qs) (Enqueued l q) i) = [WaiterEffect (BindWaiter (qs_request_cid qs) q)]"
  by (simp add: event_for_def waiter_resolution_for_def drain_releases_def)

lemma on_head_applied:
  "take 2 (snd (ns_on_command s (ApplyHead sh) (HeadApplied l c t rel) i)) =
     [EventEffect (LedgerCommitPublished (format_ledger_id (sh_ledger_id sh) (sh_branch sh)) c t),
      WaiterEffect (AppliedWaiter (sh_queue_id sh) c t)]"
  by (simp add: event_for_def waiter_resolution_for_def)

lemma enqueue_effects:
  assumes "en_payload e = Normal (EnqueueCommand qs)" and "fst (snd (ns_step nf s e)) = Enqueued l q"
  shows "snd (snd (ns_step nf s e)) = [WaiterEffect (BindWaiter (qs_request_cid qs) q)]"
proof -
  obtain s' r i where st: "snd (ns_step nf s e) = ns_on_command s' (EnqueueCommand qs) r i"
    using normal_step [OF assms(1)] by blast
  have "r = Enqueued l q" using assms(2) unfolding st ns_on_command_simps(1) by (rule drained(2))
  then show ?thesis unfolding st using on_enqueued by simp
qed

lemma head_effects:
  assumes "en_payload e = Normal (ApplyHead sh)" and "fst (snd (ns_step nf s e)) = HeadApplied l c t rel"
  shows "rel = None"
    "\<exists>fs. snd (snd (ns_step nf s e)) =
      [EventEffect (LedgerCommitPublished (format_ledger_id (sh_ledger_id sh) (sh_branch sh)) c t),
       WaiterEffect (AppliedWaiter (sh_queue_id sh) c t)] @ fs"
proof -
  obtain s' r i where st: "snd (ns_step nf s e) = ns_on_command s' (ApplyHead sh) r i"
    using normal_step [OF assms(1)] by blast
  note d = drained(1) [OF assms(2) [unfolded st ns_on_command_simps(1)]]
  then obtain rel' where r: "r = HeadApplied l c t rel'" by blast
  have "snd (ns_on_command s' (ApplyHead sh) r i) =
      take 2 (snd (ns_on_command s' (ApplyHead sh) r i)) @ drop 2 (snd (ns_on_command s' (ApplyHead sh) r i))"
    by (rule append_take_drop_id [symmetric])
  then show "\<exists>fs. snd (snd (ns_step nf s e)) =
      [EventEffect (LedgerCommitPublished (format_ledger_id (sh_ledger_id sh) (sh_branch sh)) c t),
       WaiterEffect (AppliedWaiter (sh_queue_id sh) c t)] @ fs"
    unfolding st unfolding r on_head_applied by (rule exI)
  show "rel = None" using d by blast
qed







section \<open>Voters\<close>

lemma voters_frame:
  assumes "\<forall>we. c \<noteq> SetWorkerEligibility we"
  shows "ns_configured_voters (fst (ns_apply s c i)) = ns_configured_voters s \<and>
    ns_worker_eligible_voters (fst (ns_apply s c i)) = ns_worker_eligible_voters s"
proof (cases c)
  case (ApplyHead sh)
  then show ?thesis
    by (auto simp: apply_head_def pop_validated_front_def Let_def case_prod_beta drop_queue_if_empty_def
        advance_ref_entry_def self_heal_branch_def record_outcome_def split: option.splits list.splits sum.splits)
next
  case (PoisonQueueEntry ep)
  then show ?thesis
    by (rule_tac poison_cases [OF refl refl, of s i ep]) (simp_all add: record_outcome_def consume_front_def split: option.splits)
next
  case (EnqueueCommand qs)
  then show ?thesis by (rule_tac enqueue_cases [of s i qs]) simp_all
qed (use assms in \<open>auto simp: fst_drop_branch fst_purge_branch advance_index_head_def rewrite_index_head_def
    set_index_head_def create_ledger_def create_branch_def reset_head_def retract_ledger_def
    apply_compare_and_set_ref_def push_config_def push_status_def apply_publish_graph_source_def apply_publish_graph_source_index_def
    apply_retract_graph_source_def apply_evict_idempotency_def Let_def
    case_prod_beta split: option.splits RefKind.splits\<close>)

definition voters_ok :: "NameServiceState \<Rightarrow> bool" where
  "voters_ok s \<longleftrightarrow> bs_ok (ns_configured_voters s) \<and> bs_ok (ns_worker_eligible_voters s) \<and>
     set (ns_worker_eligible_voters s) \<subseteq> set (ns_configured_voters s)"

lemma bs_ok_difference: "bs_ok a \<Longrightarrow> bs_ok (bs_difference a b)"
  by (induction a) (auto simp: bs_difference_def)

lemma view_ok: "bs_ok (mv_voters (membership_view m))"
proof -
  have "bs_ok (foldr bs_insert xs [])" for xs :: "NodeId list" by (induction xs) simp_all
  then show ?thesis by (simp add: membership_view_def)
qed

lemma voters_command:
  assumes "voters_ok s"
  shows "voters_ok (fst (ns_apply s c i)) \<and> ns_configured_voters (fst (ns_apply s c i)) = ns_configured_voters s"
proof (cases "\<exists>we. c = SetWorkerEligibility we")
  case True
  then show ?thesis using assms by (auto simp: voters_ok_def apply_set_worker_eligibility_def Let_def dest: subsetD split: if_splits)
next
  case False
  then show ?thesis using voters_frame [of c s i] assms by (simp add: voters_ok_def)
qed

lemma voters_membership: "voters_ok (ns_apply_membership s (membership_view m) i)"
  using view_ok [of m] by (auto simp: voters_ok_def ns_apply_membership_def Let_def bs_ok_difference) (auto simp: bs_difference_def)

lemma reduce_voters:
  assumes "voters_ok s \<and> ns_configured_voters s = mv_voters (membership_view (md_membership lm))"
    and "foldl (reduce_entry (name_service_app nf)) (s, la, lm) es = (s', la', lm')"
  shows "voters_ok s' \<and> ns_configured_voters s' = mv_voters (membership_view (md_membership lm'))"
  using assms
proof (induction es arbitrary: s la lm)
  case (Cons e es)
  obtain s1 la1 lm1 where r: "reduce_entry (name_service_app nf) (s, la, lm) e = (s1, la1, lm1)" by (metis prod_cases3)
  have "voters_ok s1 \<and> ns_configured_voters s1 = mv_voters (membership_view (md_membership lm1))"
    using r Cons.prems(1) voters_command voters_membership
    by (auto simp: name_service_app_def split: EntryPayload.splits) (auto simp: ns_apply_membership_def Let_def)
  from Cons.IH [OF this] Cons.prems(2) r show ?case by simp
qed simp

lemma run_bookkeeping: "bookkeeping (fst (adapter_run app ob a bs)) = foldl (reduce_entry app) (bookkeeping a) (concat bs)"
proof (induction bs arbitrary: a)
  case (Cons es bs)
  then show ?case using adapter_apply_bookkeeping(1) [of app ob a es] by (simp add: Let_def case_prod_beta)
qed simp

definition demoted :: "NodeId \<Rightarrow> NameServiceState \<Rightarrow> bool" where
  "demoted n s \<longleftrightarrow> n \<in> set (ns_configured_voters s) \<and> n \<notin> set (ns_worker_eligible_voters s)"

text \<open>An entry that neither declares a node eligible nor removes it from the voters.\<close>

definition spares :: "NodeId \<Rightarrow> Command Entry \<Rightarrow> bool" where
  "spares n e =
     (case en_payload e of
        Normal (SetWorkerEligibility we) \<Rightarrow> \<not> (we_voter we = n \<and> we_eligible we)
      | MembershipChange m \<Rightarrow> n \<in> set (om_voters m)
      | _ \<Rightarrow> True)"

lemma demoted_step:
  assumes "demoted n s" and "spares n e"
  shows "demoted n (fst (reduce_entry (name_service_app nf) (s, la, lm) e))"
proof (cases "en_payload e")
  case (Normal c)
  have "demoted n (fst (ns_apply s c i))" for i
  proof (cases "\<exists>we. c = SetWorkerEligibility we")
    case True
    then show ?thesis using assms Normal
      by (auto simp: demoted_def spares_def apply_set_worker_eligibility_def Let_def split: if_splits)
  next
    case False
    then show ?thesis using voters_frame [of c s i] assms(1) by (simp add: demoted_def)
  qed
  then show ?thesis using Normal by (simp add: name_service_app_def)
next
  case (MembershipChange m)
  have "set (foldr bs_insert xs []) = set xs" for xs :: "NodeId list" by (induction xs) simp_all
  then show ?thesis using assms MembershipChange
    by (auto simp: name_service_app_def ns_apply_membership_def Let_def demoted_def spares_def membership_view_def bs_difference_def)
qed (use assms in \<open>simp add: name_service_app_def\<close>)

section \<open>A sample node\<close>

definition ns_format :: NsSnapshotFormat where
  "ns_format = \<lparr>nf_to_snapshot = (\<lambda>s. Inl ''unused''), nf_from_snapshot = (\<lambda>b. Inl ''unused'')\<rparr>"

definition ns_world :: NameServiceObserver where
  "ns_world =
     \<lparr>no_event_bus = Some [], no_waiter_map = Some (fst (arm new_waiters (ns_cid 1) (ref_key ''db'' ''main''))),
      no_staged_receipts = Some [], no_release_tx = Some \<lparr>rc_open = True, rc_sent = []\<rparr>, no_ledger_manager = Some []\<rparr>"

definition ns_node :: "(NameServiceState, unit, NameServiceObserver) StateMachineAdapter" where
  "ns_node = adapter_new (name_service_app ns_format) () ns_world"

definition ns_entry :: "u64 \<Rightarrow> Command \<Rightarrow> Command Entry" where
  "ns_entry i c = \<lparr>en_log_id = \<lparr>o_leader_term = 1, o_index = i\<rparr>, en_payload = Normal c\<rparr>"

definition ns_batch :: "Command Entry list" where
  "ns_batch = [ns_entry 1 (CreateLedger ns_ledger), ns_entry 2 (EnqueueCommand (ns_sub 1)), ns_entry 3 (ApplyHead (ns_staged 0))]"

lemma ns_node_state [simp]: "ad_state ns_node = new_state" "ad_world ns_node = ns_world"
  by (simp_all add: ns_node_def adapter_new_def name_service_app_def)

lemma normal_steps:
  "map fst (ns_trace nf s (map (\<lambda>(i, c). ns_entry i c) es)) = map (fst \<circ> drain_releases \<circ> snd) (ns_responses s es)"
  by (induction s es rule: ns_responses.induct) (simp_all add: ns_step_eq ns_entry_def)

lemma ns_batch_answers:
  "snd (adapter_apply (name_service_app ns_format) name_service_observer ns_node ns_batch) ! 1 = Enqueued ''db:main'' 0"
  "snd (adapter_apply (name_service_app ns_format) name_service_observer ns_node ns_batch) ! 2 = HeadApplied ''db:main'' (ns_cid 7) 1 None"
proof -
  let ?es = "ns_log @ [(3, ApplyHead (ns_staged 0))]"
  have b: "ns_batch = map (\<lambda>(i, c). ns_entry i c) ?es" by (simp add: ns_batch_def ns_log_def)
  have e: "snd (apply_enqueue_command (fst (create_ledger new_state 1 ns_ledger)) 2 (ns_sub 1)) = Enqueued ''db:main'' 0"
    by (simp add: ns_sub_def ns_ledger_def ns_eval)
  have h: "snd (apply_head (fst (apply_enqueue_command (fst (create_ledger new_state 1 ns_ledger)) 2 (ns_sub 1))) 3 (ns_staged 0)) =
      HeadApplied ''db:main'' (ns_cid 7) 1 None"
    using ns_log_applied unfolding ns_log_def by simp
  show "snd (adapter_apply (name_service_app ns_format) name_service_observer ns_node ns_batch) ! 1 = Enqueued ''db:main'' 0"
    "snd (adapter_apply (name_service_app ns_format) name_service_observer ns_node ns_batch) ! 2 = HeadApplied ''db:main'' (ns_cid 7) 1 None"
    unfolding b adapter_apply_trace normal_steps by (simp_all add: ns_log_def e [simplified] h [simplified] drain_releases_def)
qed

section \<open>Properties\<close>



text \<open>
  C16: with the release channel open, the envelopes that nodes were told are queued are at any time
  exactly, as multisets, those sent to the release task and those still referenced by the state:
  no envelope is sent twice, none is sent while it is referenced, and none is forgotten, however
  the entries were batched and whatever membership changes came between them.
\<close>

theorem released_exactly_once:
  assumes "\<forall>e \<in> set (concat bs). entry_scoped e" and "no_release_tx w = Some \<lparr>rc_open = True, rc_sent = []\<rparr>"
    and "adapter_run (name_service_app nf) name_service_observer (adapter_new (name_service_app nf) st w) bs = (a, rs)"
  shows "\<exists>sent. no_release_tx (ad_world a) = Some \<lparr>rc_open = True, rc_sent = sent\<rparr> \<and>
    accepted (concat bs) rs = mset (map snd sent) + held (ad_state a)"
proof -
  have "held new_state = {#}" by (simp add: held_def queued_cids_def cached_cids_def new_state_def)
  moreover have "ad_state (adapter_new (name_service_app nf) st w) = new_state" "ad_world (adapter_new (name_service_app nf) st w) = w"
    by (simp_all add: adapter_new_def name_service_app_def)
  ultimately obtain sent where "no_release_tx (ad_world a) = Some \<lparr>rc_open = True, rc_sent = sent\<rparr>"
      "held (ad_state a) + mset (map snd sent) = accepted (concat bs) rs"
    using run_conserves [OF _ _ assms(1) _ _ assms(3), of "\<lparr>rc_open = True, rc_sent = []\<rparr>"] assms(2) ns_ok_new cache_ok_new by auto
  then show ?thesis by (metis add.commute)
qed

theorem released_exactly_once_witness:
  "\<exists>sent. no_release_tx (ad_world (fst (adapter_run (name_service_app ns_format) name_service_observer ns_node [ns_batch]))) =
       Some \<lparr>rc_open = True, rc_sent = sent\<rparr> \<and>
     accepted ns_batch (snd (adapter_run (name_service_app ns_format) name_service_observer ns_node [ns_batch])) =
       mset (map snd sent) + held (ad_state (fst (adapter_run (name_service_app ns_format) name_service_observer ns_node [ns_batch])))"
proof -
  have "\<forall>e \<in> set (concat [ns_batch]). entry_scoped e" by (simp add: ns_batch_def ns_entry_def entry_scoped_def ns_sample format_ledger_id_def)
  from released_exactly_once [OF this, of ns_world ns_format "()"] show ?thesis
    unfolding ns_node_def [symmetric] by (simp add: ns_world_def case_prod_beta Let_def prod_eq_iff)
qed

text \<open>
  C23: a proposer that armed interest in its request before proposing it is not left waiting when
  the submission and the head advance that finishes it are committed in one batch: the bind is
  performed before the resolution, so its wait does not run into the timeout.
\<close>

theorem batch_wakes_proposer:
  assumes "adapter_apply (name_service_app nf) name_service_observer a es = (a', rs)"
    and "no_waiter_map (ad_world a) = Some m" and "hm_get (wm_interests m) (tk_request_cid tk) = Some i" and "in_ticket i = tk_id tk"
    and "j < k" and "k < length es"
    and "en_payload (es ! j) = Normal (EnqueueCommand qs)" and "qs_request_cid qs = tk_request_cid tk" and "rs ! j = Enqueued l q"
    and "en_payload (es ! k) = Normal (ApplyHead sh)" and "sh_queue_id sh = q" and "rs ! k = HeadApplied l' cid t rel"
    and first: "\<And>n qs'. n < j \<Longrightarrow> en_payload (es ! n) = Normal (EnqueueCommand qs') \<Longrightarrow> qs_request_cid qs' \<noteq> tk_request_cid tk"
  shows "\<exists>m'. no_waiter_map (ad_world a') = Some m' \<and> wait m' tk \<noteq> Inl TimedOut"
proof -
  let ?tr = "ns_trace nf (ad_state a) es" and ?c = "tk_request_cid tk"
  have rs: "rs = map fst ?tr" and world: "ad_world a' = ns_publish (ad_world a) (concat (map snd ?tr))"
    using assms(1) adapter_apply_trace [of "name_service_app nf" name_service_observer a es] by (simp_all add: name_service_observer_def)
  have step: "\<exists>s. ?tr ! n = snd (ns_step nf s (es ! n))" if "n < length es" for n using trace_nth [OF that] .
  have nj: "j < length es" using assms(5,6) by simp
  obtain s where s: "?tr ! j = snd (ns_step nf s (es ! j))" using step [OF nj] by blast
  have ej: "snd (?tr ! j) = [WaiterEffect (BindWaiter ?c q)]"
    using enqueue_effects [OF assms(7), of nf s l q] assms(8,9) s rs nj by simp
  obtain s2 where s2: "?tr ! k = snd (ns_step nf s2 (es ! k))" using step [OF assms(6)] by blast
  obtain ev fs where ek: "snd (?tr ! k) = [ev] @ [WaiterEffect (AppliedWaiter q cid t)] @ fs"
    using head_effects(2) [OF assms(10), of nf s2 l' cid t rel] assms(11,12) s2 rs assms(6) by auto
  obtain mid where tr: "?tr = take j ?tr @ ?tr ! j # mid @ ?tr ! k # drop (Suc k) ?tr"
    using split_two [OF assms(5), of ?tr] assms(6) by auto
  let ?xs = "concat (map snd (take j ?tr))" and ?ys = "concat (map snd mid) @ [ev]" and ?zs = "fs @ concat (map snd (drop (Suc k) ?tr))"
  have es: "concat (map snd ?tr) = ?xs @ [WaiterEffect (BindWaiter ?c q)] @ ?ys @ [WaiterEffect (AppliedWaiter q cid t)] @ ?zs"
    by (subst tr) (simp add: ej ek)
  have "InvalidateInFlight \<notin> set (snd (?tr ! n))" if "n < length es" for n using step [OF that] entry_effects(1) by metis
  then have "\<forall>x \<in> set ?tr. InvalidateInFlight \<notin> set (snd x)" by (simp add: all_set_conv_all_nth)
  then have inv: "InvalidateInFlight \<notin> set (concat (map snd ?tr))" by auto
  have no: "WaiterEffect (BindWaiter ?c q') \<notin> set ?xs" for q'
  proof
    assume "WaiterEffect (BindWaiter ?c q') \<in> set ?xs"
    then obtain x where x: "x \<in> set (take j ?tr)" "WaiterEffect (BindWaiter ?c q') \<in> set (snd x)" by auto
    then obtain n where n: "n < j" "WaiterEffect (BindWaiter ?c q') \<in> set (snd (?tr ! n))" by (auto simp: in_set_conv_nth [of x])
    moreover obtain s' where "?tr ! n = snd (ns_step nf s' (es ! n))" using step [of n] n(1) nj by auto
    ultimately show False using entry_effects(2) first [OF n(1)] by metis
  qed
  have "interested ?c (tk_id tk) m" using assms(3,4) by (simp add: interested_def)
  from publish_wakes [OF assms(2) this es inv no]
  show ?thesis using world by (auto simp: answered_def wait_def split: option.splits Chan.splits)
qed

theorem batch_wakes_proposer_witness:
  "\<exists>m. no_waiter_map (ad_world (fst (adapter_apply (name_service_app ns_format) name_service_observer ns_node ns_batch))) = Some m \<and>
     wait m (snd (arm new_waiters (ns_cid 1) (ref_key ''db'' ''main''))) \<noteq> Inl TimedOut"
proof -
  let ?w = "arm new_waiters (ns_cid 1) (ref_key ''db'' ''main'')"
  obtain a rs where run: "adapter_apply (name_service_app ns_format) name_service_observer ns_node ns_batch = (a, rs)" by fastforce
  have "no_waiter_map (ad_world ns_node) = Some (fst ?w)" by (simp add: ns_world_def)
  moreover have "hm_get (wm_interests (fst ?w)) (tk_request_cid (snd ?w)) = Some \<lparr>in_ref_key = ref_key ''db'' ''main'', in_ticket = 0\<rparr>"
    "in_ticket \<lparr>in_ref_key = ref_key ''db'' ''main'', in_ticket = 0\<rparr> = tk_id (snd ?w)" "qs_request_cid (ns_sub 1) = tk_request_cid (snd ?w)"
    by (simp_all add: arm_def Let_def new_waiters_def ns_sub_def)
  moreover have "en_payload (ns_batch ! 1) = Normal (EnqueueCommand (ns_sub 1))" "en_payload (ns_batch ! 2) = Normal (ApplyHead (ns_staged 0))"
    "sh_queue_id (ns_staged 0) = 0" "2 < length ns_batch" by (simp_all add: ns_batch_def ns_entry_def ns_staged_def)
  moreover have "rs ! 1 = Enqueued ''db:main'' 0" "rs ! 2 = HeadApplied ''db:main'' (ns_cid 7) 1 None" using ns_batch_answers run by simp_all
  moreover have "en_payload (ns_batch ! n) \<noteq> Normal (EnqueueCommand qs')" if "n < 1" for n qs' using that by (simp add: ns_batch_def ns_entry_def)
  ultimately have "\<exists>m. no_waiter_map (ad_world a) = Some m \<and> wait m (snd ?w) \<noteq> Inl TimedOut"
    by (intro batch_wakes_proposer [OF run, of "fst ?w" "snd ?w" _ 1 2 "ns_sub 1" _ 0 "ns_staged 0"]) (assumption | simp)+
  then show ?thesis by (simp add: run)
qed

text \<open>
  C39: after any entries in any batches, the configured voters of the state are the voters of the
  last membership the adapter has recorded, both voter lists are strictly ascending, and the
  voters that may be given work are among the configured ones.
\<close>

theorem eligible_voters_are_voters:
  "voters_ok (ad_state (fst (adapter_run (name_service_app nf) ob (adapter_new (name_service_app nf) st w) bs))) \<and>
   ns_configured_voters (ad_state (fst (adapter_run (name_service_app nf) ob (adapter_new (name_service_app nf) st w) bs))) =
   mv_voters (membership_view (md_membership (ad_last_membership (fst (adapter_run (name_service_app nf) ob (adapter_new (name_service_app nf) st w) bs)))))"
proof -
  let ?a = "fst (adapter_run (name_service_app nf) ob (adapter_new (name_service_app nf) st w) bs)"
  have "foldl (reduce_entry (name_service_app nf)) (new_state, None, default_membership) (concat bs) =
      (ad_state ?a, ad_last_applied ?a, ad_last_membership ?a)"
    using run_bookkeeping [of "name_service_app nf" ob "adapter_new (name_service_app nf) st w" bs]
    by (simp add: bookkeeping_def adapter_new_def name_service_app_def)
  moreover have "voters_ok new_state \<and> ns_configured_voters new_state = mv_voters (membership_view (md_membership default_membership))"
    by (simp add: voters_ok_def new_state_def default_membership_def membership_view_def)
  ultimately show ?thesis using reduce_voters by blast
qed

text \<open>
  C40: a voter that was declared ineligible stays ineligible through any entries, membership changes
  included, as long as it remains a voter and no command declares it eligible again.
\<close>

theorem demotion_survives:
  assumes "demoted n (ad_state a)" and "\<forall>e \<in> set es. spares n e"
  shows "demoted n (ad_state (fst (adapter_apply (name_service_app nf) ob a es)))"
proof -
  have "demoted n (fst (foldl (reduce_entry (name_service_app nf)) (s, la, lm) es))" if "demoted n s" for s la lm
    using that assms(2)
  proof (induction es arbitrary: s la lm)
    case (Cons e es)
    obtain s1 la1 lm1 where r: "reduce_entry (name_service_app nf) (s, la, lm) e = (s1, la1, lm1)" by (metis prod_cases3)
    have "demoted n s1" using demoted_step [OF Cons.prems(1), of e nf la lm] Cons.prems(2) r by simp
    from Cons.IH [OF this] Cons.prems(2) show ?case unfolding foldl_Cons r by simp
  qed simp
  from this [OF assms(1)] show ?thesis
    using adapter_apply_bookkeeping(1) [of "name_service_app nf" ob a es] by (simp add: bookkeeping_def) (metis fst_conv)
qed

definition ns_join :: "Command Entry" where
  "ns_join = \<lparr>en_log_id = \<lparr>o_leader_term = 1, o_index = 9\<rparr>, en_payload = MembershipChange \<lparr>om_voters = [3, 1, 2], om_learners = []\<rparr>\<rparr>"

theorem demotion_survives_witness:
  "demoted 2 (ad_state (fst (adapter_apply (name_service_app ns_format) name_service_observer
     (ns_node\<lparr>ad_state := new_state\<lparr>ns_configured_voters := [1, 2], ns_worker_eligible_voters := [1]\<rparr>\<rparr>) [ns_join])))"
proof -
  let ?a = "ns_node\<lparr>ad_state := new_state\<lparr>ns_configured_voters := [1, 2], ns_worker_eligible_voters := [1]\<rparr>\<rparr>"
  have "demoted 2 (ad_state ?a)" by (simp add: demoted_def)
  moreover have "\<forall>e \<in> set [ns_join]. spares 2 e" by (simp add: ns_join_def spares_def)
  ultimately show ?thesis by (rule demotion_survives)
qed

end
