(* ===== verification/Spec2Isabelle.thy ===== *)
theory Spec2Isabelle
  imports Kv_Props Sweep Ns_Evict Ns_Errors Ns_Versioned Ns_Spec Waiter_Inv Fs_Laws Log_Adapter Ns_Observer
begin

text \<open>
  \<^bold>\<open>A verification library for the consensus and storage core of Fluree DB.\<close>

  Fluree DB is a graph database whose ledgers, branches and write queues are kept in a replicated
  state machine.  The library models the code that decides what a cluster agrees on and what it
  still knows after a crash, and proves that code correct.  Paths below are relative to
  \<^verbatim>\<open>src/\<close>.

  \<^bold>\<open>The parts and how they interact.\<close>
  A consensus engine (third-party) commits log entries.  It stores them through the log adapter
  (\<^verbatim>\<open>fluree-raft-core/src/log_adapter.rs\<close>) in a log store, in memory or in files
  (\<^verbatim>\<open>fluree-raft-core/src/storage/memory.rs\<close>, \<^verbatim>\<open>storage/fs.rs\<close>), and hands committed entries in
  batches to the state-machine adapter (\<^verbatim>\<open>fluree-raft-core/src/state_machine.rs\<close>).  The adapter
  drives an application and an observer: the application reduces a command to a new state and an
  answer; the observer collects effects and publishes them after the batch.  Two applications are
  modelled: the key/value fragment (\<^verbatim>\<open>fluree-raft-core/src/kv.rs\<close>) and the nameservice
  (\<^verbatim>\<open>fluree-db-consensus/src/raft/state_machine.rs\<close>, \<^verbatim>\<open>app.rs\<close>).  The nameservice's effects are
  events, watermarks of the ledger cache, wake-ups of proposers (\<^verbatim>\<open>waiter.rs\<close>,
  \<^verbatim>\<open>staged_receipt.rs\<close>) and releases of request envelopes.  Snapshots of a state go through the
  adapter to a snapshot store.

  \<^bold>\<open>Theories.\<close>
  \<^item> \<open>Prelude\<close>: the machine integers, results, hash maps as association lists, ordered maps and
    sets as ascending lists, and string operations, with the locale \<open>key_store\<close> of map laws.
  \<^item> \<open>Kv\<close>, \<open>Kv_Lemmas\<close>, \<open>Kv_Props\<close>: the key/value fragment.  \<open>put\<close>, \<open>delete\<close>, \<open>take_once\<close>,
    \<open>evict\<close> and \<open>kv_apply\<close> are the functions of the same names in \<^verbatim>\<open>kv.rs\<close>.  Shown: the declared
    invariants, compare-and-set, that a lease is a fence, single consumption, quotas, and the
    snapshot round trip.
  \<^item> \<open>Sweep\<close>: the leader's sweep of expired records (\<^verbatim>\<open>kv/sweep.rs\<close>); locale \<open>sweep_target\<close>.
  \<^item> \<open>Ledger_Id\<close>: parsing, formatting and validation of ledger and branch names
    (\<^verbatim>\<open>fluree-db-core/src/ledger_id.rs\<close>).
  \<^item> \<open>Ns_State\<close>, \<open>Ns_Apply\<close>: the state, commands, responses and handlers of the nameservice, one
    definition per handler, dispatched by \<open>ns_apply\<close>.  \<open>Ns_Inv\<close>, \<open>Ns_Heads\<close>, \<open>Ns_Queue\<close>,
    \<open>Ns_Cache\<close>, \<open>Ns_Envelopes\<close>, \<open>Ns_Replicas\<close>, \<open>Ns_Lineage\<close>: invariants of its registry, heads,
    queues, idempotency cache, envelopes, iteration order and branch lineage, each kept by every
    command.  \<open>Ns_Props\<close>, \<open>Ns_Errors\<close>, \<open>Ns_Evict\<close>, \<open>Ns_Versioned\<close> (locale \<open>versioned_value\<close>):
    what follows for any log.  \<open>Ns_Spec\<close>: an abstract nameservice with one rule per kind of
    change, which the handlers refine.
  \<^item> \<open>Waiter\<close>, \<open>Waiter_Inv\<close>: the waiter map and the staged receipts; a proposer whose answer has
    not come is registered in its slot, and every resolution of that slot wakes it.
  \<^item> \<open>Raft_Storage\<close>: the stored types, the in-memory stores, the conversions to the engine's types.
  \<^item> \<open>Fs_Frames\<close>, \<open>Fs_Log\<close>: the byte formats and the operations of the filesystem log.
    \<open>Fs_Layout\<close>, \<open>Fs_Inv\<close>, \<open>Fs_Append\<close>, \<open>Fs_Cut\<close>, \<open>Fs_Open\<close>, \<open>Fs_Committed\<close>: the layout of a healthy
    log, what each operation does to it, and every directory a stop can leave.  \<open>Fs_Store\<close>: the
    locale \<open>raft_log_store\<close> of what a log store promises, interpreted on both stores.  \<open>Fs_Props\<close>,
    \<open>Fs_Laws\<close>: the filesystem store equals the in-memory one, refines its specification, and
    recovers what was acknowledged after a stop inside any step of an operation, also when it is
    stopped again while it recovers.  The one exception is what follows a stop inside a purge past
    the end of the log, as after installing a snapshot: the next open still shows the right log, but
    an entry appended afterwards can be lost, which \<open>purge_past_end_loses_entry\<close> exhibits.  The flag
    of \<open>fs_reach\<close> marks the histories without such a stop.
  \<^item> \<open>Snap_Store\<close>: the filesystem snapshot store; a write is atomic under stops, and neither writes
    nor reads leave its directory.
  \<^item> \<open>Sm_Adapter\<close>: the seam and the adapter, over the locale \<open>snapshot_store\<close>, interpreted on both
    snapshot stores; a restart and a transfer restore the bookkeeping.
  \<^item> \<open>Log_Adapter\<close>: the log adapter over any \<open>raft_log_store\<close>; the engine reads back what it wrote.
  \<^item> \<open>Ns_App\<close>, \<open>Ns_Effects\<close>, \<open>Ns_Observer\<close>: the nameservice as an application with its observer,
    composed with the adapter and the waiter map; the watermarks of reported heads precede events,
    envelopes are released exactly once, a proposer is woken, voters and demotions follow the membership.

  \<^bold>\<open>How code is rendered.\<close>
  Structs are records, enums are datatypes with the source's constructors (suffixed where a name
  is taken), \<open>u64\<close> and smaller are words that wrap, \<open>i64\<close> is \<open>int\<close> where only comparisons are made,
  \<open>usize\<close> is \<open>nat\<close>, a string is its bytes.  A \<open>HashMap\<close> is an association list and its iteration
  order is the order of the list: \<open>replicas_agree\<close> shows that the order does not matter.  Mutable
  state is passed explicitly and every error is a value.  An operation on files yields the new
  in-memory state and the list of its durable steps; a stop is a prefix of the steps, possibly with
  a torn last write.

  \<^bold>\<open>Parameters.\<close>
  The hash and the postcard encodings of the file formats are the fields of \<open>Extern\<close>, \<open>SnapCodec\<close>,
  \<open>MembershipCodec\<close>, \<open>EntryCodec\<close> and \<open>NsSnapshotFormat\<close>.  What is assumed of them is stated where
  it is used (\<open>ids_ok\<close>, \<open>metas_ok\<close>, \<open>codec_ok\<close>): a decoder inverts its encoder.  A torn
  write of a segment leaves a prefix of its bytes, which is recognised by its length; a torn write of
  a committed slot leaves arbitrary bytes, and that these fail the hash of the slot is the hypothesis
  \<open>tear_seen\<close> of the statements on stops.  The sample definitions instantiate all of them.

  \<^bold>\<open>Bounds.\<close>
  No definition runs on fuel.  All loops are structural or end by a measure: the sweep by its number
  of rounds, the scan of a segment by the remaining bytes, the decimal digits of a snapshot id by
  the number.  The caller's contract of a log store excludes the index \<open>2^64 - 1\<close>.

  \<^bold>\<open>Not modelled.\<close>
  The consensus engine, networking, timers, locks and the asynchronous plumbing are third-party or
  I/O; the tasks that propose commands (transactor, commit worker, liveness monitor, eviction
  scheduler) are represented by the commands they propose.  I/O errors other than corruption and
  missing files are left out.  The query languages, transactions, indexes, reasoning, RDF formats,
  the HTTP server and the bindings do not take part in the replicated state, to which commits and
  indexes are opaque identifiers with a logical time, and are left out for their size.
\<close>

end
